(* ===== verification/Prelude.thy ===== *)
theory Prelude
  imports Main "HOL-Library.Word"
begin

text \<open>
  What the theories of this library share: the faults a C statement can run into and the
  sequencing of computations that may fault, C strings as character lists with an explicit
  terminator, the conversion of wide integers to \<open>int\<close>, the collections of rewrite rules
  the component theories fill, and arithmetic on the powers of two that index a heap-shaped
  binary tree.
\<close>

named_theorems c_simps
named_theorems tree_arith


section \<open>Faults and sequencing\<close>

text \<open>
  A computation of the model is a value of type \<open>fault + 'a\<close>: \<open>Inr\<close> of what the C function
  leaves behind, or \<open>Inl\<close> of the reason why the C program has no defined behaviour from here on
  (or stops): reading a pointer that is null or was never written, reading behind the end of a
  string that is not terminated, a shift by a negative amount, a floating point value outside
  \<open>int\<close>, a signed sum or product outside \<open>int\<close>, a division by zero, writing behind the end of an array, an \<open>assert\<close> that fails, a recursion that does
  not end. Error returns such as \<open>-1\<close> are ordinary values.
\<close>

datatype fault =
    Bad_pointer
  | Unterminated
  | Bad_shift
  | Bad_conversion
  | Int_overflow
  | Division_by_zero
  | Overrun
  | Assertion_failed
  | Stack_exhausted

fun bind_c :: "fault + 'a \<Rightarrow> ('a \<Rightarrow> fault + 'b) \<Rightarrow> fault + 'b" where
  "bind_c (Inl e) f = Inl e"
| "bind_c (Inr x) f = f x"

lemma bind_c_eq_Inr [simp]:
  "bind_c m f = Inr y \<longleftrightarrow> (\<exists>x. m = Inr x \<and> f x = Inr y)"
  by (cases m) auto

lemma bind_c_assoc: "bind_c (bind_c m f) g = bind_c m (\<lambda>x. bind_c (f x) g)"
  by (cases m) auto

lemma bind_c_return [simp]: "bind_c m Inr = m"
  by (cases m) auto


section \<open>Machine integers\<close>

text \<open>
  An \<open>int\<close> has 32 bits. A wider value converted to \<open>int\<close> keeps the low 32 of its bits; a signed sum
  or product that does not fit has no defined behaviour.
\<close>

definition as_int :: "int \<Rightarrow> int" where
  "as_int n = sint (word_of_int n :: 32 word)"

definition int_result :: "nat \<Rightarrow> fault + nat" where
  "int_result n = (if n < 2 ^ 31 then Inr n else Inl Int_overflow)"

definition fits_int :: "int \<Rightarrow> bool" where
  "fits_int n \<longleftrightarrow> - (2 ^ 31) \<le> n \<and> n < 2 ^ 31"

lemma as_int_fits [simp]: "fits_int n \<Longrightarrow> as_int n = n"
  unfolding as_int_def fits_int_def by (subst signed_of_int) (simp add: signed_take_bit_int_eq_self)

lemma int_result_small [simp, c_simps]: "n < 2 ^ 31 \<Longrightarrow> int_result n = Inr n"
  by (simp add: int_result_def)

lemma int_result_large [simp, c_simps]: "2 ^ 31 \<le> n \<Longrightarrow> int_result n = Inl Int_overflow"
  by (simp add: int_result_def)

lemma sint_of_nat_small: "n < 2 ^ 31 \<Longrightarrow> sint (word_of_nat n :: 32 word) = int n"
  by (simp add: signed_of_nat take_bit_eq_mod signed_take_bit_int_eq_self)


section \<open>C strings and pointers\<close>

text \<open>
  A \<open>char *\<close> holds a null pointer, whatever was in memory that was never written, or points
  to a terminated string. A buffer in memory is the list of all its bytes; \<open>c_string\<close> reads
  the string at its start, up to the first terminator, and faults when there is none.
\<close>

datatype c_ptr =
    Null
  | Wild
  | Str string

abbreviation nul :: char where
  "nul \<equiv> CHR 0x00"

definition c_string :: "char list \<Rightarrow> fault + string" where
  "c_string buf =
     (if nul \<in> set buf then Inr (takeWhile (\<lambda>c. c \<noteq> nul) buf) else Inl Unterminated)"

definition is_c_string :: "string \<Rightarrow> bool" where
  "is_c_string s \<longleftrightarrow> nul \<notin> set s"

lemma c_string_terminated [simp, c_simps]:
  "is_c_string s \<Longrightarrow> c_string (s @ nul # rest) = Inr s"
  by (auto simp: c_string_def is_c_string_def takeWhile_tail intro!: takeWhile_eq_all_conv [THEN iffD2])

lemma c_string_is_c_string: "c_string buf = Inr s \<Longrightarrow> is_c_string s"
  by (auto simp: c_string_def is_c_string_def dest: set_takeWhileD split: if_splits)

lemma is_c_string_append [simp]: "is_c_string (s @ t) \<longleftrightarrow> is_c_string s \<and> is_c_string t"
  by (auto simp: is_c_string_def)

lemma is_c_string_Nil [simp]: "is_c_string []"
  by (simp add: is_c_string_def)

lemma is_c_string_Cons [simp]: "is_c_string (c # s) \<longleftrightarrow> c \<noteq> nul \<and> is_c_string s"
  by (auto simp: is_c_string_def)

lemma is_c_string_take: "is_c_string s \<Longrightarrow> is_c_string (take n s)"
  by (auto simp: is_c_string_def dest: in_set_takeD)

text \<open>Reading through a pointer that does not point to a string is a fault.\<close>

fun deref :: "c_ptr \<Rightarrow> fault + string" where
  "deref (Str s) = Inr s"
| "deref Null = Inl Bad_pointer"
| "deref Wild = Inl Bad_pointer"

text \<open>The truth value of a pointer, as in \<open>if (p)\<close>; an unwritten one has none.\<close>

fun is_set :: "c_ptr \<Rightarrow> fault + bool" where
  "is_set (Str s) = Inr True"
| "is_set Null = Inr False"
| "is_set Wild = Inl Bad_pointer"


section \<open>Text forms\<close>

text \<open>
  A text form of some values: writing one, reading it again, which may fault, and the values that
  come back.
\<close>

locale codec =
  fixes enc :: "'a \<Rightarrow> string"
    and dec :: "string \<Rightarrow> fault + 'a"
    and printable :: "'a \<Rightarrow> bool"
  assumes dec_enc: "printable x \<Longrightarrow> dec (enc x) = Inr x"
begin

lemma enc_eq_iff: "printable x \<Longrightarrow> printable y \<Longrightarrow> enc x = enc y \<longleftrightarrow> x = y"
  by (metis dec_enc sum.inject(2))

lemma enc_inj: "inj_on enc {x. printable x}"
  by (rule inj_onI) (simp add: enc_eq_iff)

lemma dec_image: "printable x \<Longrightarrow> s = enc x \<Longrightarrow> dec s = Inr y \<longleftrightarrow> y = x"
  by (auto simp: dec_enc)

end


section \<open>Logarithms\<close>

text \<open>
  \<open>(int) log2(n)\<close>. The values stay far below \<open>2 ^ 53\<close>, where \<open>log2\<close> on doubles is exact on powers
  of two and does not round up to an integer elsewhere; at 0 it is minus infinity.
\<close>

fun floor_log2 :: "nat \<Rightarrow> nat" where
  "floor_log2 n = (if n \<le> 1 then 0 else Suc (floor_log2 (n div 2)))"

declare floor_log2.simps [simp del]

definition c_log2 :: "nat \<Rightarrow> fault + nat" where
  "c_log2 n = (if n = 0 then Inl Bad_conversion else Inr (floor_log2 n))"

lemma floor_log2_bounds: "0 < n \<Longrightarrow> 2 ^ floor_log2 n \<le> n \<and> n < 2 * 2 ^ floor_log2 n"
proof (induction n rule: floor_log2.induct)
  case (1 n)
  show ?case
  proof (cases "n \<le> 1")
    case True
    with 1(2) show ?thesis by (simp add: floor_log2.simps [of n])
  next
    case False
    then have "2 ^ floor_log2 (n div 2) \<le> n div 2 \<and> n div 2 < 2 * 2 ^ floor_log2 (n div 2)"
      using 1 by simp
    moreover have "floor_log2 n = Suc (floor_log2 (n div 2))" using False by (simp add: floor_log2.simps [of n])
    ultimately show ?thesis by (auto simp: less_mult_imp_div_less)
  qed
qed

lemma floor_log2_unique:
  assumes "2 ^ k \<le> n" and "n < 2 * 2 ^ k"
  shows "floor_log2 n = k"
proof -
  have "0 < n" using assms(1) by (metis gr0I le_zero_eq power_not_zero zero_neq_numeral)
  note b = floor_log2_bounds [OF this]
  have "(2::nat) ^ k < 2 ^ Suc (floor_log2 n)" and "(2::nat) ^ floor_log2 n < 2 ^ Suc k"
    using assms b by (simp_all only: power_Suc) linarith+
  then show ?thesis by (simp only: power_strict_increasing_iff one_less_numeral_iff semiring_norm)
qed

lemma floor_log2_pow2 [simp]: "floor_log2 (2 ^ k) = k"
  by (rule floor_log2_unique) auto

lemma c_log2_pow2 [simp]: "c_log2 (2 ^ k) = Inr k"
  by (simp add: c_log2_def)


section \<open>Powers of two\<close>

lemma pow2_Suc_diff [tree_arith]: "0 < h \<Longrightarrow> (2::nat) ^ h = 2 * 2 ^ (h - 1)"
  by (cases h) auto

lemma pow2_half [tree_arith]: "0 < h \<Longrightarrow> (2::nat) ^ h div 2 = 2 ^ (h - 1)"
  by (cases h) auto

end
