(* ===== verification/Keccak.thy ===== *)
theory Keccak
  imports Prelude
begin

text \<open>
  The permutation \<open>keccakf\<close> of \<^verbatim>\<open>merkle_tree/sha3.c\<close>, loop by loop over the array
  of 25 lanes, and its equivalence with the step mappings of the Keccak specification, which
  are stated over the 5 by 5 matrix of lanes.
\<close>

unbundle bit_operations_syntax

type_synonym u64 = "64 word"


section \<open>The code\<close>

definition rotl64 :: "u64 \<Rightarrow> nat \<Rightarrow> u64" where
  "rotl64 x y = push_bit y x OR drop_bit (8 * 8 - y) x"

definition keccakf_rndc :: "u64 list" where
  "keccakf_rndc =
    [0x0000000000000001, 0x0000000000008082,
     0x800000000000808a, 0x8000000080008000,
     0x000000000000808b, 0x0000000080000001,
     0x8000000080008081, 0x8000000000008009,
     0x000000000000008a, 0x0000000000000088,
     0x0000000080008009, 0x000000008000000a,
     0x000000008000808b, 0x800000000000008b,
     0x8000000000008089, 0x8000000000008003,
     0x8000000000008002, 0x8000000000000080,
     0x000000000000800a, 0x800000008000000a,
     0x8000000080008081, 0x8000000000008080,
     0x0000000080000001, 0x8000000080008008]"

definition keccakf_rotc :: "nat list" where
  "keccakf_rotc =
    [1, 3, 6, 10, 15, 21, 28, 36, 45, 55, 2, 14, 27, 41, 56, 8, 25, 43, 62,
     18, 39, 61, 20, 44]"

definition keccakf_piln :: "nat list" where
  "keccakf_piln =
    [10, 7, 11, 17, 18, 3, 5, 16, 8, 21, 24, 4, 15, 23, 19, 13, 12, 2, 20,
     14, 22, 9, 6, 1]"

definition keccakf_theta :: "u64 list \<Rightarrow> u64 list" where
  "keccakf_theta s =
     (let bc = map (\<lambda>i. s ! i XOR s ! (i + 5) XOR s ! (i + 10) XOR s ! (i + 15) XOR s ! (i + 20)) [0..<5]
      in fold (\<lambda>i s.
           let t = bc ! ((i + 4) mod 5) XOR rotl64 (bc ! ((i + 1) mod 5)) 1
           in fold (\<lambda>j s. s[j + i := s ! (j + i) XOR t]) [0, 5, 10, 15, 20] s) [0..<5] s)"

definition keccakf_rho_pi :: "u64 list \<Rightarrow> u64 list" where
  "keccakf_rho_pi s =
     fst (fold (\<lambda>i (s, t).
       let j = keccakf_piln ! i;
           bc0 = s ! j
       in (s[j := rotl64 t (keccakf_rotc ! i)], bc0)) [0..<24] (s, s ! 1))"

definition keccakf_chi :: "u64 list \<Rightarrow> u64 list" where
  "keccakf_chi s =
     fold (\<lambda>j s.
       let bc = map (\<lambda>i. s ! (j + i)) [0..<5]
       in fold (\<lambda>i s.
            s[j + i := s ! (j + i) XOR (NOT (bc ! ((i + 1) mod 5)) AND bc ! ((i + 2) mod 5))])
          [0..<5] s) [0, 5, 10, 15, 20] s"

definition keccakf_iota :: "nat \<Rightarrow> u64 list \<Rightarrow> u64 list" where
  "keccakf_iota r s = s[0 := s ! 0 XOR keccakf_rndc ! r]"

definition keccakf_round :: "nat \<Rightarrow> u64 list \<Rightarrow> u64 list" where
  "keccakf_round r s = keccakf_iota r (keccakf_chi (keccakf_rho_pi (keccakf_theta s)))"

definition keccakf :: "u64 list \<Rightarrow> u64 list" where
  "keccakf s = fold keccakf_round [0..<24] s"


section \<open>The loops on an explicit state\<close>

lemma upt_5: "[0..<5] = [0, 1, 2, 3, 4::nat]"
  by (simp add: upt_rec)

lemma upt_24: "[0..<24] = [0, 1, 2, 3, 4, 5, 6, 7, 8, 9, 10, 11, 12, 13, 14, 15, 16, 17, 18, 19, 20, 21, 22, 23::nat]"
  by (simp add: upt_rec)

lemma upt_25: "[0..<25] = [0, 1, 2, 3, 4, 5, 6, 7, 8, 9, 10, 11, 12, 13, 14, 15, 16, 17, 18, 19, 20, 21, 22, 23, 24::nat]"
  by (simp add: upt_rec)

lemma state_25 [consumes 1, case_names state]:
  assumes "length s = 25"
    and "\<And>s0 s1 s2 s3 s4 s5 s6 s7 s8 s9 s10 s11 s12 s13 s14 s15 s16 s17 s18 s19 s20 s21 s22 s23 s24.
      P [s0, s1, s2, s3, s4, s5, s6, s7, s8, s9, s10, s11, s12, s13, s14, s15, s16, s17, s18, s19, s20, s21, s22, s23, s24]"
  shows "P s"
proof -
  have "s = map ((!) s) [0..<25]"
    by (metis assms(1) map_nth)
  then have s: "s = [s ! 0, s ! 1, s ! 2, s ! 3, s ! 4, s ! 5, s ! 6, s ! 7, s ! 8, s ! 9, s ! 10, s ! 11, s ! 12, s ! 13, s ! 14, s ! 15, s ! 16, s ! 17, s ! 18, s ! 19, s ! 20, s ! 21, s ! 22, s ! 23, s ! 24]"
    unfolding upt_25 by simp
  show ?thesis by (subst s) (rule assms(2))
qed

lemma theta_explicit:
  "keccakf_theta [s0, s1, s2, s3, s4, s5, s6, s7, s8, s9, s10, s11, s12, s13, s14, s15, s16, s17, s18, s19, s20, s21, s22, s23, s24] =
   (let c0 = s0 XOR s5 XOR s10 XOR s15 XOR s20;
        c1 = s1 XOR s6 XOR s11 XOR s16 XOR s21;
        c2 = s2 XOR s7 XOR s12 XOR s17 XOR s22;
        c3 = s3 XOR s8 XOR s13 XOR s18 XOR s23;
        c4 = s4 XOR s9 XOR s14 XOR s19 XOR s24;
        t0 = c4 XOR rotl64 c1 1; t1 = c0 XOR rotl64 c2 1; t2 = c1 XOR rotl64 c3 1;
        t3 = c2 XOR rotl64 c4 1; t4 = c3 XOR rotl64 c0 1
    in [s0 XOR t0, s1 XOR t1, s2 XOR t2, s3 XOR t3, s4 XOR t4,
        s5 XOR t0, s6 XOR t1, s7 XOR t2, s8 XOR t3, s9 XOR t4,
        s10 XOR t0, s11 XOR t1, s12 XOR t2, s13 XOR t3, s14 XOR t4,
        s15 XOR t0, s16 XOR t1, s17 XOR t2, s18 XOR t3, s19 XOR t4,
        s20 XOR t0, s21 XOR t1, s22 XOR t2, s23 XOR t3, s24 XOR t4])"
  unfolding keccakf_theta_def upt_5 Let_def by simp

lemma rho_pi_explicit:
  "keccakf_rho_pi [s0, s1, s2, s3, s4, s5, s6, s7, s8, s9, s10, s11, s12, s13, s14, s15, s16, s17, s18, s19, s20, s21, s22, s23, s24] =
   [s0, rotl64 s6 44, rotl64 s12 43, rotl64 s18 21, rotl64 s24 14,
    rotl64 s3 28, rotl64 s9 20, rotl64 s10 3, rotl64 s16 45, rotl64 s22 61,
    rotl64 s1 1, rotl64 s7 6, rotl64 s13 25, rotl64 s19 8, rotl64 s20 18,
    rotl64 s4 27, rotl64 s5 36, rotl64 s11 10, rotl64 s17 15, rotl64 s23 56,
    rotl64 s2 62, rotl64 s8 55, rotl64 s14 39, rotl64 s15 41, rotl64 s21 2]"
  unfolding keccakf_rho_pi_def keccakf_piln_def keccakf_rotc_def upt_24 Let_def by simp

lemma chi_explicit:
  "keccakf_chi [s0, s1, s2, s3, s4, s5, s6, s7, s8, s9, s10, s11, s12, s13, s14, s15, s16, s17, s18, s19, s20, s21, s22, s23, s24] =
   [s0 XOR (NOT s1 AND s2), s1 XOR (NOT s2 AND s3), s2 XOR (NOT s3 AND s4), s3 XOR (NOT s4 AND s0), s4 XOR (NOT s0 AND s1),
    s5 XOR (NOT s6 AND s7), s6 XOR (NOT s7 AND s8), s7 XOR (NOT s8 AND s9), s8 XOR (NOT s9 AND s5), s9 XOR (NOT s5 AND s6),
    s10 XOR (NOT s11 AND s12), s11 XOR (NOT s12 AND s13), s12 XOR (NOT s13 AND s14), s13 XOR (NOT s14 AND s10), s14 XOR (NOT s10 AND s11),
    s15 XOR (NOT s16 AND s17), s16 XOR (NOT s17 AND s18), s17 XOR (NOT s18 AND s19), s18 XOR (NOT s19 AND s15), s19 XOR (NOT s15 AND s16),
    s20 XOR (NOT s21 AND s22), s21 XOR (NOT s22 AND s23), s22 XOR (NOT s23 AND s24), s23 XOR (NOT s24 AND s20), s24 XOR (NOT s20 AND s21)]"
  unfolding keccakf_chi_def upt_5 Let_def by simp


section \<open>The step mappings of the specification\<close>

text \<open>
  The specification's state is a matrix of lanes; lane \<open>(x, y)\<close> is entry \<open>x + 5 * y\<close> of the
  array.
\<close>

type_synonym matrix = "nat \<Rightarrow> nat \<Rightarrow> u64"

definition lane :: "u64 list \<Rightarrow> matrix" where
  "lane s x y = s ! (x + 5 * y)"

definition theta_spec :: "matrix \<Rightarrow> matrix" where
  "theta_spec A x y =
     (let C = (\<lambda>x. A x 0 XOR A x 1 XOR A x 2 XOR A x 3 XOR A x 4)
      in A x y XOR (C ((x + 4) mod 5) XOR word_rotl 1 (C ((x + 1) mod 5))))"

fun rho_walk :: "nat \<Rightarrow> nat \<times> nat" where
  "rho_walk 0 = (1, 0)"
| "rho_walk (Suc t) = (let (x, y) = rho_walk t in (y, (2 * x + 3 * y) mod 5))"

definition rho_offset :: "nat \<Rightarrow> nat \<Rightarrow> nat" where
  "rho_offset x y =
     (case List.find (\<lambda>t. rho_walk t = (x, y)) [0..<24] of
        None \<Rightarrow> 0 | Some t \<Rightarrow> ((t + 1) * (t + 2) div 2) mod 64)"

definition rho_spec :: "matrix \<Rightarrow> matrix" where
  "rho_spec A x y = word_rotl (rho_offset x y) (A x y)"

definition pi_spec :: "matrix \<Rightarrow> matrix" where
  "pi_spec A x y = A ((x + 3 * y) mod 5) x"

definition chi_spec :: "matrix \<Rightarrow> matrix" where
  "chi_spec A x y = A x y XOR (NOT (A ((x + 1) mod 5) y) AND A ((x + 2) mod 5) y)"

text \<open>The round constants come from a linear feedback shift register over bits.\<close>

fun lfsr_step :: "bool list \<Rightarrow> bool list" where
  "lfsr_step [r0, r1, r2, r3, r4, r5, r6, r7] =
     [r7, r0, r1, r2, r3 \<noteq> r7, r4 \<noteq> r7, r5 \<noteq> r7, r6]"
| "lfsr_step r = r"

definition rc_bit :: "nat \<Rightarrow> bool" where
  "rc_bit t = hd ((lfsr_step ^^ (t mod 255)) [True, False, False, False, False, False, False, False])"

definition round_constant :: "nat \<Rightarrow> u64" where
  "round_constant r =
     (\<Sum>j\<leftarrow>[0..<7]. if rc_bit (j + 7 * r) then 2 ^ (2 ^ j - 1) else 0)"

definition iota_spec :: "nat \<Rightarrow> matrix \<Rightarrow> matrix" where
  "iota_spec r A x y = (if x = 0 \<and> y = 0 then A 0 0 XOR round_constant r else A x y)"

definition round_spec :: "nat \<Rightarrow> matrix \<Rightarrow> matrix" where
  "round_spec r A = iota_spec r (chi_spec (pi_spec (rho_spec (theta_spec A))))"

definition keccak_f_spec :: "matrix \<Rightarrow> matrix" where
  "keccak_f_spec A = fold round_spec [0..<24] A"

lemma rotl64_word_rotl:
  assumes "0 < y" and "y < 64"
  shows "rotl64 x y = word_rotl y x"
proof (rule bit_word_eqI)
  fix n assume "n < LENGTH(64)"
  then have n: "n < 64" by simp
  show "bit (rotl64 x y) n = bit (word_rotl y x) n"
  proof (cases "n < y")
    case True
    then have "(n + (64 - y)) mod 64 = n + (64 - y)" using assms by simp
    with True n assms show ?thesis
      by (simp add: rotl64_def bit_simps add.commute [of 64 n])
  next
    case False
    then have "n + (64 - y) = (n - y) + 64" using assms by simp
    then have "(n + (64 - y)) mod 64 = n - y" using n
      by (metis less_imp_diff_less mod_add_self2 mod_less)
    moreover have "\<not> bit x (64 + n - y)" "\<not> bit x (n + 64 - y)"
      using False by (auto dest!: bit_imp_le_length)
    ultimately show ?thesis using False n assms
      by (simp add: rotl64_def bit_simps)
  qed
qed

lemma word_rotl_zero: "word_rotl 0 x = (x :: u64)"
  by (rule bit_word_eqI) (simp add: bit_simps)

lemma rc_table: "map round_constant [0..<24] = keccakf_rndc"
  by code_simp

lemma rho_offset_table:
  "rho_offset 0 0 = 0"
  "rho_offset 1 0 = 1"
  "rho_offset 2 0 = 62"
  "rho_offset 3 0 = 28"
  "rho_offset 4 0 = 27"
  "rho_offset 0 1 = 36"
  "rho_offset 1 1 = 44"
  "rho_offset 2 1 = 6"
  "rho_offset 3 1 = 55"
  "rho_offset 4 1 = 20"
  "rho_offset 0 2 = 3"
  "rho_offset 1 2 = 10"
  "rho_offset 2 2 = 43"
  "rho_offset 3 2 = 25"
  "rho_offset 4 2 = 39"
  "rho_offset 0 3 = 41"
  "rho_offset 1 3 = 45"
  "rho_offset 2 3 = 15"
  "rho_offset 3 3 = 21"
  "rho_offset 4 3 = 8"
  "rho_offset 0 4 = 18"
  "rho_offset 1 4 = 2"
  "rho_offset 2 4 = 61"
  "rho_offset 3 4 = 56"
  "rho_offset 4 4 = 14"
  by code_simp+

lemma less_5_cases: "(x::nat) < 5 \<Longrightarrow> x = 0 \<or> x = 1 \<or> x = 2 \<or> x = 3 \<or> x = 4"
  by arith

lemma theta_refines:
  assumes "length s = 25" and "x < 5" and "y < 5"
  shows "lane (keccakf_theta s) x y = theta_spec (lane s) x y"
  using assms(1) less_5_cases [OF assms(2)] less_5_cases [OF assms(3)]
  by (induct s rule: state_25)
     (elim disjE; simp add: theta_explicit lane_def theta_spec_def Let_def rotl64_word_rotl)

lemma rho_pi_refines:
  assumes "length s = 25" and "x < 5" and "y < 5"
  shows "lane (keccakf_rho_pi s) x y = pi_spec (rho_spec (lane s)) x y"
  using assms(1) less_5_cases [OF assms(2)] less_5_cases [OF assms(3)]
  by (induct s rule: state_25)
     (elim disjE; simp add: rho_pi_explicit lane_def pi_spec_def rho_spec_def rotl64_word_rotl
        rho_offset_table [unfolded One_nat_def] word_rotl_zero)

lemma chi_refines:
  assumes "length s = 25" and "x < 5" and "y < 5"
  shows "lane (keccakf_chi s) x y = chi_spec (lane s) x y"
  using assms(1) less_5_cases [OF assms(2)] less_5_cases [OF assms(3)]
  by (induct s rule: state_25) (elim disjE; simp add: chi_explicit lane_def chi_spec_def)

lemma round_constant_eq: "r < 24 \<Longrightarrow> round_constant r = keccakf_rndc ! r"
  using arg_cong [OF rc_table, of "\<lambda>cs. cs ! r"] by simp

lemma iota_refines:
  assumes "length s = 25" and "r < 24"
  shows "lane (keccakf_iota r s) x y = iota_spec r (lane s) x y"
  using assms by (auto simp: lane_def keccakf_iota_def iota_spec_def round_constant_eq nth_list_update)

lemma length_fold:
  "(\<And>x s. length (f x s) = length s) \<Longrightarrow> length (fold f xs s) = length s"
  by (induction xs arbitrary: s) simp_all

lemma length_theta [simp]: "length (keccakf_theta s) = length s"
  by (simp add: keccakf_theta_def Let_def length_fold del: upt.simps)

lemma length_rho_pi [simp]: "length (keccakf_rho_pi s) = length s"
proof -
  have "length (fst (fold (\<lambda>i (s, t).
      let j = keccakf_piln ! i; bc0 = s ! j in (s[j := rotl64 t (keccakf_rotc ! i)], bc0)) xs (s, t))) = length s"
    for xs s t
    by (induction xs arbitrary: s t) (simp_all add: Let_def)
  then show ?thesis by (simp add: keccakf_rho_pi_def)
qed

lemma length_chi [simp]: "length (keccakf_chi s) = length s"
  by (simp add: keccakf_chi_def Let_def length_fold del: upt.simps)

lemma length_round [simp]: "length (keccakf_round r s) = length s"
  by (simp add: keccakf_round_def keccakf_iota_def)

lemma length_keccakf [simp]: "length (keccakf s) = length s"
  by (simp add: keccakf_def length_fold del: upt.simps)

text \<open>
  A step mapping only looks at lanes inside the matrix, so mappings that agree there
  stay in agreement.
\<close>

definition agree :: "matrix \<Rightarrow> matrix \<Rightarrow> bool" where
  "agree A B \<longleftrightarrow> (\<forall>x<5. \<forall>y<5. A x y = B x y)"

lemma agree_round:
  assumes "agree A B"
  shows "agree (round_spec r A) (round_spec r B)"
proof -
  have "agree (theta_spec A) (theta_spec B)"
    using assms by (simp add: agree_def theta_spec_def Let_def)
  then have "agree (pi_spec (rho_spec (theta_spec A))) (pi_spec (rho_spec (theta_spec B)))"
    by (simp add: agree_def pi_spec_def rho_spec_def)
  then have "agree (chi_spec (pi_spec (rho_spec (theta_spec A)))) (chi_spec (pi_spec (rho_spec (theta_spec B))))"
    by (simp add: agree_def chi_spec_def)
  then show ?thesis
    by (simp add: agree_def round_spec_def iota_spec_def)
qed

lemma agree_trans: "agree A B \<Longrightarrow> agree B C \<Longrightarrow> agree A C"
  by (simp add: agree_def)

lemma round_refines:
  assumes "length s = 25" and "r < 24"
  shows "agree (lane (keccakf_round r s)) (round_spec r (lane s))"
proof -
  let ?s1 = "keccakf_rho_pi (keccakf_theta s)"
  have "agree (lane (keccakf_theta s)) (theta_spec (lane s))"
    using assms by (simp add: agree_def theta_refines)
  then have "agree (lane ?s1) (pi_spec (rho_spec (theta_spec (lane s))))"
    using assms by (simp add: agree_def rho_pi_refines pi_spec_def rho_spec_def)
  then have "agree (lane (keccakf_chi ?s1)) (chi_spec (pi_spec (rho_spec (theta_spec (lane s)))))"
    using assms by (simp add: agree_def chi_refines chi_spec_def)
  then show ?thesis
    using assms by (simp add: agree_def keccakf_round_def round_spec_def iota_refines iota_spec_def)
qed

lemma rounds_refine:
  assumes "length s = 25" and "\<forall>r\<in>set rs. r < 24" and "agree (lane s) A"
  shows "agree (lane (fold keccakf_round rs s)) (fold round_spec rs A)"
  using assms
proof (induction rs arbitrary: s A)
  case Nil
  then show ?case by simp
next
  case (Cons r rs)
  then have "agree (lane (keccakf_round r s)) (round_spec r A)"
    by (auto intro: agree_trans [OF round_refines agree_round])
  with Cons show ?case by simp
qed

text \<open>
  C21: on any state of 25 words \<open>keccakf\<close> is the permutation of the standard: lane by lane, the 24
  rounds of theta, rho, pi, chi and iota with the offsets and round constants the standard
  defines by a walk and a shift register, not by tables.
\<close>

theorem keccakf_is_keccak_f:
  assumes "length s = 25" and "x < 5" and "y < 5"
  shows "lane (keccakf s) x y = keccak_f_spec (lane s) x y"
proof -
  have "agree (lane (keccakf s)) (keccak_f_spec (lane s))"
    unfolding keccakf_def keccak_f_spec_def
    using assms by (intro rounds_refine) (auto simp: agree_def)
  with assms show ?thesis by (simp add: agree_def)
qed

theorem keccakf_is_keccak_f_witness:
  "lane (keccakf (replicate 25 1)) 4 2 = keccak_f_spec (lane (replicate 25 1)) 4 2"
  by (rule keccakf_is_keccak_f) simp_all

end
