(* ===== verification/Keccak_Eval.thy ===== *)
theory Keccak_Eval
  imports Keccak
begin

text \<open>
  Evaluation of the permutation inside the kernel. A lane is represented by the binary numeral
  of its value with a leading one in front (65 digits in all, and \<open>2 ^ 64\<close> is zero as a 64 bit
  word), so that the bitwise operations are structural recursions over the digits, one rewrite
  step for each. \<open>keccakf_words\<close> says that the representation computes \<open>keccakf\<close>; the test
  vectors of the hash function rest on it.
\<close>

unbundle bit_operations_syntax

fun digits :: "num \<Rightarrow> nat" where
  "digits num.One = 0"
| "digits (num.Bit0 n) = Suc (digits n)"
| "digits (num.Bit1 n) = Suc (digits n)"

fun xor_n :: "num \<Rightarrow> num \<Rightarrow> num" where
  "xor_n (num.Bit0 m) (num.Bit0 n) = num.Bit0 (xor_n m n)"
| "xor_n (num.Bit0 m) (num.Bit1 n) = num.Bit1 (xor_n m n)"
| "xor_n (num.Bit1 m) (num.Bit0 n) = num.Bit1 (xor_n m n)"
| "xor_n (num.Bit1 m) (num.Bit1 n) = num.Bit0 (xor_n m n)"
| "xor_n num.One n = num.One"
| "xor_n m num.One = num.One"

fun chi_n :: "num \<Rightarrow> num \<Rightarrow> num \<Rightarrow> num" where
  "chi_n (num.Bit0 a) (num.Bit0 b) (num.Bit0 c) = num.Bit0 (chi_n a b c)"
| "chi_n (num.Bit0 a) (num.Bit0 b) (num.Bit1 c) = num.Bit1 (chi_n a b c)"
| "chi_n (num.Bit0 a) (num.Bit1 b) (num.Bit0 c) = num.Bit0 (chi_n a b c)"
| "chi_n (num.Bit0 a) (num.Bit1 b) (num.Bit1 c) = num.Bit0 (chi_n a b c)"
| "chi_n (num.Bit1 a) (num.Bit0 b) (num.Bit0 c) = num.Bit1 (chi_n a b c)"
| "chi_n (num.Bit1 a) (num.Bit0 b) (num.Bit1 c) = num.Bit0 (chi_n a b c)"
| "chi_n (num.Bit1 a) (num.Bit1 b) (num.Bit0 c) = num.Bit1 (chi_n a b c)"
| "chi_n (num.Bit1 a) (num.Bit1 b) (num.Bit1 c) = num.Bit1 (chi_n a b c)"
| "chi_n a b c = num.One"

fun low_n :: "nat \<Rightarrow> num \<Rightarrow> num" where
  "low_n 0 x = num.One"
| "low_n (Suc k) (num.Bit0 x) = num.Bit0 (low_n k x)"
| "low_n (Suc k) (num.Bit1 x) = num.Bit1 (low_n k x)"
| "low_n (Suc k) num.One = num.One"

fun drop_n :: "nat \<Rightarrow> num \<Rightarrow> num" where
  "drop_n 0 x = x"
| "drop_n (Suc k) (num.Bit0 x) = drop_n k x"
| "drop_n (Suc k) (num.Bit1 x) = drop_n k x"
| "drop_n (Suc k) num.One = num.One"

fun app_n :: "num \<Rightarrow> num \<Rightarrow> num" where
  "app_n num.One y = y"
| "app_n (num.Bit0 x) y = num.Bit0 (app_n x y)"
| "app_n (num.Bit1 x) y = num.Bit1 (app_n x y)"

definition ror_n :: "nat \<Rightarrow> num \<Rightarrow> num" where
  "ror_n k x = app_n (drop_n k x) (low_n k x)"

definition chi_stage :: "num \<Rightarrow> num \<Rightarrow> num \<Rightarrow> num \<Rightarrow> num \<Rightarrow> num \<Rightarrow> num \<Rightarrow> num \<Rightarrow> num \<Rightarrow> num \<Rightarrow> num \<Rightarrow> num \<Rightarrow> num \<Rightarrow> num \<Rightarrow> num \<Rightarrow> num \<Rightarrow> num \<Rightarrow> num \<Rightarrow> num \<Rightarrow> num \<Rightarrow> num \<Rightarrow> num \<Rightarrow> num \<Rightarrow> num \<Rightarrow> num \<Rightarrow> num \<Rightarrow> num list" where
  "chi_stage k s0 s1 s2 s3 s4 s5 s6 s7 s8 s9 s10 s11 s12 s13 s14 s15 s16 s17 s18 s19 s20 s21 s22 s23 s24 =
    [xor_n (chi_n s0 s1 s2) k, chi_n s1 s2 s3, chi_n s2 s3 s4, chi_n s3 s4 s0, chi_n s4 s0 s1,
     chi_n s5 s6 s7, chi_n s6 s7 s8, chi_n s7 s8 s9, chi_n s8 s9 s5, chi_n s9 s5 s6,
     chi_n s10 s11 s12, chi_n s11 s12 s13, chi_n s12 s13 s14, chi_n s13 s14 s10, chi_n s14 s10 s11,
     chi_n s15 s16 s17, chi_n s16 s17 s18, chi_n s17 s18 s19, chi_n s18 s19 s15, chi_n s19 s15 s16,
     chi_n s20 s21 s22, chi_n s21 s22 s23, chi_n s22 s23 s24, chi_n s23 s24 s20, chi_n s24 s20 s21]"

definition rho_stage :: "num \<Rightarrow> num \<Rightarrow> num \<Rightarrow> num \<Rightarrow> num \<Rightarrow> num \<Rightarrow> num \<Rightarrow> num \<Rightarrow> num \<Rightarrow> num \<Rightarrow> num \<Rightarrow> num \<Rightarrow> num \<Rightarrow> num \<Rightarrow> num \<Rightarrow> num \<Rightarrow> num \<Rightarrow> num \<Rightarrow> num \<Rightarrow> num \<Rightarrow> num \<Rightarrow> num \<Rightarrow> num \<Rightarrow> num \<Rightarrow> num \<Rightarrow> num \<Rightarrow> num \<Rightarrow> num \<Rightarrow> num \<Rightarrow> num \<Rightarrow> num \<Rightarrow> num list" where
  "rho_stage k t0 t1 t2 t3 t4 s0 s1 s2 s3 s4 s5 s6 s7 s8 s9 s10 s11 s12 s13 s14 s15 s16 s17 s18 s19 s20 s21 s22 s23 s24 =
    chi_stage k
      (xor_n s0 t0) (ror_n 20 (xor_n s6 t1)) (ror_n 21 (xor_n s12 t2)) (ror_n 43 (xor_n s18 t3)) (ror_n 50 (xor_n s24 t4))
      (ror_n 36 (xor_n s3 t3)) (ror_n 44 (xor_n s9 t4)) (ror_n 61 (xor_n s10 t0)) (ror_n 19 (xor_n s16 t1)) (ror_n 3 (xor_n s22 t2))
      (ror_n 63 (xor_n s1 t1)) (ror_n 58 (xor_n s7 t2)) (ror_n 39 (xor_n s13 t3)) (ror_n 56 (xor_n s19 t4)) (ror_n 46 (xor_n s20 t0))
      (ror_n 37 (xor_n s4 t4)) (ror_n 28 (xor_n s5 t0)) (ror_n 54 (xor_n s11 t1)) (ror_n 49 (xor_n s17 t2)) (ror_n 8 (xor_n s23 t3))
      (ror_n 2 (xor_n s2 t2)) (ror_n 9 (xor_n s8 t3)) (ror_n 25 (xor_n s14 t4)) (ror_n 23 (xor_n s15 t0)) (ror_n 62 (xor_n s21 t1))"

definition theta_stage :: "num \<Rightarrow> num \<Rightarrow> num \<Rightarrow> num \<Rightarrow> num \<Rightarrow> num \<Rightarrow> num \<Rightarrow> num \<Rightarrow> num \<Rightarrow> num \<Rightarrow> num \<Rightarrow> num \<Rightarrow> num \<Rightarrow> num \<Rightarrow> num \<Rightarrow> num \<Rightarrow> num \<Rightarrow> num \<Rightarrow> num \<Rightarrow> num \<Rightarrow> num \<Rightarrow> num \<Rightarrow> num \<Rightarrow> num \<Rightarrow> num \<Rightarrow> num \<Rightarrow> num \<Rightarrow> num \<Rightarrow> num \<Rightarrow> num \<Rightarrow> num \<Rightarrow> num list" where
  "theta_stage k c0 c1 c2 c3 c4 s0 s1 s2 s3 s4 s5 s6 s7 s8 s9 s10 s11 s12 s13 s14 s15 s16 s17 s18 s19 s20 s21 s22 s23 s24 =
    rho_stage k (xor_n c4 (ror_n 63 c1)) (xor_n c0 (ror_n 63 c2)) (xor_n c1 (ror_n 63 c3))
      (xor_n c2 (ror_n 63 c4)) (xor_n c3 (ror_n 63 c0)) s0 s1 s2 s3 s4 s5 s6 s7 s8 s9 s10 s11 s12 s13 s14 s15 s16 s17 s18 s19 s20 s21 s22 s23 s24"

definition column_n :: "num \<Rightarrow> num \<Rightarrow> num \<Rightarrow> num \<Rightarrow> num \<Rightarrow> num" where
  "column_n a b c d e = xor_n (xor_n (xor_n (xor_n a b) c) d) e"

definition round_stage :: "num \<Rightarrow> num \<Rightarrow> num \<Rightarrow> num \<Rightarrow> num \<Rightarrow> num \<Rightarrow> num \<Rightarrow> num \<Rightarrow> num \<Rightarrow> num \<Rightarrow> num \<Rightarrow> num \<Rightarrow> num \<Rightarrow> num \<Rightarrow> num \<Rightarrow> num \<Rightarrow> num \<Rightarrow> num \<Rightarrow> num \<Rightarrow> num \<Rightarrow> num \<Rightarrow> num \<Rightarrow> num \<Rightarrow> num \<Rightarrow> num \<Rightarrow> num \<Rightarrow> num list" where
  "round_stage k s0 s1 s2 s3 s4 s5 s6 s7 s8 s9 s10 s11 s12 s13 s14 s15 s16 s17 s18 s19 s20 s21 s22 s23 s24 =
    theta_stage k
      (column_n s0 s5 s10 s15 s20) (column_n s1 s6 s11 s16 s21) (column_n s2 s7 s12 s17 s22)
      (column_n s3 s8 s13 s18 s23) (column_n s4 s9 s14 s19 s24) s0 s1 s2 s3 s4 s5 s6 s7 s8 s9 s10 s11 s12 s13 s14 s15 s16 s17 s18 s19 s20 s21 s22 s23 s24"

definition on_state :: "(num \<Rightarrow> num \<Rightarrow> num \<Rightarrow> num \<Rightarrow> num \<Rightarrow> num \<Rightarrow> num \<Rightarrow> num \<Rightarrow> num \<Rightarrow> num \<Rightarrow> num \<Rightarrow> num \<Rightarrow> num \<Rightarrow> num \<Rightarrow> num \<Rightarrow> num \<Rightarrow> num \<Rightarrow> num \<Rightarrow> num \<Rightarrow> num \<Rightarrow> num \<Rightarrow> num \<Rightarrow> num \<Rightarrow> num \<Rightarrow> num \<Rightarrow> num list) \<Rightarrow> num list \<Rightarrow> num list" where
  "on_state f s = f (s ! 0) (s ! 1) (s ! 2) (s ! 3) (s ! 4) (s ! 5) (s ! 6) (s ! 7) (s ! 8) (s ! 9) (s ! 10) (s ! 11) (s ! 12) (s ! 13) (s ! 14) (s ! 15) (s ! 16) (s ! 17) (s ! 18) (s ! 19) (s ! 20) (s ! 21) (s ! 22) (s ! 23) (s ! 24)"

fun rounds_n :: "num list \<Rightarrow> num list \<Rightarrow> num list" where
  "rounds_n [] s = s"
| "rounds_n (k # ks) s = rounds_n ks (on_state (round_stage k) s)"

lemma on_state_explicit: "on_state f [s0, s1, s2, s3, s4, s5, s6, s7, s8, s9, s10, s11, s12, s13, s14, s15, s16, s17, s18, s19, s20, s21, s22, s23, s24] = f s0 s1 s2 s3 s4 s5 s6 s7 s8 s9 s10 s11 s12 s13 s14 s15 s16 s17 s18 s19 s20 s21 s22 s23 s24"
  unfolding on_state_def by simp


section \<open>The representation is right\<close>

abbreviation lane64 :: "num \<Rightarrow> bool" where
  "lane64 n \<equiv> digits n = 64"

lemma digits_xor_n [simp]: "digits m = digits n \<Longrightarrow> digits (xor_n m n) = digits m"
  by (induction m n rule: xor_n.induct) simp_all

lemma bit_xor_n:
  "digits m = digits n \<Longrightarrow> i < digits m \<Longrightarrow>
   bit (numeral (xor_n m n) :: int) i \<longleftrightarrow> bit (numeral m :: int) i \<noteq> bit (numeral n :: int) i"
proof (induction m n arbitrary: i rule: xor_n.induct)
qed (case_tac i; simp)+

lemma digits_chi_n [simp]:
  "digits a = digits b \<Longrightarrow> digits b = digits c \<Longrightarrow> digits (chi_n a b c) = digits c"
  by (induction a b c rule: chi_n.induct) simp_all

lemma bit_chi_n:
  "digits a = digits b \<Longrightarrow> digits b = digits c \<Longrightarrow> i < digits c \<Longrightarrow>
   bit (numeral (chi_n a b c) :: int) i \<longleftrightarrow>
     bit (numeral a :: int) i \<noteq> (\<not> bit (numeral b :: int) i \<and> bit (numeral c :: int) i)"
proof (induction a b c arbitrary: i rule: chi_n.induct)
qed (case_tac i; simp)+

lemma digits_app_n [simp]: "digits (app_n x y) = digits x + digits y"
  by (induction x) simp_all

lemma digits_drop_n [simp]: "digits (drop_n k x) = digits x - k"
  by (induction k x rule: drop_n.induct) simp_all

lemma digits_low_n [simp]: "k \<le> digits x \<Longrightarrow> digits (low_n k x) = k"
  by (induction k x rule: low_n.induct) simp_all

lemma bit_app_n:
  "bit (numeral (app_n x y) :: int) i \<longleftrightarrow>
     (if i < digits x then bit (numeral x :: int) i else bit (numeral y :: int) (i - digits x))"
proof (induction x arbitrary: i)
qed (case_tac i; simp)+

lemma bit_drop_n:
  "k \<le> digits x \<Longrightarrow> bit (numeral (drop_n k x) :: int) i \<longleftrightarrow> bit (numeral x :: int) (i + k)"
  by (induction k x arbitrary: i rule: drop_n.induct) simp_all

lemma bit_low_n:
  "k \<le> digits x \<Longrightarrow> i < k \<Longrightarrow>
   bit (numeral (low_n k x) :: int) i \<longleftrightarrow> bit (numeral x :: int) i"
proof (induction k x arbitrary: i rule: low_n.induct)
qed (case_tac i; simp)+


definition w_of :: "num \<Rightarrow> u64" where
  "w_of n = numeral n"

lemma bit_w: "bit (w_of n) i \<longleftrightarrow> i < 64 \<and> bit (numeral n :: int) i"
  by (simp add: w_of_def bit_numeral_word_iff)

lemma xor_w: "lane64 m \<Longrightarrow> lane64 n \<Longrightarrow> w_of (xor_n m n) = w_of m XOR w_of n"
  by (rule bit_word_eqI) (simp add: bit_w bit_xor_n bit_xor_iff)

lemma chi_w:
  "lane64 a \<Longrightarrow> lane64 b \<Longrightarrow> lane64 c \<Longrightarrow>
   w_of (chi_n a b c) = w_of a XOR (NOT (w_of b) AND w_of c)"
  by (rule bit_word_eqI) (simp add: bit_w bit_chi_n bit_xor_iff bit_and_iff bit_not_iff)

lemma digits_ror_n [simp]: "lane64 x \<Longrightarrow> k \<le> 64 \<Longrightarrow> lane64 (ror_n k x)"
  by (simp add: ror_n_def)

lemma ror_w:
  assumes "lane64 x" and "0 < k" and "k < 64"
  shows "w_of (ror_n k x) = rotl64 (w_of x) (64 - k)"
proof (rule bit_word_eqI)
  fix i assume "i < LENGTH(64)"
  then have "i < 64" by simp
  then show "bit (w_of (ror_n k x)) i = bit (rotl64 (w_of x) (64 - k)) i"
    using assms
    by (auto simp: ror_n_def rotl64_def bit_w bit_app_n bit_drop_n bit_low_n bit_or_iff
        bit_push_bit_iff bit_drop_bit_eq not_less add.commute)
qed

lemma column_w:
  assumes "lane64 a" "lane64 b" "lane64 c" "lane64 d" "lane64 e"
  shows "w_of (column_n a b c d e) = w_of a XOR w_of b XOR w_of c XOR w_of d XOR w_of e"
    and "lane64 (column_n a b c d e)"
  using assms by (simp_all add: column_n_def xor_w xor.assoc)

lemma round_w:
  assumes "lane64 k" and "keccakf_rndc ! r = w_of k" and "\<forall>n\<in>set ns. lane64 n" and "length ns = 25"
  shows "map w_of (on_state (round_stage k) ns) = keccakf_round r (map w_of ns)
    \<and> (\<forall>n\<in>set (on_state (round_stage k) ns). lane64 n) \<and> length (on_state (round_stage k) ns) = 25"
  using assms(4,1-3)
proof (induct ns rule: state_25)
  case (state s0 s1 s2 s3 s4 s5 s6 s7 s8 s9 s10 s11 s12 s13 s14 s15 s16 s17 s18 s19 s20 s21 s22 s23 s24)
  then show ?case
    by (simp add: on_state_explicit round_stage_def theta_stage_def rho_stage_def chi_stage_def
        xor_w chi_w ror_w column_w keccakf_round_def theta_explicit rho_pi_explicit chi_explicit
        keccakf_iota_def Let_def)
qed

definition rc_nums :: "num list" where
  "rc_nums = map num_of_nat
    [0x10000000000000001, 0x10000000000008082, 0x1800000000000808a, 0x18000000080008000,
     0x1000000000000808b, 0x10000000080000001, 0x18000000080008081, 0x18000000000008009,
     0x1000000000000008a, 0x10000000000000088, 0x10000000080008009, 0x1000000008000000a,
     0x1000000008000808b, 0x1800000000000008b, 0x18000000000008089, 0x18000000000008003,
     0x18000000000008002, 0x18000000000000080, 0x1000000000000800a, 0x1800000008000000a,
     0x18000000080008081, 0x18000000000008080, 0x10000000080000001, 0x18000000080008008]"

lemma rc_nums_w: "map w_of rc_nums = keccakf_rndc"
  by (simp add: rc_nums_def keccakf_rndc_def w_of_def)

lemma rc_nums_lane: "\<forall>n\<in>set rc_nums. lane64 n"
  by (simp add: rc_nums_def)

lemma rounds_w:
  assumes "\<forall>r\<in>set rs. r < 24" and "\<forall>n\<in>set ns. lane64 n" and "length ns = 25"
  shows "map w_of (rounds_n (map ((!) rc_nums) rs) ns) = fold keccakf_round rs (map w_of ns)"
  using assms
proof (induction rs arbitrary: ns)
  case Nil
  then show ?case by simp
next
  case (Cons r rs)
  have len: "length rc_nums = 24" by (simp add: rc_nums_def)
  with Cons.prems have k: "lane64 (rc_nums ! r)" "keccakf_rndc ! r = w_of (rc_nums ! r)"
    using rc_nums_lane by (auto simp flip: rc_nums_w)
  note step = round_w [OF k Cons.prems(2,3)]
  then show ?case using Cons by simp
qed

theorem keccakf_words:
  assumes "\<forall>n\<in>set ns. lane64 n" and "length ns = 25"
  shows "keccakf (map w_of ns) = map w_of (rounds_n rc_nums ns)"
proof -
  have "length rc_nums = 24" by (simp add: rc_nums_def)
  then have "map ((!) rc_nums) [0..<24] = rc_nums"
    by (metis map_nth)
  then show ?thesis
    using rounds_w [of "[0..<24]" ns] assms by (simp add: keccakf_def)
qed

lemma low_drop_numeral:
  "low_n (numeral k) (num.Bit0 x) = num.Bit0 (low_n (pred_numeral k) x)"
  "low_n (numeral k) (num.Bit1 x) = num.Bit1 (low_n (pred_numeral k) x)"
  "drop_n (numeral k) (num.Bit0 x) = drop_n (pred_numeral k) x"
  "drop_n (numeral k) (num.Bit1 x) = drop_n (pred_numeral k) x"
  by (simp_all add: numeral_eq_Suc)

lemmas keccak_eval =
  on_state_explicit round_stage_def theta_stage_def rho_stage_def chi_stage_def column_n_def
  ror_n_def xor_n.simps chi_n.simps app_n.simps rounds_n.simps low_n.simps drop_n.simps
  low_drop_numeral pred_numeral_simps Num.BitM.simps rc_nums_def list.map num_of_nat_numeral_eq

end
