(* ===== verification/Sha3.thy ===== *)
theory Sha3
  imports Keccak_Eval
begin

text \<open>
  The hash context of \<^verbatim>\<open>merkle_tree/sha3.c\<close> and its init, update and finalize
  operations; the byte-wise sponge they implement; and the interface of an incremental hash,
  which the three output sizes of the code provide.
\<close>

unbundle bit_operations_syntax

type_synonym u8 = "8 word"


section \<open>The code\<close>

text \<open>
  \<open>sponge\<close> is the field \<open>s\<close> of the C structure. The union's other view, the bytes \<open>sb\<close>, is
  what \<open>sha3_Finalize\<close> writes and returns.
\<close>

record sha3_context =
  saved :: u64
  sponge :: "u64 list"
  byteIndex :: nat
  wordIndex :: nat
  capacityWords :: nat

definition SHA3_KECCAK_SPONGE_WORDS :: nat where
  "SHA3_KECCAK_SPONGE_WORDS = (1600 div 8) div 8"

definition sha3_zero :: sha3_context where
  "sha3_zero = \<lparr>saved = 0, sponge = replicate SHA3_KECCAK_SPONGE_WORDS 0,
     byteIndex = 0, wordIndex = 0, capacityWords = 0\<rparr>"

definition sha3_Init256 :: sha3_context where
  "sha3_Init256 = sha3_zero\<lparr>capacityWords := 2 * 256 div (8 * 8)\<rparr>"

definition sha3_Init384 :: sha3_context where
  "sha3_Init384 = sha3_zero\<lparr>capacityWords := 2 * 384 div (8 * 8)\<rparr>"

definition sha3_Init512 :: sha3_context where
  "sha3_Init512 = sha3_zero\<lparr>capacityWords := 2 * 512 div (8 * 8)\<rparr>"

text \<open>The loops that store single bytes in \<open>saved\<close>.\<close>

fun save_bytes :: "sha3_context \<Rightarrow> u8 list \<Rightarrow> sha3_context" where
  "save_bytes c [] = c"
| "save_bytes c (b # bs) =
     save_bytes (c\<lparr>saved := saved c OR push_bit (byteIndex c * 8) (ucast b),
                   byteIndex := byteIndex c + 1\<rparr>) bs"

text \<open>A completed word goes into the sponge; a completed block is permuted.\<close>

definition add_word :: "sha3_context \<Rightarrow> u64 \<Rightarrow> sha3_context" where
  "add_word c t =
     (let c1 = c\<lparr>sponge := (sponge c)[wordIndex c := sponge c ! wordIndex c XOR t],
                 wordIndex := wordIndex c + 1\<rparr>
      in if wordIndex c1 = SHA3_KECCAK_SPONGE_WORDS - capacityWords c1
         then c1\<lparr>sponge := keccakf (sponge c1), wordIndex := 0\<rparr>
         else c1)"

definition load_word :: "u8 list \<Rightarrow> u64" where
  "load_word buf =
     ucast (buf ! 0) OR
     push_bit (8 * 1) (ucast (buf ! 1)) OR
     push_bit (8 * 2) (ucast (buf ! 2)) OR
     push_bit (8 * 3) (ucast (buf ! 3)) OR
     push_bit (8 * 4) (ucast (buf ! 4)) OR
     push_bit (8 * 5) (ucast (buf ! 5)) OR
     push_bit (8 * 6) (ucast (buf ! 6)) OR
     push_bit (8 * 7) (ucast (buf ! 7))"

fun add_words :: "nat \<Rightarrow> u8 list \<Rightarrow> sha3_context \<Rightarrow> sha3_context" where
  "add_words 0 buf c = c"
| "add_words (Suc words) buf c = add_words words (drop 8 buf) (add_word c (load_word buf))"

text \<open>\<open>buf\<close> holds the \<open>len\<close> bytes at \<open>bufIn\<close>.\<close>

definition sha3_Update :: "sha3_context \<Rightarrow> u8 list \<Rightarrow> sha3_context" where
  "sha3_Update c buf =
     (let old_tail = (8 - byteIndex c) mod 8
      in if length buf < old_tail then save_bytes c buf
         else
           let (c1, buf1) =
                 (if old_tail \<noteq> 0
                  then let c' = save_bytes c (take old_tail buf)
                       in (add_word (c'\<lparr>byteIndex := 0, saved := 0\<rparr>) (saved c'), drop old_tail buf)
                  else (c, buf));
               words = length buf1 div 8
           in save_bytes (add_words words buf1 c1) (drop (words * 8) buf1))"

definition word_bytes :: "u64 \<Rightarrow> u8 list" where
  "word_bytes w =
     (let t1 = ucast w :: 32 word;
          t2 = ucast (drop_bit 16 (drop_bit 16 w)) :: 32 word
      in [ucast t1, ucast (drop_bit 8 t1), ucast (drop_bit 16 t1), ucast (drop_bit 24 t1),
          ucast t2, ucast (drop_bit 8 t2), ucast (drop_bit 16 t2), ucast (drop_bit 24 t2)])"

definition sha3_Finalize :: "sha3_context \<Rightarrow> sha3_context \<times> u8 list" where
  "sha3_Finalize c =
     (let s1 = (sponge c)[wordIndex c := sponge c ! wordIndex c XOR
                 (saved c XOR push_bit (byteIndex c * 8) (0x02 OR push_bit 2 1))];
          last = SHA3_KECCAK_SPONGE_WORDS - capacityWords c - 1;
          s2 = keccakf (s1[last := s1 ! last XOR 0x8000000000000000])
      in (c\<lparr>sponge := s2\<rparr>, concat (map word_bytes s2)))"


section \<open>The invariant of a context\<close>

definition wf_ctx :: "sha3_context \<Rightarrow> bool" where
  "wf_ctx c \<longleftrightarrow>
     length (sponge c) = SHA3_KECCAK_SPONGE_WORDS \<and>
     0 < capacityWords c \<and> wordIndex c + capacityWords c < SHA3_KECCAK_SPONGE_WORDS \<and>
     byteIndex c < 8 \<and> take_bit (byteIndex c * 8) (saved c) = saved c"

lemma wf_Init:
  "wf_ctx sha3_Init256" "wf_ctx sha3_Init384" "wf_ctx sha3_Init512"
  by (simp_all add: wf_ctx_def sha3_Init256_def sha3_Init384_def sha3_Init512_def sha3_zero_def
      SHA3_KECCAK_SPONGE_WORDS_def)

lemma sponge_add_word [simp]: "length (sponge (add_word c t)) = length (sponge c)"
  by (simp add: add_word_def Let_def)

lemma add_word_frame [simp]:
  "saved (add_word c t) = saved c" "byteIndex (add_word c t) = byteIndex c"
  "capacityWords (add_word c t) = capacityWords c"
  by (simp_all add: add_word_def Let_def)

lemma wf_add_word: "wf_ctx c \<Longrightarrow> wf_ctx (add_word c t)"
  by (auto simp: wf_ctx_def add_word_def Let_def)


section \<open>Byte by byte\<close>

definition absorb_byte :: "u8 \<Rightarrow> sha3_context \<Rightarrow> sha3_context" where
  "absorb_byte b c =
     (let w = saved c OR push_bit (byteIndex c * 8) (ucast b)
      in if byteIndex c = 7 then add_word (c\<lparr>byteIndex := 0, saved := 0\<rparr>) w
         else c\<lparr>saved := w, byteIndex := byteIndex c + 1\<rparr>)"

lemma wf_saved_0: "wf_ctx c \<Longrightarrow> byteIndex c = 0 \<Longrightarrow> saved c = 0"
  by (simp add: wf_ctx_def)

lemma bit_ucast_byte: "bit (ucast (b :: u8) :: u64) n \<longleftrightarrow> n < 8 \<and> bit b n"
  by (auto simp: bit_simps dest: bit_imp_le_length)

lemma take_bit_append:
  assumes "take_bit (i * 8) w = (w :: u64)"
  shows "take_bit ((i + 1) * 8) (w OR push_bit (i * 8) (ucast (b :: u8))) = w OR push_bit (i * 8) (ucast b)"
proof (rule bit_word_eqI)
  fix n assume n: "n < LENGTH(64)"
  have w: "bit w n \<Longrightarrow> n < i * 8" for n
    using arg_cong [OF assms, of "\<lambda>w. bit w n"] by (simp add: bit_take_bit_iff)
  show "bit (take_bit ((i + 1) * 8) (w OR push_bit (i * 8) (ucast b))) n =
    bit (w OR push_bit (i * 8) (ucast b)) n"
    using n by (auto simp: bit_take_bit_iff bit_or_iff bit_push_bit_iff bit_ucast_byte dest: w)
qed

lemma wf_absorb_byte:
  assumes "wf_ctx c"
  shows "wf_ctx (absorb_byte b c)"
proof (cases "byteIndex c = 7")
  case True
  have "wf_ctx (c\<lparr>byteIndex := 0, saved := 0\<rparr>)"
    using assms by (simp add: wf_ctx_def)
  with True show ?thesis
    by (simp add: absorb_byte_def Let_def wf_add_word)
next
  case False
  then show ?thesis
    using assms by (auto simp: absorb_byte_def Let_def wf_ctx_def take_bit_append [simplified])
qed

lemma wf_absorb: "wf_ctx c \<Longrightarrow> wf_ctx (fold absorb_byte bs c)"
  by (induction bs arbitrary: c) (simp_all add: wf_absorb_byte)

lemma save_bytes_absorb:
  "byteIndex c + length bs < 8 \<Longrightarrow> save_bytes c bs = fold absorb_byte bs c"
  by (induction c bs rule: save_bytes.induct) (simp_all add: absorb_byte_def Let_def)

lemma save_bytes_complete:
  "bs \<noteq> [] \<Longrightarrow> byteIndex c + length bs = 8 \<Longrightarrow>
   add_word ((save_bytes c bs)\<lparr>byteIndex := 0, saved := 0\<rparr>) (saved (save_bytes c bs)) =
   fold absorb_byte bs c"
proof (induction c bs rule: save_bytes.induct)
  case (2 c b bs)
  show ?case
  proof (cases "bs = []")
    case True
    with "2.prems" show ?thesis by (simp add: absorb_byte_def Let_def)
  next
    case False
    with "2.prems" have "byteIndex c \<noteq> 7" by (cases bs) auto
    with False 2 show ?thesis by (simp add: absorb_byte_def Let_def)
  qed
qed simp

lemma save_bytes_8:
  assumes "length bs = 8" and "byteIndex c = 0" and "saved c = 0"
  shows "saved (save_bytes c bs) = load_word bs"
    and "(save_bytes c bs)\<lparr>byteIndex := 0, saved := 0\<rparr> = c"
proof -
  obtain b0 b1 b2 b3 b4 b5 b6 b7 where "bs = [b0, b1, b2, b3, b4, b5, b6, b7]"
    using assms(1) by (auto simp: length_Suc_conv numeral_eq_Suc)
  then show "saved (save_bytes c bs) = load_word bs"
    and "(save_bytes c bs)\<lparr>byteIndex := 0, saved := 0\<rparr> = c"
    using assms by (simp_all add: load_word_def or.assoc)
qed

lemma add_word_load:
  assumes "length bs = 8" and "wf_ctx c" and "byteIndex c = 0"
  shows "add_word c (load_word bs) = fold absorb_byte bs c"
  using save_bytes_complete [of bs c] save_bytes_8 [of bs c] assms wf_saved_0 [of c]
  by (cases bs) auto

lemma byteIndex_absorb_8:
  assumes "length bs = 8" and "wf_ctx c" and "byteIndex c = 0"
  shows "byteIndex (fold absorb_byte bs c) = 0"
  using assms by (simp flip: add_word_load)

lemma load_word_take: "8 \<le> length buf \<Longrightarrow> load_word (take 8 buf) = load_word buf"
  by (simp add: load_word_def)

lemma add_words_absorb:
  assumes "8 * n \<le> length buf" and "wf_ctx c" and "byteIndex c = 0"
  shows "add_words n buf c = fold absorb_byte (take (n * 8) buf) c \<and>
    byteIndex (add_words n buf c) = 0"
  using assms
proof (induction n buf c rule: add_words.induct)
  case (2 n buf c)
  have step: "add_word c (load_word buf) = fold absorb_byte (take 8 buf) c"
    using add_word_load [of "take 8 buf" c] "2.prems" by (simp add: load_word_take)
  have split: "take (Suc n * 8) buf = take 8 buf @ take (n * 8) (drop 8 buf)"
    by (simp flip: take_add add: ac_simps)
  have "byteIndex (add_word c (load_word buf)) = 0" "wf_ctx (add_word c (load_word buf))"
    using "2.prems" by (simp_all add: wf_add_word)
  moreover have "8 * n \<le> length (drop 8 buf)"
    using "2.prems" by simp
  ultimately have "add_words n (drop 8 buf) (add_word c (load_word buf)) =
      fold absorb_byte (take (n * 8) (drop 8 buf)) (add_word c (load_word buf))"
    and "byteIndex (add_words n (drop 8 buf) (add_word c (load_word buf))) = 0"
    using "2.IH" by blast+
  then show ?case
    unfolding split by (simp only: add_words.simps fold_append o_apply step)
qed simp

lemma Update_aligned:
  assumes "wf_ctx c" and "byteIndex c = 0"
  shows "save_bytes (add_words (length buf div 8) buf c) (drop (length buf div 8 * 8) buf) =
    fold absorb_byte buf c"
proof -
  let ?n = "length buf div 8"
  have words: "add_words ?n buf c = fold absorb_byte (take (?n * 8) buf) c"
    "byteIndex (add_words ?n buf c) = 0"
    using add_words_absorb [OF _ assms, of ?n buf] by auto
  have "length buf - ?n * 8 < 8" by presburger
  then have "save_bytes (add_words ?n buf c) (drop (?n * 8) buf) =
    fold absorb_byte (drop (?n * 8) buf) (add_words ?n buf c)"
    using words(2) by (intro save_bytes_absorb) simp
  also have "\<dots> = fold absorb_byte (take (?n * 8) buf @ drop (?n * 8) buf) c"
    by (simp add: words del: append_take_drop_id)
  finally show ?thesis by simp
qed

theorem sha3_Update_bytewise:
  assumes "wf_ctx c"
  shows "sha3_Update c buf = fold absorb_byte buf c"
proof -
  define t where "t = (8 - byteIndex c) mod 8"
  consider (short) "length buf < t" | (aligned) "t = 0" | (fill) "0 < t" "t \<le> length buf" by linarith
  then show ?thesis
  proof cases
    case short
    then have "byteIndex c + length buf < 8"
      using assms by (auto simp: t_def wf_ctx_def mod_if split: if_splits)
    with short show ?thesis
      by (simp add: sha3_Update_def t_def [symmetric] save_bytes_absorb)
  next
    case aligned
    then have "(8 - byteIndex c) mod 8 = 0" and "byteIndex c < 8"
      using assms by (simp_all add: t_def wf_ctx_def)
    then have "byteIndex c = 0" by presburger
    with aligned assms show ?thesis
      by (simp add: sha3_Update_def t_def [symmetric] Update_aligned)
  next
    case fill
    let ?c' = "save_bytes c (take t buf)"
    let ?c1 = "add_word (?c'\<lparr>byteIndex := 0, saved := 0\<rparr>) (saved ?c')"
    have "byteIndex c + t = 8"
      using fill assms by (auto simp: t_def wf_ctx_def mod_if split: if_splits)
    with fill have c1: "?c1 = fold absorb_byte (take t buf) c"
      by (intro save_bytes_complete) auto
    have "sha3_Update c buf =
      save_bytes (add_words (length (drop t buf) div 8) (drop t buf) ?c1)
        (drop (length (drop t buf) div 8 * 8) (drop t buf))"
      using fill by (simp add: sha3_Update_def t_def [symmetric] Let_def)
    also have "\<dots> = fold absorb_byte (drop t buf) ?c1"
      using assms by (intro Update_aligned) (simp_all only: c1 wf_absorb, simp flip: c1)
    also have "\<dots> = fold absorb_byte (take t buf @ drop t buf) c"
      by (simp add: c1 del: append_take_drop_id)
    finally show ?thesis by simp
  qed
qed


section \<open>The sponge\<close>

text \<open>
  The specification: a state of lanes and the position of the next byte in a block of \<open>r\<close>
  bytes. A byte is added into the state at the position; a full block is permuted. The message
  is followed by the suffix and padding \<open>01 10*1\<close>, which is one byte when one is left in the block.
\<close>

definition xor_byte :: "u64 list \<Rightarrow> nat \<Rightarrow> u8 \<Rightarrow> u64 list" where
  "xor_byte S p b = S[p div 8 := S ! (p div 8) XOR push_bit (8 * (p mod 8)) (ucast b)]"

fun sponge_byte :: "nat \<Rightarrow> u8 \<Rightarrow> u64 list \<times> nat \<Rightarrow> u64 list \<times> nat" where
  "sponge_byte r b (S, p) =
     (if Suc p = r then (keccakf (xor_byte S p b), 0) else (xor_byte S p b, Suc p))"

definition sha3_pad :: "nat \<Rightarrow> nat \<Rightarrow> u8 list" where
  "sha3_pad r n =
     (let q = r - n mod r
      in if q = 1 then [0x86] else 0x06 # replicate (q - 2) 0 @ [0x80])"

definition sha3_spec :: "nat \<Rightarrow> u8 list \<Rightarrow> u64 list" where
  "sha3_spec r m =
     fst (fold (sponge_byte r) (m @ sha3_pad r (length m)) (replicate 25 0, 0))"

text \<open>The state of the specification that a context stands for.\<close>

definition sponge_of :: "sha3_context \<Rightarrow> u64 list \<times> nat" where
  "sponge_of c =
     ((sponge c)[wordIndex c := sponge c ! wordIndex c XOR saved c], 8 * wordIndex c + byteIndex c)"

definition rate_of :: "sha3_context \<Rightarrow> nat" where
  "rate_of c = 8 * (SHA3_KECCAK_SPONGE_WORDS - capacityWords c)"

lemma SPONGE_WORDS [simp]: "SHA3_KECCAK_SPONGE_WORDS = 25"
  by (simp add: SHA3_KECCAK_SPONGE_WORDS_def)

lemma or_byte_is_xor:
  assumes "take_bit (i * 8) w = (w :: u64)"
  shows "w OR push_bit (i * 8) (ucast (b :: u8)) = w XOR push_bit (i * 8) (ucast b)"
proof (rule bit_word_eqI)
  fix n assume "n < LENGTH(64)"
  have "bit w n \<Longrightarrow> n < i * 8"
    using arg_cong [OF assms, of "\<lambda>w. bit w n"] by (simp add: bit_take_bit_iff)
  then show "bit (w OR push_bit (i * 8) (ucast b)) n = bit (w XOR push_bit (i * 8) (ucast b)) n"
    by (auto simp: bit_or_iff bit_xor_iff bit_push_bit_iff)
qed

lemma capacity_absorb_byte [simp]: "capacityWords (absorb_byte b c) = capacityWords c"
  by (simp add: absorb_byte_def Let_def)

lemma rate_absorb [simp]: "rate_of (fold absorb_byte bs c) = rate_of c"
  by (induction bs arbitrary: c) (simp_all add: rate_of_def)

lemma xor_byte_at:
  "w < length s \<Longrightarrow> i < 8 \<Longrightarrow>
   xor_byte (s[w := a]) (8 * w + i) b = s[w := a XOR push_bit (8 * i) (ucast b)]"
  by (simp add: xor_byte_def)

lemma sponge_of_aligned: "saved c = 0 \<Longrightarrow> sponge_of c = (sponge c, 8 * wordIndex c + byteIndex c)"
  by (simp add: sponge_of_def)

lemma at_block_end:
  "i < 8 \<Longrightarrow> Suc (8 * w + i) = 8 * n \<longleftrightarrow> i = 7 \<and> Suc w = (n :: nat)"
  by presburger

lemma sponge_of_absorb_byte:
  assumes "wf_ctx c"
  shows "sponge_of (absorb_byte b c) = sponge_byte (rate_of c) b (sponge_of c)"
proof -
  let ?w = "wordIndex c" and ?i = "byteIndex c"
  let ?x = "push_bit (8 * ?i) (ucast b) :: u64"
  have i: "?i < 8" and w: "?w < length (sponge c)"
    using assms by (auto simp: wf_ctx_def)
  have or_xor: "saved c OR push_bit (?i * 8) (ucast b) = saved c XOR ?x"
    using assms or_byte_is_xor [of ?i "saved c" b] by (simp add: wf_ctx_def mult.commute)
  have S: "xor_byte ((sponge c)[?w := sponge c ! ?w XOR saved c]) (8 * ?w + ?i) b =
    (sponge c)[?w := sponge c ! ?w XOR (saved c XOR ?x)]"
    using i w by (simp add: xor_byte_at xor.assoc)
  have last: "Suc (8 * ?w + ?i) = rate_of c \<longleftrightarrow> ?i = 7 \<and> Suc ?w = 25 - capacityWords c"
    unfolding rate_of_def SPONGE_WORDS using i by (rule at_block_end)
  show ?thesis
  proof (cases "?i = 7")
    case True
    then have "absorb_byte b c = add_word (c\<lparr>byteIndex := 0, saved := 0\<rparr>) (saved c XOR ?x)"
      using or_xor by (simp add: absorb_byte_def Let_def)
    with True have "sponge_of (absorb_byte b c) =
      (let c' = add_word (c\<lparr>byteIndex := 0, saved := 0\<rparr>) (saved c XOR ?x) in (sponge c', 8 * wordIndex c'))"
      by (simp add: sponge_of_aligned Let_def)
    with True last show ?thesis
      by (simp add: sponge_of_def S [unfolded True] add_word_def Let_def)
  next
    case False
    then have "absorb_byte b c = c\<lparr>saved := saved c XOR ?x, byteIndex := ?i + 1\<rparr>"
      using or_xor by (simp add: absorb_byte_def Let_def)
    with False show ?thesis
      by (simp add: sponge_of_def S last)
  qed
qed

lemma sponge_of_absorb:
  "wf_ctx c \<Longrightarrow> sponge_of (fold absorb_byte bs c) = fold (sponge_byte (rate_of c)) bs (sponge_of c)"
proof (induction bs arbitrary: c)
  case (Cons b bs)
  then show ?case
    by (simp add: sponge_of_absorb_byte wf_absorb_byte rate_of_def)
qed simp

lemma Finalize_sponge:
  assumes "wf_ctx c" and "sponge_of c = (S, p)"
  shows "sponge (fst (sha3_Finalize c)) =
    keccakf (xor_byte (xor_byte S p 0x06) (rate_of c - 1) 0x80)"
proof -
  let ?w = "wordIndex c" and ?i = "byteIndex c" and ?l = "25 - capacityWords c - 1"
  have i: "?i < 8" "?w < length (sponge c)" and l: "0 < 25 - capacityWords c"
    using assms(1) by (auto simp: wf_ctx_def)
  have "xor_byte S p 0x06 = (sponge c)[?w := sponge c ! ?w XOR (saved c XOR push_bit (?i * 8) (0x02 OR push_bit 2 1))]"
    using assms(2) i by (auto simp: sponge_of_def xor_byte_at xor.assoc mult.commute [of ?i])
  moreover have "rate_of c - 1 = 8 * ?l + 7"
    unfolding rate_of_def SPONGE_WORDS using l by arith
  then have "xor_byte s (rate_of c - 1) 0x80 = s[?l := s ! ?l XOR 0x8000000000000000]" for s
    by (simp add: xor_byte_def)
  ultimately show ?thesis
    by (simp add: sha3_Finalize_def Let_def)
qed


lemma xor_byte_0 [simp]: "xor_byte S p 0 = S"
  by (simp add: xor_byte_def)

lemma fold_zeros:
  "p + k < r \<Longrightarrow> (sponge_byte r 0 ^^ k) (S, p) = (S, p + k)"
  by (induction k arbitrary: p) (auto simp: funpow_Suc_right simp del: funpow.simps(2))

lemma xor_byte_twice:
  "p div 8 < length S \<Longrightarrow> xor_byte (xor_byte S p a) p b = xor_byte S p (a XOR b)"
proof -
  have "push_bit n (ucast (a XOR b) :: u64) = push_bit n (ucast a) XOR push_bit n (ucast b)" for n
    by (rule bit_word_eqI) (auto simp: bit_simps)
  then show "p div 8 < length S \<Longrightarrow> ?thesis"
    by (simp add: xor_byte_def xor.assoc)
qed

lemma sponge_pad:
  assumes "p = n mod r" and "0 < r" and "(r - 1) div 8 < length S"
  shows "fold (sponge_byte r) (sha3_pad r n) (S, p) =
    (keccakf (xor_byte (xor_byte S p 0x06) (r - 1) 0x80), 0)"
proof -
  have p: "p < r" using assms by simp
  show ?thesis
  proof (cases "r - p = 1")
    case True
    then have "Suc p = r" and "p = r - 1" using p by auto
    moreover have "(0x86 :: u8) = 0x06 XOR 0x80" by simp
    ultimately show ?thesis
      using assms by (simp add: sha3_pad_def Let_def xor_byte_twice)
  next
    case False
    with p have "r = Suc (Suc (p + (r - p - 2)))" by linarith
    then obtain k where k: "r = Suc (Suc (p + k))" by blast
    then have "r - p = k + 2" by simp
    then have "sha3_pad r n = 0x06 # replicate k 0 @ [0x80]"
      unfolding sha3_pad_def assms(1) [symmetric] by simp
    then show ?thesis
      using k fold_zeros [of "Suc p" k r] by simp
  qed
qed

lemma sponge_position:
  "0 < r \<Longrightarrow> snd (fold (sponge_byte r) bs (S, n mod r)) = (n + length bs) mod r"
proof (induction bs arbitrary: S n)
  case (Cons b bs)
  have "sponge_byte r b (S, n mod r) = (fst (sponge_byte r b (S, n mod r)), Suc n mod r)"
    using Cons.prems by (simp add: mod_Suc)
  then obtain S' where "sponge_byte r b (S, n mod r) = (S', Suc n mod r)" by metis
  with Cons.IH [of S' "Suc n"] Cons.prems show ?case by simp
qed simp

lemma length_sponge:
  "length (fst (fold (sponge_byte r) bs (S, p))) = length S"
proof (induction bs arbitrary: S p)
  case (Cons b bs)
  then show ?case by (simp add: xor_byte_def)
qed simp

text \<open>
  Absorbing a message into a fresh context, with whatever split into updates, and finalizing
  it leaves the state the specification gives.
\<close>

definition fresh_ctx :: "sha3_context \<Rightarrow> bool" where
  "fresh_ctx c \<longleftrightarrow> wf_ctx c \<and> sponge c = replicate 25 0 \<and> saved c = 0 \<and> byteIndex c = 0 \<and> wordIndex c = 0"

lemma fresh_Init:
  "fresh_ctx sha3_Init256" "fresh_ctx sha3_Init384" "fresh_ctx sha3_Init512"
  by (simp_all add: fresh_ctx_def wf_Init)
     (simp_all add: sha3_Init256_def sha3_Init384_def sha3_Init512_def sha3_zero_def)

lemma Finalize_absorb:
  assumes "fresh_ctx c"
  shows "sponge (fst (sha3_Finalize (fold absorb_byte m c))) = sha3_spec (rate_of c) m"
proof -
  let ?r = "rate_of c" and ?c = "fold absorb_byte m c"
  have wf: "wf_ctx c" and S0: "sponge_of c = (replicate 25 0, 0)"
    using assms by (auto simp: fresh_ctx_def sponge_of_def list_update_same_conv)
  then have r: "0 < ?r" "(?r - 1) div 8 < 25"
    by (auto simp: wf_ctx_def rate_of_def)
  obtain S p where Sp: "fold (sponge_byte ?r) m (replicate 25 0, 0) = (S, p)"
    by (metis surj_pair)
  then have "p = length m mod ?r" and "length S = 25"
    using sponge_position [OF r(1), of m "replicate 25 0" 0] length_sponge [of ?r m "replicate 25 0" 0] by auto
  then have "sha3_spec ?r m = keccakf (xor_byte (xor_byte S p 0x06) (?r - 1) 0x80)"
    using r by (simp add: sha3_spec_def Sp sponge_pad)
  also have "\<dots> = sponge (fst (sha3_Finalize ?c))"
    using Finalize_sponge [of ?c S p] wf by (simp add: wf_absorb sponge_of_absorb S0 Sp)
  finally show ?thesis ..
qed



section \<open>Incremental hashing\<close>

text \<open>
  The interface: a fresh context, an update, and a result read off a context. Its laws say that
  updates compose like concatenation and that the result after one update is a function of the
  message; a client may then feed a message in pieces of any lengths.
\<close>

locale incremental_hash =
  fixes init :: "'c"
    and update :: "'c \<Rightarrow> u8 list \<Rightarrow> 'c"
    and final :: "'c \<Rightarrow> 'd"
    and inv :: "'c \<Rightarrow> bool"
    and spec :: "u8 list \<Rightarrow> 'd"
  assumes inv_init: "inv init"
    and inv_update: "inv c \<Longrightarrow> inv (update c a)"
    and update_Nil: "inv c \<Longrightarrow> update c [] = c"
    and update_update: "inv c \<Longrightarrow> update (update c a) b = update c (a @ b)"
    and final_update: "final (update init m) = spec m"
begin

lemma update_pieces: "inv c \<Longrightarrow> fold (\<lambda>b c. update c b) bs c = update c (concat bs)"
  by (induction bs arbitrary: c) (simp_all add: update_Nil inv_update update_update)

lemma digest_pieces: "final (fold (\<lambda>b c. update c b) bs init) = spec (concat bs)"
  by (simp add: update_pieces inv_init final_update)

lemma digest_pieces_irrelevant:
  "concat as = concat bs \<Longrightarrow>
   final (fold (\<lambda>b c. update c b) as init) = final (fold (\<lambda>b c. update c b) bs init)"
  by (simp add: digest_pieces)

end

lemma wf_Update: "wf_ctx c \<Longrightarrow> wf_ctx (sha3_Update c buf)"
  by (simp add: sha3_Update_bytewise wf_absorb)

lemma Update_Update: "wf_ctx c \<Longrightarrow> sha3_Update (sha3_Update c a) b = sha3_Update c (a @ b)"
  by (simp add: sha3_Update_bytewise wf_absorb)

lemma Update_Nil: "wf_ctx c \<Longrightarrow> sha3_Update c [] = c"
  by (simp add: sha3_Update_bytewise)

lemma Finalize_Update:
  assumes "fresh_ctx c"
  shows "snd (sha3_Finalize (sha3_Update c m)) = concat (map word_bytes (sha3_spec (rate_of c) m))"
proof -
  have "snd (sha3_Finalize c') = concat (map word_bytes (sponge (fst (sha3_Finalize c'))))" for c'
    by (simp add: sha3_Finalize_def Let_def)
  then show ?thesis
    using assms by (simp add: Finalize_absorb sha3_Update_bytewise fresh_ctx_def)
qed

lemma rate_Init [simp]:
  "rate_of sha3_Init256 = 136" "rate_of sha3_Init384 = 104" "rate_of sha3_Init512 = 72"
  by (simp_all add: rate_of_def sha3_Init256_def sha3_Init384_def sha3_Init512_def)

lemmas iuf_laws = wf_Init wf_Update Update_Nil Update_Update Finalize_Update fresh_Init

interpretation iuf256: incremental_hash sha3_Init256 sha3_Update "\<lambda>c. snd (sha3_Finalize c)" wf_ctx
  "\<lambda>m. concat (map word_bytes (sha3_spec 136 m))"
  by unfold_locales (simp_all add: iuf_laws)

interpretation iuf384: incremental_hash sha3_Init384 sha3_Update "\<lambda>c. snd (sha3_Finalize c)" wf_ctx
  "\<lambda>m. concat (map word_bytes (sha3_spec 104 m))"
  by unfold_locales (simp_all add: iuf_laws)

interpretation iuf512: incremental_hash sha3_Init512 sha3_Update "\<lambda>c. snd (sha3_Finalize c)" wf_ctx
  "\<lambda>m. concat (map word_bytes (sha3_spec 72 m))"
  by unfold_locales (simp_all add: iuf_laws)


section \<open>The 256 bit digest\<close>

definition sha3_256_digest :: "u8 list \<Rightarrow> u8 list" where
  "sha3_256_digest m = take 32 (snd (sha3_Finalize (sha3_Update sha3_Init256 m)))"

lemma length_word_bytes [simp]: "length (word_bytes w) = 8"
  by (simp add: word_bytes_def Let_def)

lemma length_sha3_spec: "length (sha3_spec r m) = 25"
  by (simp add: sha3_spec_def length_sponge del: fold_append)

lemma length_digest [simp]: "length (sha3_256_digest m) = 32"
proof -
  have "length (concat (map word_bytes ws)) = 8 * length ws" for ws
    by (induction ws) simp_all
  then show ?thesis
    by (simp add: sha3_256_digest_def iuf256.final_update length_sha3_spec)
qed

text \<open>Bytes of a word: little endian.\<close>

lemma word_bytes_nth: "i < 8 \<Longrightarrow> word_bytes w ! i = ucast (drop_bit (8 * i) w)"
proof -
  assume "i < 8"
  then consider "i = 0" | "i = 1" | "i = 2" | "i = 3" | "i = 4" | "i = 5" | "i = 6" | "i = 7" by arith
  then show ?thesis
    by cases (simp_all add: word_bytes_def Let_def; rule bit_word_eqI; auto simp: bit_simps)+
qed

lemma bit_byte_of_word:
  assumes "i < 8" and "n < 64"
  shows "bit (push_bit (8 * i) (ucast (word_bytes w ! i)) :: u64) n \<longleftrightarrow>
    8 * i \<le> n \<and> n < 8 * i + 8 \<and> bit w n"
proof (cases "8 * i \<le> n")
  case True
  then obtain k where "n = 8 * i + k" by (auto simp: le_iff_add)
  with assms show ?thesis
    by (simp add: word_bytes_nth bit_push_bit_iff bit_ucast_iff bit_drop_bit_eq)
qed (simp add: bit_push_bit_iff)

text \<open>
  Reading a word from 8 bytes, as \<open>sha3_Update\<close> does, inverts writing it to 8 bytes, as
  \<open>sha3_Finalize\<close> does.
\<close>

theorem load_word_bytes: "load_word (word_bytes w) = w"
proof (rule bit_word_eqI)
  fix n assume "n < LENGTH(64)"
  then have n: "n < 64" by simp
  note b = bit_byte_of_word [OF _ n, of _ w]
  have iv: "n < 8 \<or> 8 \<le> n \<and> n < 16 \<or> 16 \<le> n \<and> n < 24 \<or> 24 \<le> n \<and> n < 32 \<or>
    32 \<le> n \<and> n < 40 \<or> 40 \<le> n \<and> n < 48 \<or> 48 \<le> n \<and> n < 56 \<or> 56 \<le> n \<and> n < 64"
    using n by linarith
  show "bit (load_word (word_bytes w)) n = bit w n"
    using iv b [of 0] b [of 1] b [of 2] b [of 3] b [of 4] b [of 5] b [of 6] b [of 7]
    unfolding load_word_def bit_or_iff by (cases "bit w n") simp_all
qed

end
