(* ===== verification/Sha3_Vectors.thy ===== *)
theory Sha3_Vectors
  imports Sha3
begin

text \<open>
  Digests of short messages, computed inside the kernel. The message fits in one block, so one
  application of the permutation gives the state whose first four lanes are the digest.
\<close>

unbundle bit_operations_syntax

lemma sha3_spec_eval:
  assumes "fold (sponge_byte r) m (replicate 25 0, 0) = (S, p)" and "0 < r" and "r \<le> 200"
  shows "sha3_spec r m = keccakf (xor_byte (xor_byte S p 0x06) (r - 1) 0x80)"
proof -
  have "p = length m mod r" and "length S = 25"
    using assms(1) sponge_position [OF assms(2), of m "replicate 25 0" 0]
      length_sponge [of r m "replicate 25 0" 0] by auto
  with assms show ?thesis
    by (simp add: sha3_spec_def sponge_pad)
qed

lemma zero_state: "replicate 25 (0::u64) =
  [0, 0, 0, 0, 0, 0, 0, 0, 0, 0, 0, 0, 0, 0, 0, 0, 0, 0, 0, 0, 0, 0, 0, 0, 0]"
  by (simp add: numeral_eq_Suc)

lemma take_4_words:
  "take 32 (word_bytes a @ word_bytes b @ word_bytes c @ word_bytes d @ rest) =
   word_bytes a @ word_bytes b @ word_bytes c @ word_bytes d"
  by simp

lemma digest_space:
  "sha3_256_digest [0x20] =
   [0x60, 0xe8, 0x93, 0xe6, 0xd5, 0x4d, 0x85, 0x26,
    0xe5, 0x5a, 0x81, 0xf9, 0x8b, 0xfa, 0xc5, 0xda,
    0x23, 0x6b, 0xb2, 0x03, 0xe8, 0x4e, 0xd5, 0x96,
    0x7a, 0x8f, 0x52, 0x7d, 0x5b, 0xf3, 0xd4, 0xa4]"
proof -
  let ?ns = "map num_of_nat
    [0x10000000000000620, 0x10000000000000000, 0x10000000000000000, 0x10000000000000000, 0x10000000000000000,
     0x10000000000000000, 0x10000000000000000, 0x10000000000000000, 0x10000000000000000, 0x10000000000000000,
     0x10000000000000000, 0x10000000000000000, 0x10000000000000000, 0x10000000000000000, 0x10000000000000000,
     0x10000000000000000, 0x18000000000000000, 0x10000000000000000, 0x10000000000000000, 0x10000000000000000,
     0x10000000000000000, 0x10000000000000000, 0x10000000000000000, 0x10000000000000000, 0x10000000000000000]"
  have "fold (sponge_byte 136) [0x20] (replicate 25 0, 0) =
    ([0x20, 0, 0, 0, 0, 0, 0, 0, 0, 0, 0, 0, 0, 0, 0, 0, 0, 0, 0, 0, 0, 0, 0, 0, 0], 1)"
    by (simp add: zero_state xor_byte_def)
  then have "sha3_spec 136 [0x20] = keccakf
    [0x620, 0, 0, 0, 0, 0, 0, 0, 0, 0, 0, 0, 0, 0, 0, 0, 0x8000000000000000, 0, 0, 0, 0, 0, 0, 0, 0]"
    by (simp add: sha3_spec_eval xor_byte_def)
  also have "[0x620, 0, 0, 0, 0, 0, 0, 0, 0, 0, 0, 0, 0, 0, 0, 0, 0x8000000000000000, 0, 0, 0, 0, 0, 0, 0, 0]
    = map w_of ?ns"
    by (simp add: w_of_def)
  also have "keccakf \<dots> = map w_of (rounds_n rc_nums ?ns)"
    by (rule keccakf_words) simp_all
  finally show ?thesis
    unfolding sha3_256_digest_def iuf256.final_update
    by (simp only: keccak_eval) (simp add: take_4_words word_bytes_def w_of_def)
qed

lemma digest_abc:
  "sha3_256_digest [0x61, 0x62, 0x63] =
   [0x3a, 0x98, 0x5d, 0xa7, 0x4f, 0xe2, 0x25, 0xb2,
    0x04, 0x5c, 0x17, 0x2d, 0x6b, 0xd3, 0x90, 0xbd,
    0x85, 0x5f, 0x08, 0x6e, 0x3e, 0x9d, 0x52, 0x5b,
    0x46, 0xbf, 0xe2, 0x45, 0x11, 0x43, 0x15, 0x32]"
proof -
  let ?ns = "map num_of_nat
    [0x10000000006636261, 0x10000000000000000, 0x10000000000000000, 0x10000000000000000, 0x10000000000000000,
     0x10000000000000000, 0x10000000000000000, 0x10000000000000000, 0x10000000000000000, 0x10000000000000000,
     0x10000000000000000, 0x10000000000000000, 0x10000000000000000, 0x10000000000000000, 0x10000000000000000,
     0x10000000000000000, 0x18000000000000000, 0x10000000000000000, 0x10000000000000000, 0x10000000000000000,
     0x10000000000000000, 0x10000000000000000, 0x10000000000000000, 0x10000000000000000, 0x10000000000000000]"
  have "fold (sponge_byte 136) [0x61, 0x62, 0x63] (replicate 25 0, 0) =
    ([0x636261, 0, 0, 0, 0, 0, 0, 0, 0, 0, 0, 0, 0, 0, 0, 0, 0, 0, 0, 0, 0, 0, 0, 0, 0], 3)"
    by (simp add: zero_state xor_byte_def)
  then have "sha3_spec 136 [0x61, 0x62, 0x63] = keccakf
    [0x6636261, 0, 0, 0, 0, 0, 0, 0, 0, 0, 0, 0, 0, 0, 0, 0, 0x8000000000000000, 0, 0, 0, 0, 0, 0, 0, 0]"
    by (simp add: sha3_spec_eval xor_byte_def)
  also have "[0x6636261, 0, 0, 0, 0, 0, 0, 0, 0, 0, 0, 0, 0, 0, 0, 0, 0x8000000000000000, 0, 0, 0, 0, 0, 0, 0, 0]
    = map w_of ?ns"
    by (simp add: w_of_def)
  also have "keccakf \<dots> = map w_of (rounds_n rc_nums ?ns)"
    by (rule keccakf_words) simp_all
  finally show ?thesis
    unfolding sha3_256_digest_def iuf256.final_update
    by (simp only: keccak_eval) (simp add: take_4_words word_bytes_def w_of_def)
qed


text \<open>
  The messages of two inner nodes: the digests of two pages of filler, and of the pages \<open>abc\<close> and
  filler, as the tree writes and shortens them.
\<close>

lemma digest_two_fillers:
  "sha3_256_digest [0x36, 0x30, 0x65, 0x38, 0x39, 0x33, 0x65, 0x36, 0x64, 0x35, 0x34, 0x64, 0x38, 0x35, 0x32, 0x36, 0x65, 0x35, 0x35, 0x61, 0x38, 0x31, 0x66, 0x39, 0x38, 0x62, 0x66, 0x61, 0x63, 0x35, 0x64, 0x61, 0x36, 0x30, 0x65, 0x38, 0x39, 0x33, 0x65, 0x36, 0x64, 0x35, 0x34, 0x64, 0x38, 0x35, 0x32, 0x36, 0x65, 0x35, 0x35, 0x61, 0x38, 0x31, 0x66, 0x39, 0x38, 0x62, 0x66, 0x61, 0x63, 0x35, 0x64, 0x61] =
   [0xdc, 0x92, 0xb2, 0x77, 0x1b, 0x0c, 0x46, 0x1f,
    0x64, 0xe8, 0x53, 0x2b, 0x8b, 0x09, 0x33, 0xd9,
    0x50, 0x60, 0xd9, 0x4a, 0xe5, 0x40, 0x70, 0xe6,
    0x0b, 0x74, 0xe6, 0xa1, 0xd2, 0xe3, 0x9f, 0x68]"
proof -
  let ?ns = "map num_of_nat
    [0x13665333938653036, 0x13632353864343564, 0x13966313861353565, 0x16164356361666238, 0x13665333938653036,
     0x13632353864343564, 0x13966313861353565, 0x16164356361666238, 0x10000000000000006, 0x10000000000000000,
     0x10000000000000000, 0x10000000000000000, 0x10000000000000000, 0x10000000000000000, 0x10000000000000000,
     0x10000000000000000, 0x18000000000000000, 0x10000000000000000, 0x10000000000000000, 0x10000000000000000,
     0x10000000000000000, 0x10000000000000000, 0x10000000000000000, 0x10000000000000000, 0x10000000000000000]"
  have "fold (sponge_byte 136) [0x36, 0x30, 0x65, 0x38, 0x39, 0x33, 0x65, 0x36, 0x64, 0x35, 0x34, 0x64, 0x38, 0x35, 0x32, 0x36, 0x65, 0x35, 0x35, 0x61, 0x38, 0x31, 0x66, 0x39, 0x38, 0x62, 0x66, 0x61, 0x63, 0x35, 0x64, 0x61, 0x36, 0x30, 0x65, 0x38, 0x39, 0x33, 0x65, 0x36, 0x64, 0x35, 0x34, 0x64, 0x38, 0x35, 0x32, 0x36, 0x65, 0x35, 0x35, 0x61, 0x38, 0x31, 0x66, 0x39, 0x38, 0x62, 0x66, 0x61, 0x63, 0x35, 0x64, 0x61] (replicate 25 0, 0) =
    ([0x3665333938653036, 0x3632353864343564, 0x3966313861353565, 0x6164356361666238, 0x3665333938653036, 0x3632353864343564, 0x3966313861353565, 0x6164356361666238, 0, 0, 0, 0, 0, 0, 0, 0, 0, 0, 0, 0, 0, 0, 0, 0, 0], 64)"
    by (simp add: zero_state xor_byte_def)
  then have "sha3_spec 136 [0x36, 0x30, 0x65, 0x38, 0x39, 0x33, 0x65, 0x36, 0x64, 0x35, 0x34, 0x64, 0x38, 0x35, 0x32, 0x36, 0x65, 0x35, 0x35, 0x61, 0x38, 0x31, 0x66, 0x39, 0x38, 0x62, 0x66, 0x61, 0x63, 0x35, 0x64, 0x61, 0x36, 0x30, 0x65, 0x38, 0x39, 0x33, 0x65, 0x36, 0x64, 0x35, 0x34, 0x64, 0x38, 0x35, 0x32, 0x36, 0x65, 0x35, 0x35, 0x61, 0x38, 0x31, 0x66, 0x39, 0x38, 0x62, 0x66, 0x61, 0x63, 0x35, 0x64, 0x61] = keccakf
    [0x3665333938653036, 0x3632353864343564, 0x3966313861353565, 0x6164356361666238, 0x3665333938653036, 0x3632353864343564, 0x3966313861353565, 0x6164356361666238, 0x6, 0, 0, 0, 0, 0, 0, 0, 0x8000000000000000, 0, 0, 0, 0, 0, 0, 0, 0]"
    by (simp add: sha3_spec_eval xor_byte_def)
  also have "[0x3665333938653036, 0x3632353864343564, 0x3966313861353565, 0x6164356361666238, 0x3665333938653036, 0x3632353864343564, 0x3966313861353565, 0x6164356361666238, 0x6, 0, 0, 0, 0, 0, 0, 0, 0x8000000000000000, 0, 0, 0, 0, 0, 0, 0, 0]
    = map w_of ?ns"
    by (simp add: w_of_def)
  also have "keccakf \<dots> = map w_of (rounds_n rc_nums ?ns)"
    by (rule keccakf_words) simp_all
  finally show ?thesis
    unfolding sha3_256_digest_def iuf256.final_update
    by (simp only: keccak_eval) (simp add: take_4_words word_bytes_def w_of_def)
qed

lemma digest_abc_filler:
  "sha3_256_digest [0x33, 0x61, 0x39, 0x38, 0x35, 0x64, 0x61, 0x37, 0x34, 0x66, 0x65, 0x32, 0x32, 0x35, 0x62, 0x32, 0x34, 0x35, 0x63, 0x31, 0x37, 0x32, 0x64, 0x36, 0x62, 0x64, 0x33, 0x39, 0x30, 0x62, 0x64, 0x38, 0x36, 0x30, 0x65, 0x38, 0x39, 0x33, 0x65, 0x36, 0x64, 0x35, 0x34, 0x64, 0x38, 0x35, 0x32, 0x36, 0x65, 0x35, 0x35, 0x61, 0x38, 0x31, 0x66, 0x39, 0x38, 0x62, 0x66, 0x61, 0x63, 0x35, 0x64, 0x61] =
   [0x06, 0xdf, 0x99, 0x64, 0xca, 0xed, 0x85, 0x88,
    0x97, 0x62, 0xe1, 0xd1, 0xa9, 0xaf, 0x45, 0xb3,
    0xe9, 0x8e, 0xe0, 0x66, 0xa0, 0x2d, 0x33, 0xa6,
    0xa6, 0x29, 0xae, 0xee, 0xdb, 0xdb, 0xd6, 0xbf]"
proof -
  let ?ns = "map num_of_nat
    [0x13761643538396133, 0x13262353232656634, 0x13664323731633534, 0x13864623039336462, 0x13665333938653036,
     0x13632353864343564, 0x13966313861353565, 0x16164356361666238, 0x10000000000000006, 0x10000000000000000,
     0x10000000000000000, 0x10000000000000000, 0x10000000000000000, 0x10000000000000000, 0x10000000000000000,
     0x10000000000000000, 0x18000000000000000, 0x10000000000000000, 0x10000000000000000, 0x10000000000000000,
     0x10000000000000000, 0x10000000000000000, 0x10000000000000000, 0x10000000000000000, 0x10000000000000000]"
  have "fold (sponge_byte 136) [0x33, 0x61, 0x39, 0x38, 0x35, 0x64, 0x61, 0x37, 0x34, 0x66, 0x65, 0x32, 0x32, 0x35, 0x62, 0x32, 0x34, 0x35, 0x63, 0x31, 0x37, 0x32, 0x64, 0x36, 0x62, 0x64, 0x33, 0x39, 0x30, 0x62, 0x64, 0x38, 0x36, 0x30, 0x65, 0x38, 0x39, 0x33, 0x65, 0x36, 0x64, 0x35, 0x34, 0x64, 0x38, 0x35, 0x32, 0x36, 0x65, 0x35, 0x35, 0x61, 0x38, 0x31, 0x66, 0x39, 0x38, 0x62, 0x66, 0x61, 0x63, 0x35, 0x64, 0x61] (replicate 25 0, 0) =
    ([0x3761643538396133, 0x3262353232656634, 0x3664323731633534, 0x3864623039336462, 0x3665333938653036, 0x3632353864343564, 0x3966313861353565, 0x6164356361666238, 0, 0, 0, 0, 0, 0, 0, 0, 0, 0, 0, 0, 0, 0, 0, 0, 0], 64)"
    by (simp add: zero_state xor_byte_def)
  then have "sha3_spec 136 [0x33, 0x61, 0x39, 0x38, 0x35, 0x64, 0x61, 0x37, 0x34, 0x66, 0x65, 0x32, 0x32, 0x35, 0x62, 0x32, 0x34, 0x35, 0x63, 0x31, 0x37, 0x32, 0x64, 0x36, 0x62, 0x64, 0x33, 0x39, 0x30, 0x62, 0x64, 0x38, 0x36, 0x30, 0x65, 0x38, 0x39, 0x33, 0x65, 0x36, 0x64, 0x35, 0x34, 0x64, 0x38, 0x35, 0x32, 0x36, 0x65, 0x35, 0x35, 0x61, 0x38, 0x31, 0x66, 0x39, 0x38, 0x62, 0x66, 0x61, 0x63, 0x35, 0x64, 0x61] = keccakf
    [0x3761643538396133, 0x3262353232656634, 0x3664323731633534, 0x3864623039336462, 0x3665333938653036, 0x3632353864343564, 0x3966313861353565, 0x6164356361666238, 0x6, 0, 0, 0, 0, 0, 0, 0, 0x8000000000000000, 0, 0, 0, 0, 0, 0, 0, 0]"
    by (simp add: sha3_spec_eval xor_byte_def)
  also have "[0x3761643538396133, 0x3262353232656634, 0x3664323731633534, 0x3864623039336462, 0x3665333938653036, 0x3632353864343564, 0x3966313861353565, 0x6164356361666238, 0x6, 0, 0, 0, 0, 0, 0, 0, 0x8000000000000000, 0, 0, 0, 0, 0, 0, 0, 0]
    = map w_of ?ns"
    by (simp add: w_of_def)
  also have "keccakf \<dots> = map w_of (rounds_n rc_nums ?ns)"
    by (rule keccakf_words) simp_all
  finally show ?thesis
    unfolding sha3_256_digest_def iuf256.final_update
    by (simp only: keccak_eval) (simp add: take_4_words word_bytes_def w_of_def)
qed

end
