(* ===== verification/Hash_Properties.thy ===== *)
theory Hash_Properties
  imports Sha3_Vectors
begin

text \<open>
  What the hash functions of \<^verbatim>\<open>merkle_tree/sha3.c\<close> compute, as properties of the public
  interface: initialise, update any number of times, finalize.
\<close>

text \<open>
  C22: a message fed to \<open>sha3_Update\<close> in pieces of any lengths and read with \<open>sha3_Finalize\<close> gives
  the sponge of the specification over the whole message, at the rate of 136, 104 or 72 bytes
  that \<open>sha3_Init256\<close>, \<open>sha3_Init384\<close> and \<open>sha3_Init512\<close> choose.
\<close>

theorem sha3_streams_the_sponge:
  "snd (sha3_Finalize (fold (\<lambda>b c. sha3_Update c b) bs sha3_Init256)) =
     concat (map word_bytes (sha3_spec 136 (concat bs))) \<and>
   snd (sha3_Finalize (fold (\<lambda>b c. sha3_Update c b) bs sha3_Init384)) =
     concat (map word_bytes (sha3_spec 104 (concat bs))) \<and>
   snd (sha3_Finalize (fold (\<lambda>b c. sha3_Update c b) bs sha3_Init512)) =
     concat (map word_bytes (sha3_spec 72 (concat bs)))"
  using iuf256.digest_pieces iuf384.digest_pieces iuf512.digest_pieces by blast

text \<open>
  C31: a context keeps its invariant under \<open>sha3_Update\<close>, whatever the input: fewer than 8 saved
  bytes, nothing saved beyond them, a word index below the rate and a state of 25 words; and
  one call is the same as adding the bytes of the input one by one.
\<close>

theorem sha3_Update_keeps_context:
  assumes "wf_ctx c"
  shows "wf_ctx (sha3_Update c buf) \<and> byteIndex (sha3_Update c buf) < 8 \<and>
    wordIndex (sha3_Update c buf) < SHA3_KECCAK_SPONGE_WORDS - capacityWords (sha3_Update c buf) \<and>
    capacityWords (sha3_Update c buf) = capacityWords c \<and>
    sha3_Update c buf = fold absorb_byte buf c"
proof -
  have "wf_ctx (sha3_Update c buf)" using assms by (rule wf_Update)
  moreover have "capacityWords (fold absorb_byte buf c) = capacityWords c"
    by (induction buf arbitrary: c) simp_all
  moreover have "sha3_Update c buf = fold absorb_byte buf c"
    using assms by (rule sha3_Update_bytewise)
  ultimately show ?thesis by (auto simp: wf_ctx_def)
qed

theorem sha3_Update_keeps_context_witness:
  "wf_ctx (sha3_Update sha3_Init256 [1, 2, 3]) \<and> byteIndex (sha3_Update sha3_Init256 [1, 2, 3]) < 8 \<and>
    wordIndex (sha3_Update sha3_Init256 [1, 2, 3]) <
      SHA3_KECCAK_SPONGE_WORDS - capacityWords (sha3_Update sha3_Init256 [1, 2, 3]) \<and>
    capacityWords (sha3_Update sha3_Init256 [1, 2, 3]) = capacityWords sha3_Init256 \<and>
    sha3_Update sha3_Init256 [1, 2, 3] = fold absorb_byte [1, 2, 3] sha3_Init256"
  by (rule sha3_Update_keeps_context) (rule wf_Init)

text \<open>
  known answers, computed from the definitions: the digest of the empty-looking page of one
  space, whose text the tree has as a literal, and that of \<open>abc\<close>.
\<close>

theorem sha3_256_known_answers:
  "take 32 (snd (sha3_Finalize (sha3_Update sha3_Init256 [0x20]))) =
   [0x60, 0xe8, 0x93, 0xe6, 0xd5, 0x4d, 0x85, 0x26, 0xe5, 0x5a, 0x81, 0xf9, 0x8b, 0xfa, 0xc5, 0xda,
    0x23, 0x6b, 0xb2, 0x03, 0xe8, 0x4e, 0xd5, 0x96, 0x7a, 0x8f, 0x52, 0x7d, 0x5b, 0xf3, 0xd4, 0xa4] \<and>
   take 32 (snd (sha3_Finalize (sha3_Update sha3_Init256 [0x61, 0x62, 0x63]))) =
   [0x3a, 0x98, 0x5d, 0xa7, 0x4f, 0xe2, 0x25, 0xb2, 0x04, 0x5c, 0x17, 0x2d, 0x6b, 0xd3, 0x90, 0xbd,
    0x85, 0x5f, 0x08, 0x6e, 0x3e, 0x9d, 0x52, 0x5b, 0x46, 0xbf, 0xe2, 0x45, 0x11, 0x43, 0x15, 0x32]"
  using digest_space digest_abc unfolding sha3_256_digest_def by blast

end
