(* ===== verification/Merkle.thy ===== *)
theory Merkle
  imports Sha3_Vectors
begin

text \<open>
  The Merkle tree of \<^verbatim>\<open>merkle_tree/merkletree.h\<close> and the single-threaded operations
  of \<^verbatim>\<open>merkle_tree/merkletree.c\<close> that hash its nodes: \<open>hash_node\<close> and
  \<open>build_tree\<close>. The tree is an array of nodes; the root is node 1, the children of node \<open>i\<close>
  are \<open>2 * i\<close> and \<open>2 * i + 1\<close>, the leaves of a tree of height \<open>h\<close> start at \<open>2 ^ (h - 1)\<close>.
\<close>


section \<open>The data\<close>

definition HASH_SIZE :: nat where "HASH_SIZE = 256"
definition BYTE_SIZE :: nat where "BYTE_SIZE = 8"
definition HEX :: nat where "HEX = 4"
definition PAGE_LENGTH :: nat where "PAGE_LENGTH = 65536"

lemmas size_defs = HASH_SIZE_def BYTE_SIZE_def HEX_def PAGE_LENGTH_def

record node =
  data :: c_ptr
  hash :: c_ptr

record merkle_tree =
  nb_nodes :: nat
  tree_height :: nat
  nb_of_leaves :: nat
  nodes :: "nat \<Rightarrow> node"

text \<open>
  What \<open>malloc\<close> leaves in memory is not determined by the program: \<open>fresh_node\<close> is what a
  node of a new array holds, \<open>tail\<close> the bytes of the buffer in \<open>hash_node\<close> behind those
  copied into it, which may differ for every state the function is called in. \<open>spawns\<close> says
  whether the creation of a thread succeeds.
\<close>

record memory =
  fresh_node :: "nat \<Rightarrow> node"
  tail :: "merkle_tree \<Rightarrow> nat \<Rightarrow> char list"
  spawns :: "nat \<Rightarrow> bool"

definition set_hash :: "merkle_tree \<Rightarrow> nat \<Rightarrow> c_ptr \<Rightarrow> merkle_tree" where
  "set_hash mt i p = mt\<lparr>nodes := (nodes mt)(i := (nodes mt i)\<lparr>hash := p\<rparr>)\<rparr>"

definition set_data :: "merkle_tree \<Rightarrow> nat \<Rightarrow> c_ptr \<Rightarrow> merkle_tree" where
  "set_data mt i p = mt\<lparr>nodes := (nodes mt)(i := (nodes mt i)\<lparr>data := p\<rparr>)\<rparr>"

text \<open>\<open>1 << k\<close> on a 32 bit \<open>int\<close>; the shift amount is an integer expression of the code.\<close>

definition shl_one :: "int \<Rightarrow> fault + nat" where
  "shl_one k = (if 0 \<le> k \<and> k < 31 then Inr (2 ^ nat k) else Inl Bad_shift)"

abbreviation leaf_start :: "merkle_tree \<Rightarrow> fault + nat" where
  "leaf_start mt \<equiv> shl_one (int (tree_height mt) - 1)"


section \<open>Hashes as strings\<close>

text \<open>\<open>sprintf(string, "%x", hash[j])\<close>: one digit when the byte is below 16, else two.\<close>

definition hex_digit :: "nat \<Rightarrow> char" where
  "hex_digit n = ''0123456789abcdef'' ! n"

definition hex_byte :: "u8 \<Rightarrow> string" where
  "hex_byte b =
     (let n = unat b in if n < 16 then [hex_digit n] else [hex_digit (n div 16), hex_digit (n mod 16)])"

definition hex_string :: "u8 list \<Rightarrow> string" where
  "hex_string bs = concat (map hex_byte bs)"

definition digest_string :: "string \<Rightarrow> string" where
  "digest_string s = hex_string (sha3_256_digest (map of_char s))"

definition space_hash :: string where
  "space_hash = ''60e893e6d54d8526e55a81f98bfac5da236bb23e84ed5967a8f527d5bf3d4a4''"

text \<open>
  \<open>memcpy(buffer, hash, HASH_SIZE / BYTE_SIZE)\<close>: 32 bytes from a string in memory. When the
  string is shorter its terminator is copied too; the bytes behind it play no role, since the
  buffer is read as a string afterwards.
\<close>

definition copy_hash :: "string \<Rightarrow> char list" where
  "copy_hash s = take (HASH_SIZE div BYTE_SIZE) (s @ replicate (HASH_SIZE div BYTE_SIZE) nul)"


section \<open>Hashing a node\<close>

definition hash_node :: "memory \<Rightarrow> merkle_tree \<Rightarrow> nat \<Rightarrow> fault + int \<times> merkle_tree" where
  "hash_node m mt i =
     (if nb_nodes mt \<le> i then Inr (-1, mt)
      else bind_c (leaf_start mt) (\<lambda>ls.
        if i < ls then
          bind_c (is_set (hash (nodes mt (2 * i)))) (\<lambda>l.
          if \<not> l then Inr (-1, mt) else
          bind_c (is_set (hash (nodes mt (2 * i + 1)))) (\<lambda>r.
          if \<not> r then Inr (-1, mt) else
          bind_c (deref (hash (nodes mt (2 * i)))) (\<lambda>lh.
          bind_c (deref (hash (nodes mt (2 * i + 1)))) (\<lambda>rh.
          bind_c (c_string (copy_hash lh @ copy_hash rh @ tail m mt i)) (\<lambda>buffer.
          Inr (0, set_hash mt i (Str (digest_string buffer))))))))
        else
          bind_c (is_set (data (nodes mt i))) (\<lambda>d.
          if \<not> d then Inr (-1, mt) else
          bind_c (deref (data (nodes mt i))) (\<lambda>s.
          Inr (0, set_hash mt i (Str (if s = '' '' then space_hash else digest_string s)))))))"


section \<open>Building a tree\<close>

text \<open>
  \<open>datas\<close> is an array of strings that is addressed by the sum of the lengths of the strings
  before: the model is the array's contents by slot. The sum is an \<open>int\<close>, to which \<open>size_t\<close> values are
  added; where it has become negative the code reads before the array. The copy goes into a buffer of
  \<open>sizeof(char *) * 2 * PAGE_LENGTH\<close> bytes.
\<close>

definition slot :: "(nat \<Rightarrow> c_ptr) \<Rightarrow> 32 word \<Rightarrow> fault + c_ptr" where
  "slot datas data_size =
     (if sint data_size < 0 then Inl Bad_pointer else Inr (datas (nat (sint data_size))))"

lemma slot_small [simp]: "n < 2 ^ 31 \<Longrightarrow> slot datas (word_of_nat n) = Inr (datas n)"
  by (simp add: slot_def sint_of_nat_small)

lemma slot_0 [simp]: "slot datas 0 = Inr (datas 0)"
  by (simp add: slot_def)

fun build_leaves ::
  "memory \<Rightarrow> (nat \<Rightarrow> c_ptr) \<Rightarrow> nat \<Rightarrow> nat \<Rightarrow> 32 word \<Rightarrow> merkle_tree \<Rightarrow> fault + int \<times> merkle_tree"
where
  "build_leaves m datas 0 i data_size mt = Inr (0, mt)"
| "build_leaves m datas (Suc k) i data_size mt =
     bind_c (slot datas data_size) (\<lambda>p.
     bind_c (is_set p) (\<lambda>ok.
     if \<not> ok then Inr (-1, set_data mt i Wild) else
     bind_c (deref p) (\<lambda>s.
     if 8 * 2 * PAGE_LENGTH \<le> length s then Inl Overrun else
     bind_c (hash_node m (set_hash (set_data mt i (Str s)) i Null) i) (\<lambda>(r, mt).
     if r = -1 then Inr (-1, mt)
     else build_leaves m datas k (i + 1) (data_size + word_of_nat (length s)) mt))))"

text \<open>The loops \<open>for (i = start; i > 0; i--)\<close> over the inner nodes.\<close>

fun hash_down :: "memory \<Rightarrow> nat \<Rightarrow> merkle_tree \<Rightarrow> fault + int \<times> merkle_tree" where
  "hash_down m 0 mt = Inr (0, mt)"
| "hash_down m (Suc i) mt =
     bind_c (hash_node m (set_hash mt (Suc i) Null) (Suc i)) (\<lambda>(r, mt).
     if r = -1 then Inr (-1, mt) else hash_down m i mt)"

definition new_nodes :: "memory \<Rightarrow> merkle_tree \<Rightarrow> nat \<Rightarrow> merkle_tree" where
  "new_nodes m mt n = mt\<lparr>nb_nodes := n, nodes := fresh_node m\<rparr>"

definition build_tree :: "memory \<Rightarrow> merkle_tree \<Rightarrow> (nat \<Rightarrow> c_ptr) \<Rightarrow> fault + int \<times> merkle_tree" where
  "build_tree m mt datas =
     bind_c (leaf_start mt) (\<lambda>leaf_start_index.
     bind_c (shl_one (int (tree_height mt))) (\<lambda>n.
     bind_c (build_leaves m datas (n - leaf_start_index) leaf_start_index 0 (new_nodes m mt n)) (\<lambda>(r, mt).
     if r = -1 then Inr (-1, mt) else hash_down m (leaf_start_index - 1) mt)))"


section \<open>Properties of the hash strings\<close>

definition hex_digits :: string where
  "hex_digits = ''0123456789abcdef''"

text \<open>What a stored hash looks like: between 32 and 64 digits, none of them a separator.\<close>

definition is_hash :: "string \<Rightarrow> bool" where
  "is_hash s \<longleftrightarrow> 32 \<le> length s \<and> length s \<le> 64 \<and> set s \<subseteq> set hex_digits"

lemma hex_digit_range: "n < 16 \<Longrightarrow> hex_digit n \<in> set hex_digits"
  by (simp add: hex_digit_def hex_digits_def nth_mem del: set_simps list.set)

lemma unat_u8 [simp]: "unat (b :: u8) < 256"
  using unsigned_less [of b, where ?'a = nat] by simp

lemma hex_byte_props:
  "1 \<le> length (hex_byte b)" "length (hex_byte b) \<le> 2" "set (hex_byte b) \<subseteq> set hex_digits"
proof -
  have "unat b div 16 < 16" using unat_u8 [of b] by arith
  then show "1 \<le> length (hex_byte b)" "length (hex_byte b) \<le> 2" "set (hex_byte b) \<subseteq> set hex_digits"
    by (auto simp: hex_byte_def Let_def hex_digit_range)
qed

lemma hex_string_props:
  "length bs \<le> length (hex_string bs)" "length (hex_string bs) \<le> 2 * length bs"
  "set (hex_string bs) \<subseteq> set hex_digits"
proof (induction bs)
  case (Cons b bs)
  {
    case 1 then show ?case using Cons hex_byte_props [of b] by (simp add: hex_string_def)
  next
    case 2 then show ?case using Cons hex_byte_props [of b] by (simp add: hex_string_def)
  next
    case 3 then show ?case using Cons hex_byte_props [of b] by (simp add: hex_string_def)
  }
qed (simp_all add: hex_string_def)

text \<open>
  The tree relies on one law of the hash function, the length of its result; the interface
  states it and what follows for the strings the tree stores.
\<close>

locale hasher =
  fixes digest :: "u8 list \<Rightarrow> u8 list"
  assumes length_digest_law: "length (digest m) = 32"
begin

lemma is_hash_hex: "is_hash (hex_string (digest m))"
  using hex_string_props [of "digest m"] by (simp add: is_hash_def length_digest_law)

lemma fits_hash_string: "length (hex_string (digest m)) + 1 \<le> HEX * HASH_SIZE div BYTE_SIZE"
  using hex_string_props(2) [of "digest m"] by (simp add: length_digest_law size_defs)

end

interpretation sha: hasher sha3_256_digest
  by unfold_locales simp

lemma is_hash_digest_string [simp]: "is_hash (digest_string s)"
  unfolding digest_string_def by (rule sha.is_hash_hex)

lemma digits_not_special: "c \<in> set hex_digits \<Longrightarrow> c \<noteq> nul \<and> c \<noteq> CHR '':'' \<and> c \<noteq> CHR '',''"
  by (auto simp: hex_digits_def)

lemma is_hash_c_string: "is_hash s \<Longrightarrow> is_c_string s"
  by (auto simp: is_hash_def is_c_string_def dest: digits_not_special)

lemma copy_hash_is_hash: "is_hash s \<Longrightarrow> copy_hash s = take 32 s"
  by (simp add: copy_hash_def is_hash_def size_defs)

text \<open>
  The hash of a page of filler is a literal of the code; it is the hash \<open>hash_node\<close> would have
  computed, so the special case changes nothing.
\<close>

lemma space_hash_eq: "digest_string '' '' = space_hash"
  by (simp add: digest_string_def digest_space hex_string_def hex_byte_def hex_digit_def space_hash_def)


section \<open>Merkle trees as values\<close>

text \<open>
  The specification: the hash of an inner node is the digest of the first 32 characters of the
  hash of its left child followed by the first 32 characters of that of its right child.
\<close>

definition inner_hash :: "string \<Rightarrow> string \<Rightarrow> string" where
  "inner_hash l r = digest_string (take 32 l @ take 32 r)"

text \<open>In a tree whose leaves start at \<open>n\<close> and have the hashes \<open>L\<close>, the hash of node \<open>i\<close>.\<close>

function node_hash :: "nat \<Rightarrow> (nat \<Rightarrow> string) \<Rightarrow> nat \<Rightarrow> string" where
  "node_hash n L i =
     (if i = 0 \<or> n \<le> i then L i
      else inner_hash (node_hash n L (2 * i)) (node_hash n L (2 * i + 1)))"
  by pat_completeness auto
termination
  by (relation "measure (\<lambda>(n, L, i). n - i)") auto

declare node_hash.simps [simp del]

lemma node_hash_leaf [simp]: "n \<le> i \<Longrightarrow> node_hash n L i = L i"
  by (simp add: node_hash.simps)

lemma node_hash_inner:
  "0 < i \<Longrightarrow> i < n \<Longrightarrow>
   node_hash n L i = inner_hash (node_hash n L (2 * i)) (node_hash n L (2 * i + 1))"
  by (simp add: node_hash.simps [of n L i])

lemma is_hash_inner [simp]: "is_hash (inner_hash l r)"
  by (simp add: inner_hash_def)

text \<open>
  \<open>clean\<close> memory: the byte behind the two hashes in the buffer happens to be a terminator.
  The code writes none, so everything about the hashes of inner nodes depends on it.
\<close>

definition clean :: "memory \<Rightarrow> bool" where
  "clean m \<longleftrightarrow> (\<forall>mt i. tail m mt i \<noteq> [] \<and> hd (tail m mt i) = nul)"

lemma clean_tail: "clean m \<Longrightarrow> \<exists>t. tail m mt i = nul # t"
  unfolding clean_def by (metis list.exhaust_sel)

lemma buffer_string:
  assumes "clean m" and "is_hash l" and "is_hash r"
  shows "c_string (copy_hash l @ copy_hash r @ tail m mt i) = Inr (take 32 l @ take 32 r)"
proof -
  obtain t where t: "tail m mt i = nul # t" using clean_tail assms(1) by blast
  have "is_c_string (take 32 l @ take 32 r)"
    using assms by (simp add: is_hash_c_string is_c_string_take)
  from c_string_terminated [OF this, of t] show ?thesis
    using assms by (simp add: copy_hash_is_hash t)
qed

lemma digest_of_leaf [simp]: "(if s = '' '' then space_hash else digest_string s) = digest_string s"
  by (simp add: space_hash_eq)

text \<open>The two successful cases of \<open>hash_node\<close>, and when it returns \<open>-1\<close>.\<close>

lemma shl_one_eq [simp]: "0 \<le> k \<Longrightarrow> k < 31 \<Longrightarrow> shl_one k = Inr (2 ^ nat k)"
  by (simp add: shl_one_def)

lemma hash_node_inner:
  assumes "clean m" and "i < nb_nodes mt" and "leaf_start mt = Inr ls" and "i < ls"
    and "hash (nodes mt (2 * i)) = Str l" and "hash (nodes mt (2 * i + 1)) = Str r"
    and "is_hash l" and "is_hash r"
  shows "hash_node m mt i = Inr (0, set_hash mt i (Str (inner_hash l r)))"
  using assms by (simp add: hash_node_def buffer_string inner_hash_def)

lemma hash_node_leaf:
  assumes "i < nb_nodes mt" and "leaf_start mt = Inr ls" and "ls \<le> i" and "data (nodes mt i) = Str s"
  shows "hash_node m mt i = Inr (0, set_hash mt i (Str (digest_string s)))"
  using assms by (simp add: hash_node_def)



section \<open>Trees during construction\<close>

lemma is_hash_node_hash:
  assumes "\<And>j. is_hash (L j)"
  shows "is_hash (node_hash n L i)"
  using assms by (subst node_hash.simps) simp

text \<open>
  The tree over new nodes in which the nodes in \<open>P\<close> have got their data, those in \<open>S\<close> their
  final hash, and nothing else was written but the null hash of the nodes in \<open>P\<close>.
\<close>

definition paint :: "memory \<Rightarrow> merkle_tree \<Rightarrow> nat \<Rightarrow> (nat \<Rightarrow> string) \<Rightarrow> nat set \<Rightarrow> nat set \<Rightarrow> merkle_tree" where
  "paint m mt n D P S = mt\<lparr>nb_nodes := 2 * n, nodes := (\<lambda>i.
     \<lparr>data = (if i \<in> P then Str (D i) else data (fresh_node m i)),
      hash = (if i \<in> S then Str (node_hash n (\<lambda>j. digest_string (D j)) i)
              else if i \<in> P then Null else hash (fresh_node m i))\<rparr>)\<rparr>"

lemma paint_simps [simp]:
  "nb_nodes (paint m mt n D P S) = 2 * n"
  "tree_height (paint m mt n D P S) = tree_height mt"
  by (simp_all add: paint_def)

lemma set_hash_simps [simp]:
  "nb_nodes (set_hash mt i p) = nb_nodes mt" "tree_height (set_hash mt i p) = tree_height mt"
  "nb_of_leaves (set_hash mt i p) = nb_of_leaves mt"
  "set_hash (set_hash mt i p) i q = set_hash mt i q"
  "hash (nodes (set_hash mt i p) j) = (if j = i then p else hash (nodes mt j))"
  "data (nodes (set_hash mt i p) j) = data (nodes mt j)"
  by (simp_all add: set_hash_def)

lemma set_data_simps [simp]:
  "nb_nodes (set_data mt i p) = nb_nodes mt" "tree_height (set_data mt i p) = tree_height mt"
  "nb_of_leaves (set_data mt i p) = nb_of_leaves mt"
  "hash (nodes (set_data mt i p) j) = hash (nodes mt j)"
  "data (nodes (set_data mt i p) j) = (if j = i then p else data (nodes mt j))"
  by (simp_all add: set_data_def)

lemma set_hash_same: "set_hash mt i (hash (nodes mt i)) = mt"
  by (simp add: set_hash_def)

lemma paint_hash:
  "i \<in> S \<Longrightarrow> hash (nodes (paint m mt n D P S) i) = Str (node_hash n (\<lambda>j. digest_string (D j)) i)"
  "i \<in> P \<Longrightarrow> data (nodes (paint m mt n D P S) i) = Str (D i)"
  by (simp_all add: paint_def)

lemma set_hash_paint:
  "set_hash (paint m mt n D P S) i (Str (node_hash n (\<lambda>j. digest_string (D j)) i)) =
   paint m mt n D P (insert i S)"
  by (rule merkle_tree.equality) (auto simp: set_hash_def paint_def fun_eq_iff)

text \<open>A node is ready when its data is there, or both hashes of its children are.\<close>

definition ready :: "nat \<Rightarrow> nat set \<Rightarrow> nat \<Rightarrow> bool" where
  "ready n S i \<longleftrightarrow> 0 < i \<and> i < 2 * n \<and> (i < n \<longrightarrow> 2 * i \<in> S \<and> 2 * i + 1 \<in> S)"

lemma ready_mono: "ready n S i \<Longrightarrow> S \<subseteq> S' \<Longrightarrow> ready n S' i"
  by (auto simp: ready_def)

text \<open>Hashing a node that is ready, whatever hash it had, gives it its final hash.\<close>

lemma hash_node_paint:
  assumes "clean m" and "leaf_start mt = Inr n" and "ready n S i"
  shows "hash_node m (set_hash (paint m mt n D {n..<2 * n} S) i p) i =
    Inr (0, paint m mt n D {n..<2 * n} (insert i S))"
proof (cases "i < n")
  case True
  with assms(3) have c: "2 * i \<in> S" "2 * i + 1 \<in> S" and "0 < i" by (auto simp: ready_def)
  let ?H = "node_hash n (\<lambda>j. digest_string (D j))"
  have "hash_node m (set_hash (paint m mt n D {n..<2 * n} S) i p) i =
    Inr (0, set_hash (set_hash (paint m mt n D {n..<2 * n} S) i p) i
      (Str (inner_hash (?H (2 * i)) (?H (2 * i + 1)))))"
    using True \<open>0 < i\<close> c assms(1,2)
    by (intro hash_node_inner) (simp_all add: paint_hash is_hash_node_hash)
  also have "inner_hash (?H (2 * i)) (?H (2 * i + 1)) = ?H i"
    using True \<open>0 < i\<close> by (rule node_hash_inner [symmetric, rotated])
  finally show ?thesis
    by (simp only: set_hash_simps set_hash_paint)
next
  case False
  then have "node_hash n (\<lambda>j. digest_string (D j)) i = digest_string (D i)" by simp
  with False assms show ?thesis
    by (subst hash_node_leaf [where ls = n])
       (auto simp: paint_hash ready_def simp flip: set_hash_paint)
qed

lemma hash_node_paint_plain:
  assumes "clean m" and "leaf_start mt = Inr n" and "ready n S i"
  shows "hash_node m (paint m mt n D {n..<2 * n} S) i =
    Inr (0, paint m mt n D {n..<2 * n} (insert i S))"
  using hash_node_paint [OF assms, of D "hash (nodes (paint m mt n D {n..<2 * n} S) i)"]
  by (simp add: set_hash_same)

lemma hash_down_paint:
  assumes "clean m" and "leaf_start mt = Inr n" and "i < 2 * n"
    and "{j. i < j \<and> j < 2 * n} \<subseteq> S" and "\<And>j. j \<in> S \<Longrightarrow> 0 < j \<and> j < 2 * n"
  shows "hash_down m i (paint m mt n D {n..<2 * n} S) = Inr (0, paint m mt n D {n..<2 * n} {1..<2 * n})"
  using assms(3-)
proof (induction i arbitrary: S)
  case 0
  then have "S = {1..<2 * n}" by fastforce
  then show ?case by simp
next
  case (Suc i)
  have "ready n S (Suc i)"
    using Suc.prems by (auto simp: ready_def)
  note step = hash_node_paint [OF assms(1,2) this]
  have "{j. i < j \<and> j < 2 * n} \<subseteq> insert (Suc i) {j. Suc i < j \<and> j < 2 * n}" by auto
  then have "{j. i < j \<and> j < 2 * n} \<subseteq> insert (Suc i) S" using Suc.prems by blast
  then have "hash_down m i (paint m mt n D {n..<2 * n} (insert (Suc i) S)) =
    Inr (0, paint m mt n D {n..<2 * n} {1..<2 * n})"
    using Suc.prems by (intro Suc.IH) auto
  then show ?case by (simp add: step)
qed



section \<open>Building the whole tree\<close>

text \<open>The strings \<open>ds\<close> are in the array \<open>datas\<close>, each at the sum of the lengths before it.\<close>

fun chain :: "(nat \<Rightarrow> c_ptr) \<Rightarrow> nat \<Rightarrow> string list \<Rightarrow> bool" where
  "chain datas off [] \<longleftrightarrow> True"
| "chain datas off (d # ds) \<longleftrightarrow> datas off = Str d \<and> chain datas (off + length d) ds"

definition fits_leaf :: "string \<Rightarrow> bool" where
  "fits_leaf s \<longleftrightarrow> length s < 8 * 2 * PAGE_LENGTH"

definition valid_height :: "nat \<Rightarrow> bool" where
  "valid_height h \<longleftrightarrow> 1 \<le> h \<and> h \<le> 30"

lemma leaf_start_height: "valid_height (tree_height mt) \<Longrightarrow> leaf_start mt = Inr (2 ^ (tree_height mt - 1))"
  by (simp add: valid_height_def nat_diff_distrib)

lemma chain_append: "chain datas off (xs @ ys) \<longleftrightarrow>
  chain datas off xs \<and> chain datas (off + length (concat xs)) ys"
  by (induction xs arbitrary: off) (auto simp: add.assoc)

lemma set_leaf_paint:
  "i \<notin> S \<Longrightarrow> set_hash (set_data (paint m mt n D P S) i (Str (D i))) i Null = paint m mt n D (insert i P) S"
  by (rule merkle_tree.equality) (auto simp: set_hash_def set_data_def paint_def fun_eq_iff)

lemma new_nodes_paint: "new_nodes m mt (2 * n) = paint m mt n D {} {}"
  by (rule merkle_tree.equality) (auto simp: new_nodes_def paint_def fun_eq_iff)

lemma hash_leaf_paint:
  assumes "leaf_start mt = Inr n" and "n \<le> i" and "i < 2 * n" and "i \<in> P"
  shows "hash_node m (paint m mt n D P S) i = Inr (0, paint m mt n D P (insert i S))"
  using assms by (subst hash_node_leaf [where ls = n]) (auto simp: paint_hash simp flip: set_hash_paint)

lemma upto_insert: "n \<le> i \<Longrightarrow> insert i {n..<i} = {n..<Suc i}"
  by auto

lemma build_leaves_paint:
  assumes "leaf_start mt = Inr n" and "n \<le> i" and "i + k = 2 * n"
    and "chain datas off (map D [i..<i + k])" and "\<forall>j\<in>{i..<i + k}. fits_leaf (D j)"
    and "off + length (concat (map D [i..<i + k])) < 2 ^ 31"
  shows "build_leaves m datas k i (word_of_nat off) (paint m mt n D {n..<i} {n..<i}) =
    Inr (0, paint m mt n D {n..<2 * n} {n..<2 * n})"
  using assms(2-)
proof (induction k arbitrary: i off)
  case 0
  then show ?case by simp
next
  case (Suc k)
  have l: "[i..<i + Suc k] = i # [Suc i..<Suc i + k]"
    by (simp add: upt_rec)
  have d: "datas off = Str (D i)" and c: "chain datas (off + length (D i)) (map D [Suc i..<Suc i + k])"
    using Suc.prems(3) unfolding l by auto
  have "fits_leaf (D i)" using Suc.prems by simp
  have o: "off < 2 ^ 31" "off + length (D i) + length (concat (map D [Suc i..<Suc i + k])) < 2 ^ 31"
    using Suc.prems(5) unfolding l by simp_all
  have "hash_node m (paint m mt n D (insert i {n..<i}) {n..<i}) i =
    Inr (0, paint m mt n D (insert i {n..<i}) (insert i {n..<i}))"
    using Suc.prems assms(1) by (intro hash_leaf_paint) auto
  then have "build_leaves m datas (Suc k) i (word_of_nat off) (paint m mt n D {n..<i} {n..<i}) =
    build_leaves m datas k (Suc i) (word_of_nat (off + length (D i))) (paint m mt n D {n..<Suc i} {n..<Suc i})"
    using Suc.prems(1) d \<open>fits_leaf (D i)\<close> o(1)
    by (simp add: set_leaf_paint fits_leaf_def not_le upto_insert)
  also have "\<dots> = Inr (0, paint m mt n D {n..<2 * n} {n..<2 * n})"
    using Suc.prems c o(2) by (intro Suc.IH) auto
  finally show ?case .
qed

text \<open>The tree \<open>build_tree\<close> makes of a list of pages.\<close>

definition leaf_data :: "nat \<Rightarrow> string list \<Rightarrow> nat \<Rightarrow> string" where
  "leaf_data n ds i = ds ! (i - n)"

definition built :: "memory \<Rightarrow> merkle_tree \<Rightarrow> string list \<Rightarrow> merkle_tree" where
  "built m mt ds = paint m mt (length ds) (leaf_data (length ds) ds)
     {length ds..<2 * length ds} {1..<2 * length ds}"

lemma map_leaf_data: "map (leaf_data n ds) [n..<n + length ds] = ds"
  by (rule nth_equalityI) (auto simp: leaf_data_def)

lemma length_concat_le: "\<forall>d\<in>set ds. length d \<le> n \<Longrightarrow> length (concat ds) \<le> n * length ds"
  by (induction ds) auto

lemma build_tree_built:
  assumes "clean m" and "valid_height (tree_height mt)" and "length ds = 2 ^ (tree_height mt - 1)"
    and "chain datas 0 ds" and "\<forall>d\<in>set ds. fits_leaf d" and "length (concat ds) < 2 ^ 31"
  shows "build_tree m mt datas = Inr (0, built m mt ds)"
proof -
  let ?n = "length ds" and ?D = "leaf_data (length ds) ds"
  have ls: "leaf_start mt = Inr ?n" using assms leaf_start_height by simp
  have "tree_height mt > 0" using assms(2) by (simp add: valid_height_def)
  then have sh: "shl_one (int (tree_height mt)) = Inr (2 * ?n)"
    using assms(2) pow2_Suc_diff [of "tree_height mt"] by (simp add: valid_height_def assms(3))
  have "?n > 0" using assms(3) by simp
  have "build_leaves m datas ?n ?n (word_of_nat 0) (paint m mt ?n ?D {?n..<?n} {?n..<?n}) =
    Inr (0, paint m mt ?n ?D {?n..<2 * ?n} {?n..<2 * ?n})"
    using assms(4-6) ls map_leaf_data [of ?n ds]
    by (intro build_leaves_paint) (auto simp: leaf_data_def)
  then have b: "build_leaves m datas ?n ?n 0 (new_nodes m mt (2 * ?n)) =
    Inr (0, paint m mt ?n ?D {?n..<2 * ?n} {?n..<2 * ?n})"
    by (simp add: new_nodes_paint [where D = ?D])
  have "?n - 1 < 2 * ?n" using \<open>?n > 0\<close> by linarith
  then have "hash_down m (?n - 1) (paint m mt ?n ?D {?n..<2 * ?n} {?n..<2 * ?n}) = Inr (0, built m mt ds)"
    using assms(1) ls \<open>?n > 0\<close> unfolding built_def by (intro hash_down_paint) auto
  then show ?thesis
    using b ls sh by (simp add: build_tree_def mult_2)
qed

text \<open>A null pointer in the array ends the construction with the error return.\<close>

lemma build_leaves_null:
  assumes "leaf_start mt = Inr n" and "n \<le> i" and "i + k = 2 * n" and "length ds < k"
    and "chain datas off ds" and "datas (off + length (concat ds)) = Null" and "\<forall>d\<in>set ds. fits_leaf d"
    and "\<forall>j<length ds. D (i + j) = ds ! j" and "off + length (concat ds) < 2 ^ 31"
  shows "\<exists>mt'. build_leaves m datas k i (word_of_nat off) (paint m mt n D {n..<i} {n..<i}) = Inr (-1, mt')"
  using assms(2-)
proof (induction k arbitrary: i off ds)
  case 0
  then show ?case by simp
next
  case (Suc k)
  show ?case
  proof (cases ds)
    case Nil
    then show ?thesis using Suc.prems by simp
  next
    case (Cons d ds')
    have "D i = d" using Suc.prems(7) Cons by force
    have "\<forall>j<length ds'. D (Suc i + j) = ds' ! j" using Suc.prems(7) Cons by force
    have "hash_node m (paint m mt n D (insert i {n..<i}) {n..<i}) i =
      Inr (0, paint m mt n D (insert i {n..<i}) (insert i {n..<i}))"
      using Suc.prems assms(1) by (intro hash_leaf_paint) auto
    then have "build_leaves m datas (Suc k) i (word_of_nat off) (paint m mt n D {n..<i} {n..<i}) =
      build_leaves m datas k (Suc i) (word_of_nat (off + length d)) (paint m mt n D {n..<Suc i} {n..<Suc i})"
      using Suc.prems Cons \<open>D i = d\<close> set_leaf_paint [of i "{n..<i}" m mt n D "{n..<i}"]
      by (simp add: fits_leaf_def not_le upto_insert)
    also have "\<exists>mt'. \<dots> = Inr (-1, mt')"
      using Suc.prems Cons \<open>\<forall>j<length ds'. D (Suc i + j) = ds' ! j\<close>
      by (intro Suc.IH [where ds = ds']) (auto simp: add.assoc)
    finally show ?thesis .
  qed
qed

end
