(* ===== verification/Tree_Invariant.thy ===== *)
theory Tree_Invariant
  imports Merkle
begin

text \<open>
  The invariant of a Merkle tree between two operations of the program, that \<open>build_tree\<close>
  establishes it, that \<open>hash_node\<close> keeps and repairs it, and what it is good for: the leaf
  hashes determine every other hash, and pages that differ give roots that differ unless the
  digest, as the tree shortens it, collides on strings that were really hashed.
\<close>


section \<open>The invariant\<close>

definition hash_at :: "merkle_tree \<Rightarrow> nat \<Rightarrow> string" where
  "hash_at mt i = (case hash (nodes mt i) of Str s \<Rightarrow> s | _ \<Rightarrow> [])"

definition data_at :: "merkle_tree \<Rightarrow> nat \<Rightarrow> string" where
  "data_at mt i = (case data (nodes mt i) of Str s \<Rightarrow> s | _ \<Rightarrow> [])"

definition has_hash :: "merkle_tree \<Rightarrow> nat \<Rightarrow> bool" where
  "has_hash mt i \<longleftrightarrow> hash (nodes mt i) = Str (hash_at mt i) \<and> is_hash (hash_at mt i)"

definition shaped :: "merkle_tree \<Rightarrow> bool" where
  "shaped mt \<longleftrightarrow> valid_height (tree_height mt) \<and> nb_nodes mt = 2 ^ tree_height mt"

definition first_leaf :: "merkle_tree \<Rightarrow> nat" where
  "first_leaf mt = 2 ^ (tree_height mt - 1)"

definition all_hashed :: "merkle_tree \<Rightarrow> bool" where
  "all_hashed mt \<longleftrightarrow> shaped mt \<and> (\<forall>i\<in>{1..<nb_nodes mt}. has_hash mt i)"

definition consistent_at :: "merkle_tree \<Rightarrow> nat \<Rightarrow> bool" where
  "consistent_at mt i \<longleftrightarrow> hash_at mt i = inner_hash (hash_at mt (2 * i)) (hash_at mt (2 * i + 1))"

definition merkle_inv :: "merkle_tree \<Rightarrow> bool" where
  "merkle_inv mt \<longleftrightarrow> all_hashed mt \<and> (\<forall>i\<in>{1..<first_leaf mt}. consistent_at mt i)"

text \<open>The leaves carry their pages. A tree read back from its string has hashes only.\<close>

definition leaf_ok :: "merkle_tree \<Rightarrow> nat \<Rightarrow> bool" where
  "leaf_ok mt i \<longleftrightarrow>
     data (nodes mt i) = Str (data_at mt i) \<and> hash_at mt i = digest_string (data_at mt i)"

definition full_inv :: "merkle_tree \<Rightarrow> bool" where
  "full_inv mt \<longleftrightarrow> merkle_inv mt \<and> (\<forall>i\<in>{first_leaf mt..<nb_nodes mt}. leaf_ok mt i)"

lemma shaped_nb: "shaped mt \<Longrightarrow> nb_nodes mt = 2 * first_leaf mt"
  using pow2_Suc_diff [of "tree_height mt"] by (auto simp: shaped_def first_leaf_def valid_height_def)

lemma first_leaf_pos [simp]: "0 < first_leaf mt"
  by (simp add: first_leaf_def)

lemma shaped_leaf_start: "shaped mt \<Longrightarrow> leaf_start mt = Inr (first_leaf mt)"
  unfolding first_leaf_def by (rule leaf_start_height) (simp add: shaped_def)

lemma all_hashedD:
  assumes "all_hashed mt" and "0 < i" and "i < nb_nodes mt"
  shows "hash (nodes mt i) = Str (hash_at mt i)" and "is_hash (hash_at mt i)"
  using assms by (auto simp: all_hashed_def has_hash_def)

lemma merkle_inv_all: "merkle_inv mt \<Longrightarrow> all_hashed mt"
  by (simp add: merkle_inv_def)

lemma all_hashed_shaped: "all_hashed mt \<Longrightarrow> shaped mt"
  by (simp add: all_hashed_def)

lemma full_inv_merkle: "full_inv mt \<Longrightarrow> merkle_inv mt"
  by (simp add: full_inv_def)

lemmas inv_lessons = merkle_inv_all all_hashed_shaped full_inv_merkle

lemma set_hash_at [simp]:
  "hash_at (set_hash mt i (Str s)) j = (if j = i then s else hash_at mt j)"
  "data_at (set_hash mt i p) j = data_at mt j"
  "first_leaf (set_hash mt i p) = first_leaf mt"
  "shaped (set_hash mt i p) = shaped mt"
  by (simp_all add: hash_at_def data_at_def first_leaf_def shaped_def)

lemma set_data_at [simp]:
  "hash_at (set_data mt i p) j = hash_at mt j"
  "data_at (set_data mt i (Str s)) j = (if j = i then s else data_at mt j)"
  "first_leaf (set_data mt i p) = first_leaf mt"
  "shaped (set_data mt i p) = shaped mt"
  by (simp_all add: hash_at_def data_at_def first_leaf_def shaped_def)

lemma all_hashed_set_data [simp]: "all_hashed (set_data mt i p) = all_hashed mt"
  by (simp add: all_hashed_def has_hash_def)

lemma merkle_inv_set_data [simp]: "merkle_inv (set_data mt i p) = merkle_inv mt"
  by (simp add: merkle_inv_def consistent_at_def)

lemma all_hashed_set_hash: "all_hashed mt \<Longrightarrow> is_hash s \<Longrightarrow> all_hashed (set_hash mt i (Str s))"
  by (auto simp: all_hashed_def has_hash_def)


section \<open>Hashing the nodes of a finished tree\<close>

text \<open>What \<open>hash_node\<close> stores in a node, given the tree.\<close>

definition node_input :: "merkle_tree \<Rightarrow> nat \<Rightarrow> string" where
  "node_input mt i =
     (if i < first_leaf mt then take 32 (hash_at mt (2 * i)) @ take 32 (hash_at mt (2 * i + 1))
      else data_at mt i)"

lemma hash_node_inner_inv:
  assumes "clean m" and "all_hashed mt" and "0 < i" and "i < first_leaf mt"
  shows "hash_node m mt i = Inr (0, set_hash mt i (Str (digest_string (node_input mt i))))"
proof -
  have "nb_nodes mt = 2 * first_leaf mt" using assms inv_lessons shaped_nb by blast
  then show ?thesis
    using assms shaped_leaf_start [OF all_hashed_shaped]
    by (subst hash_node_inner [where l = "hash_at mt (2 * i)" and r = "hash_at mt (2 * i + 1)"])
       (auto simp: all_hashedD node_input_def inner_hash_def)
qed

lemma hash_node_leaf_inv:
  assumes "shaped mt" and "first_leaf mt \<le> i" and "i < nb_nodes mt" and "data (nodes mt i) = Str s"
  shows "hash_node m mt i = Inr (0, set_hash mt i (Str (digest_string s)))"
  using assms shaped_leaf_start by (intro hash_node_leaf) auto

lemma hash_node_out_of_range: "nb_nodes mt \<le> i \<Longrightarrow> hash_node m mt i = Inr (-1, mt)"
  by (simp add: hash_node_def)

lemma hash_node_leaf_null:
  assumes "shaped mt" and "first_leaf mt \<le> i" and "i < nb_nodes mt" and "data (nodes mt i) = Null"
  shows "hash_node m mt i = Inr (-1, mt)"
  using assms shaped_leaf_start by (simp add: hash_node_def)

lemma consistent_input:
  "i < first_leaf mt \<Longrightarrow> consistent_at mt i \<longleftrightarrow> hash_at mt i = digest_string (node_input mt i)"
  by (simp add: consistent_at_def node_input_def inner_hash_def)

text \<open>In a tree with the full invariant every hash is the digest of the node's input.\<close>

lemma full_inv_input:
  assumes "full_inv mt" and "0 < i" and "i < nb_nodes mt"
  shows "hash_at mt i = digest_string (node_input mt i)"
proof (cases "i < first_leaf mt")
  case True
  then show ?thesis using assms by (auto simp: full_inv_def merkle_inv_def simp flip: consistent_input)
next
  case False
  then show ?thesis using assms by (simp add: full_inv_def leaf_ok_def node_input_def)
qed


section \<open>Leaf hashes determine the tree\<close>

lemma merkle_inv_node_hash:
  assumes "merkle_inv mt" and "0 < i" and "i < nb_nodes mt"
  shows "hash_at mt i = node_hash (first_leaf mt) (hash_at mt) i"
  using assms(2,3)
proof (induction "nb_nodes mt - i" arbitrary: i rule: less_induct)
  case less
  have nb: "nb_nodes mt = 2 * first_leaf mt" using assms(1) inv_lessons shaped_nb by blast
  show ?case
  proof (cases "i < first_leaf mt")
    case True
    then have "consistent_at mt i" using assms(1) less.prems by (simp add: merkle_inv_def)
    moreover have "hash_at mt (2 * i) = node_hash (first_leaf mt) (hash_at mt) (2 * i)"
      and "hash_at mt (2 * i + 1) = node_hash (first_leaf mt) (hash_at mt) (2 * i + 1)"
      using less.prems True nb by (auto intro!: less.hyps)
    ultimately show ?thesis
      using True less.prems node_hash_inner [of i "first_leaf mt" "hash_at mt"]
      by (simp only: consistent_at_def)
  qed simp
qed

lemma node_hash_cong:
  assumes "\<And>j. n \<le> j \<Longrightarrow> j < 2 * n \<Longrightarrow> L j = L' j" and "0 < i" and "i < 2 * n"
  shows "node_hash n L i = node_hash n L' i"
  using assms(2,3)
proof (induction "2 * n - i" arbitrary: i rule: less_induct)
  case less
  show ?case
  proof (cases "i < n")
    case True
    have "node_hash n L (2 * i) = node_hash n L' (2 * i)"
      and "node_hash n L (2 * i + 1) = node_hash n L' (2 * i + 1)"
      using less.prems True by (auto intro!: less.hyps)
    then show ?thesis using True less.prems by (simp add: node_hash_inner)
  qed (use assms(1) less.prems in simp)
qed

lemma leaf_hashes_determine:
  assumes "merkle_inv a" and "merkle_inv b" and "tree_height a = tree_height b"
    and "\<And>j. first_leaf a \<le> j \<Longrightarrow> j < nb_nodes a \<Longrightarrow> hash_at a j = hash_at b j"
    and "0 < i" and "i < nb_nodes a"
  shows "hash_at a i = hash_at b i"
proof -
  have f: "first_leaf a = first_leaf b" using assms(3) by (simp add: first_leaf_def)
  have nb: "nb_nodes a = 2 * first_leaf a" "nb_nodes b = 2 * first_leaf b"
    using assms(1,2) inv_lessons shaped_nb by blast+
  have "node_hash (first_leaf a) (hash_at a) i = node_hash (first_leaf a) (hash_at b) i"
    using assms(4-) nb by (intro node_hash_cong) auto
  moreover have "i < nb_nodes b" using assms(6) nb f by simp
  ultimately show ?thesis
    using merkle_inv_node_hash [OF assms(1,5,6)] merkle_inv_node_hash [OF assms(2,5)] f by simp
qed


section \<open>The tree of a list of pages\<close>

lemma built_simps [simp]:
  "nb_nodes (built m mt ds) = 2 * length ds" "tree_height (built m mt ds) = tree_height mt"
  by (simp_all add: built_def)

lemma built_hash:
  assumes "0 < i" and "i < 2 * length ds"
  shows "hash (nodes (built m mt ds) i) =
    Str (node_hash (length ds) (\<lambda>j. digest_string (leaf_data (length ds) ds j)) i)"
  using assms unfolding built_def by (intro paint_hash) simp

lemma built_data:
  assumes "length ds \<le> i" and "i < 2 * length ds"
  shows "data (nodes (built m mt ds) i) = Str (ds ! (i - length ds))"
  using assms paint_hash(2) [of i "{length ds..<2 * length ds}"]
  unfolding built_def by (simp add: leaf_data_def)

lemma built_hash_at:
  assumes "0 < i" and "i < 2 * length ds"
  shows "hash_at (built m mt ds) i =
    node_hash (length ds) (\<lambda>j. digest_string (leaf_data (length ds) ds j)) i"
  using assms by (simp add: hash_at_def built_hash)

text \<open>The number of pages a tree of height \<open>h\<close> takes.\<close>

definition page_count :: "nat \<Rightarrow> string list \<Rightarrow> bool" where
  "page_count h ds \<longleftrightarrow> valid_height h \<and> length ds = 2 ^ (h - 1)"

lemma page_count_twice: "page_count h ds \<Longrightarrow> 2 * length ds = 2 ^ h"
  using pow2_Suc_diff [of h] by (auto simp: page_count_def valid_height_def)

lemma built_shaped: "page_count (tree_height mt) ds \<Longrightarrow> shaped (built m mt ds)"
  by (auto simp: shaped_def page_count_twice) (simp add: page_count_def)

lemma built_first_leaf: "page_count (tree_height mt) ds \<Longrightarrow> first_leaf (built m mt ds) = length ds"
  by (simp add: first_leaf_def page_count_def)

lemma built_full_inv:
  assumes "page_count (tree_height mt) ds"
  shows "full_inv (built m mt ds)"
proof -
  let ?T = "built m mt ds"
  note f = built_first_leaf [OF assms, of m]
  have "has_hash ?T i" if "0 < i" "i < 2 * length ds" for i
    using that by (simp add: has_hash_def built_hash hash_at_def is_hash_node_hash)
  then have a: "all_hashed ?T" using built_shaped [OF assms] by (simp add: all_hashed_def)
  have "consistent_at ?T i" if "0 < i" "i < length ds" for i
    using that node_hash_inner [of i "length ds"] by (simp add: consistent_at_def built_hash_at)
  with a have "merkle_inv ?T" by (simp add: merkle_inv_def f)
  moreover have "leaf_ok ?T i" if "length ds \<le> i" "i < 2 * length ds" for i
    using that by (simp add: leaf_ok_def built_data data_at_def built_hash_at leaf_data_def)
  ultimately show ?thesis by (simp add: full_inv_def f)
qed

lemma built_data_at:
  "length ds \<le> i \<Longrightarrow> i < 2 * length ds \<Longrightarrow> data_at (built m mt ds) i = ds ! (i - length ds)"
  by (simp add: data_at_def built_data)

text \<open>
  The specification of the root without any array: the digest of the two halves, down to the
  digests of the single pages.
\<close>

function root_hash :: "string list \<Rightarrow> string" where
  "root_hash hs =
     (if length hs \<le> 1 then hd hs
      else inner_hash (root_hash (take (length hs div 2) hs)) (root_hash (drop (length hs div 2) hs)))"
  by pat_completeness auto
termination
  by (relation "measure length") auto

declare root_hash.simps [simp del]

lemma root_hash_single [simp]: "root_hash [h] = h"
  by (simp add: root_hash.simps)

lemma root_hash_append:
  "length xs = length ys \<Longrightarrow> xs \<noteq> [] \<Longrightarrow>
   root_hash (xs @ ys) = inner_hash (root_hash xs) (root_hash ys)"
  by (cases xs; cases ys) (simp_all add: root_hash.simps [of "_ # _ @ _"])

text \<open>A node \<open>k\<close> levels above the leaves has the root hash of the leaves below it.\<close>

lemma node_hash_subtree:
  assumes "k \<le> p" and "2 ^ (p - k) \<le> i" and "i < 2 * 2 ^ (p - k)"
  shows "node_hash (2 ^ p) L i = root_hash (map L [i * 2 ^ k..<(i + 1) * 2 ^ k])"
  using assms
proof (induction k arbitrary: i)
  case 0
  then show ?case by simp
next
  case (Suc k)
  have p: "(2::nat) ^ (p - k) = 2 * 2 ^ (p - Suc k)"
    using Suc.prems(1) by (simp flip: power_Suc add: Suc_diff_Suc)
  have "(2::nat) ^ (p - k) \<le> 2 ^ p" by (simp add: power_increasing)
  then have "i < 2 ^ p" using p Suc.prems(3) by linarith
  have "0 < i" using Suc.prems(2) by (metis gr0I le_zero_eq power_not_zero zero_neq_numeral)
  have l: "node_hash (2 ^ p) L (2 * i) = root_hash (map L [2 * i * 2 ^ k..<(2 * i + 1) * 2 ^ k])"
    using Suc.prems p by (intro Suc.IH) auto
  have r: "node_hash (2 ^ p) L (2 * i + 1) =
    root_hash (map L [(2 * i + 1) * 2 ^ k..<(2 * i + 1 + 1) * 2 ^ k])"
    using Suc.prems p by (intro Suc.IH) auto
  have s: "[i * 2 ^ Suc k..<(i + 1) * 2 ^ Suc k] =
    [2 * i * 2 ^ k..<(2 * i + 1) * 2 ^ k] @ [(2 * i + 1) * 2 ^ k..<(2 * i + 1 + 1) * 2 ^ k]"
    using upt_add_eq_append [of "2 * i * 2 ^ k" "(2 * i + 1) * 2 ^ k" "2 ^ k"]
    by (simp add: algebra_simps)
  show ?case
    unfolding s map_append node_hash_inner [OF \<open>0 < i\<close> \<open>i < 2 ^ p\<close>] l r
    by (rule root_hash_append [symmetric]) auto
qed

lemma root_of_built:
  assumes "page_count (tree_height mt) ds"
  shows "hash_at (built m mt ds) 1 = root_hash (map digest_string ds)"
proof -
  let ?n = "length ds" and ?p = "tree_height mt - 1"
  let ?L = "\<lambda>j. digest_string (leaf_data ?n ds j)"
  have n: "?n = 2 ^ ?p" using assms by (simp add: page_count_def)
  have "0 < ?n" unfolding n by simp
  then have "1 < 2 * ?n" by linarith
  then have "hash_at (built m mt ds) 1 = node_hash ?n ?L 1" by (intro built_hash_at) auto
  also have "\<dots> = root_hash (map ?L [1 * 2 ^ ?p..<(1 + 1) * 2 ^ ?p])"
    using node_hash_subtree [of ?p ?p 1 ?L] n by simp
  also have "map ?L [1 * 2 ^ ?p..<(1 + 1) * 2 ^ ?p] = map digest_string (map (leaf_data ?n ds) [?n..<?n + ?n])"
    by (simp add: n mult_2)
  finally show ?thesis by (simp only: map_leaf_data)
qed


section \<open>Differing pages give differing roots\<close>

lemma inner_input_eq:
  assumes "is_hash l" "is_hash r" "is_hash l'" "is_hash r'"
    and "take 32 l @ take 32 r = take 32 l' @ take 32 r'"
  shows "take 32 l = take 32 l' \<and> take 32 r = take 32 r'"
  using assms by (simp add: is_hash_def append_eq_append_conv)

definition collides_at :: "merkle_tree \<Rightarrow> merkle_tree \<Rightarrow> nat \<Rightarrow> bool" where
  "collides_at a b j \<longleftrightarrow> node_input a j \<noteq> node_input b j \<and>
     take 32 (digest_string (node_input a j)) = take 32 (digest_string (node_input b j))"

lemma descend:
  assumes "full_inv a" and "full_inv b" and "tree_height a = tree_height b"
    and "first_leaf a \<le> i" and "i < nb_nodes a" and "data_at a i \<noteq> data_at b i"
    and "0 < i div 2 ^ d" and "take 32 (hash_at a (i div 2 ^ d)) = take 32 (hash_at b (i div 2 ^ d))"
  shows "\<exists>k\<le>d. collides_at a b (i div 2 ^ k)"
  using assms(7,8)
proof (induction d)
  have f: "first_leaf a = first_leaf b" using assms(3) by (simp add: first_leaf_def)
  have nb: "nb_nodes a = 2 * first_leaf a" "nb_nodes b = 2 * first_leaf b"
    using assms(1,2) inv_lessons shaped_nb by blast+
  note inp = full_inv_input [OF assms(1)] full_inv_input [OF assms(2)]
  {
    case 0
    have "collides_at a b i"
      using 0 assms(4-6) inp [of i] f nb by (simp add: collides_at_def node_input_def)
    then show ?case by (intro exI [of _ 0]) simp
  next
    case (Suc d)
    let ?j = "i div 2 ^ Suc d" and ?c = "i div 2 ^ d"
    have j: "?j = ?c div 2" by (metis div_mult2_eq power_Suc2)
    have "?c \<le> i" by simp
    then have "?j < nb_nodes a" "?c < nb_nodes a" using assms(5) j by linarith+
    show ?case
    proof (cases "node_input a ?j = node_input b ?j")
      case False
      then have "collides_at a b ?j"
        using Suc.prems \<open>?j < nb_nodes a\<close> inp [of ?j] f nb by (simp add: collides_at_def)
      then show ?thesis by blast
    next
      case True
      have "?j < first_leaf a" using \<open>?c < nb_nodes a\<close> j nb by linarith
      have h: "is_hash (hash_at a x)" "is_hash (hash_at b x)" if "0 < x" "x < nb_nodes a" for x
        using that f nb assms(1,2) inv_lessons all_hashedD(2) by metis+
      have "take 32 (hash_at a (2 * ?j)) = take 32 (hash_at b (2 * ?j)) \<and>
        take 32 (hash_at a (2 * ?j + 1)) = take 32 (hash_at b (2 * ?j + 1))"
        using True \<open>?j < first_leaf a\<close> Suc.prems(1) nb f
        by (intro inner_input_eq h) (auto simp: node_input_def)
      moreover have "?c = 2 * ?j \<or> ?c = 2 * ?j + 1" using j by linarith
      ultimately have "take 32 (hash_at a ?c) = take 32 (hash_at b ?c)" by metis
      moreover have "0 < ?c" using Suc.prems(1) j by linarith
      ultimately show ?thesis using Suc.IH le_SucI by blast
    qed
  }
qed

lemma leaf_root: "first_leaf a \<le> i \<Longrightarrow> i < 2 * first_leaf a \<Longrightarrow> i div 2 ^ (tree_height a - 1) = 1"
  unfolding first_leaf_def by (rule div_nat_eqI) auto

lemma pages_differ_roots_differ:
  assumes "full_inv a" and "full_inv b" and "tree_height a = tree_height b"
    and "first_leaf a \<le> i" and "i < nb_nodes a" and "data_at a i \<noteq> data_at b i"
    and "\<And>k. k < tree_height a \<Longrightarrow> \<not> collides_at a b (i div 2 ^ k)"
  shows "take 32 (hash_at a 1) \<noteq> take 32 (hash_at b 1)"
proof
  assume r: "take 32 (hash_at a 1) = take 32 (hash_at b 1)"
  let ?d = "tree_height a - 1"
  have s: "shaped a" using assms(1) inv_lessons by blast
  then have "i div 2 ^ ?d = 1" using assms(4,5) leaf_root shaped_nb by simp
  then obtain k where "k \<le> ?d" "collides_at a b (i div 2 ^ k)"
    using descend [OF assms(1-6), of ?d] r by auto
  moreover have "?d < tree_height a" using s by (simp add: shaped_def valid_height_def)
  ultimately show False using assms(7) by fastforce
qed


section \<open>Properties\<close>

text \<open>A state of memory and an empty tree for the concrete instances.\<close>

definition plain_memory :: memory where
  "plain_memory = \<lparr>fresh_node = (\<lambda>i. \<lparr>data = Wild, hash = Wild\<rparr>), tail = (\<lambda>mt i. [nul]), spawns = (\<lambda>i. True)\<rparr>"

definition empty_tree :: "nat \<Rightarrow> merkle_tree" where
  "empty_tree h = \<lparr>nb_nodes = 0, tree_height = h, nb_of_leaves = 0, nodes = (\<lambda>i. \<lparr>data = Wild, hash = Wild\<rparr>)\<rparr>"

lemma plain_clean [simp]: "clean plain_memory"
  by (simp add: clean_def plain_memory_def)

lemma empty_tree_height [simp]: "tree_height (empty_tree h) = h"
  by (simp add: empty_tree_def)

lemma page_count_1 [simp]: "page_count (Suc 0) [x]"
  and page_count_2 [simp]: "page_count 2 [x, y]"
  and page_count_4 [simp]: "page_count 3 [x, y, z, w]"
  by (simp_all add: page_count_def valid_height_def)

text \<open>
  C9: on clean memory, for a height between 1 and 30 and an array that holds \<open>2 ^ (height - 1)\<close>
  pages, each at the sum of the lengths of those before it and short enough for its buffer, all of them together
  shorter than \<open>2 ^ 31\<close> so that the sum is an \<open>int\<close>, \<open>build_tree\<close> returns 0; the tree then satisfies the full invariant, its leaves hold the
  pages in order, and the hash of its root is that of the recursive specification.
\<close>

theorem build_tree_correct:
  assumes "clean m" and "page_count (tree_height mt) ds" and "chain datas 0 ds"
    and "\<forall>d\<in>set ds. fits_leaf d" and "length (concat ds) < 2 ^ 31"
  shows "\<exists>T. build_tree m mt datas = Inr (0, T) \<and> full_inv T \<and> tree_height T = tree_height mt \<and>
    map (data_at T) [first_leaf T..<nb_nodes T] = ds \<and>
    hash_at T 1 = root_hash (map digest_string ds)"
proof (intro exI conjI)
  show "build_tree m mt datas = Inr (0, built m mt ds)"
    using assms by (intro build_tree_built) (auto simp: page_count_def)
  show "map (data_at (built m mt ds)) [first_leaf (built m mt ds)..<nb_nodes (built m mt ds)] = ds"
    using built_first_leaf [OF assms(2)] by (auto intro!: nth_equalityI simp: built_data_at)
  show "hash_at (built m mt ds) 1 = root_hash (map digest_string ds)"
    using assms(2) by (rule root_of_built)
qed (use assms(2) in \<open>simp_all add: built_full_inv\<close>)

definition two_pages :: "nat \<Rightarrow> c_ptr" where
  "two_pages off = (if off = 0 then Str ''abc'' else if off = 3 then Str '' '' else Null)"

theorem build_tree_correct_witness:
  "\<exists>T. build_tree plain_memory (empty_tree 2) two_pages = Inr (0, T) \<and> full_inv T \<and>
    tree_height T = tree_height (empty_tree 2) \<and>
    map (data_at T) [first_leaf T..<nb_nodes T] = [''abc'', '' ''] \<and>
    hash_at T 1 = root_hash (map digest_string [''abc'', '' ''])"
  by (rule build_tree_correct) (simp_all add: two_pages_def fits_leaf_def size_defs)

text \<open>
  When the array has a null pointer after fewer pages than the tree has leaves,
  \<open>build_tree\<close> returns -1.
\<close>

theorem build_tree_null:
  assumes "valid_height (tree_height mt)" and "length ds < 2 ^ (tree_height mt - 1)"
    and "chain datas 0 ds" and "datas (length (concat ds)) = Null" and "\<forall>d\<in>set ds. fits_leaf d"
    and "length (concat ds) < 2 ^ 31"
  shows "\<exists>T. build_tree m mt datas = Inr (-1, T)"
proof -
  let ?n = "2 ^ (tree_height mt - 1) :: nat" and ?D = "leaf_data (2 ^ (tree_height mt - 1)) ds"
  have ls: "leaf_start mt = Inr ?n" using assms(1) by (rule leaf_start_height)
  have sh: "shl_one (int (tree_height mt)) = Inr (2 * ?n)"
    using assms(1) pow2_Suc_diff [of "tree_height mt"] by (simp add: valid_height_def)
  have "\<exists>mt'. build_leaves m datas ?n ?n (word_of_nat 0) (paint m mt ?n ?D {?n..<?n} {?n..<?n}) = Inr (-1, mt')"
    using assms ls by (intro build_leaves_null [where ds = ds]) (auto simp: leaf_data_def)
  then obtain mt' where "build_leaves m datas ?n ?n 0 (new_nodes m mt (2 * ?n)) = Inr (-1, mt')"
    by (auto simp: new_nodes_paint [where D = ?D])
  then show ?thesis using ls sh by (simp add: build_tree_def)
qed

theorem build_tree_null_witness:
  "\<exists>T. build_tree plain_memory (empty_tree 3) two_pages = Inr (-1, T)"
  by (rule build_tree_null [where ds = "[''abc'', '' '']"])
     (simp_all add: two_pages_def fits_leaf_def size_defs valid_height_def)


text \<open>
  The branches of \<open>hash_node\<close> that do not depend on the digest: outside the tree, on a leaf
  without data, on an inner node one of whose children has no hash, it returns -1 and leaves
  the tree alone; on a leaf with data it stores the digest of the data.
\<close>

theorem hash_node_cases:
  assumes "shaped mt"
  shows "(nb_nodes mt \<le> i \<longrightarrow> hash_node m mt i = Inr (-1, mt)) \<and>
    (first_leaf mt \<le> i \<and> i < nb_nodes mt \<and> data (nodes mt i) = Null \<longrightarrow> hash_node m mt i = Inr (-1, mt)) \<and>
    (i < first_leaf mt \<and> hash (nodes mt (2 * i)) = Null \<longrightarrow> hash_node m mt i = Inr (-1, mt)) \<and>
    (i < first_leaf mt \<and> hash (nodes mt (2 * i)) = Str l \<and> hash (nodes mt (2 * i + 1)) = Null \<longrightarrow>
       hash_node m mt i = Inr (-1, mt)) \<and>
    (first_leaf mt \<le> i \<and> i < nb_nodes mt \<and> data (nodes mt i) = Str s \<longrightarrow>
       hash_node m mt i = Inr (0, set_hash mt i (Str (digest_string s))))"
proof -
  have "hash_node m mt i = Inr (-1, mt)" if "i < first_leaf mt" "hash (nodes mt (2 * i)) = Null"
    using that shaped_nb [OF assms] shaped_leaf_start [OF assms] by (simp add: hash_node_def)
  moreover have "hash_node m mt i = Inr (-1, mt)"
    if "i < first_leaf mt" "hash (nodes mt (2 * i)) = Str l" "hash (nodes mt (2 * i + 1)) = Null"
    using that shaped_nb [OF assms] shaped_leaf_start [OF assms] by (simp add: hash_node_def)
  ultimately show ?thesis
    using hash_node_out_of_range hash_node_leaf_null [OF assms] hash_node_leaf_inv [OF assms] by blast
qed

text \<open>
  What \<open>sprintf\<close> and \<open>strcat\<close> make of a digest fits the buffer on the stack with its
  terminator, is long enough to be shortened to 32 characters, and has only hexadecimal
  digits in it, so that it contains neither a terminator nor a separator of the text form.
\<close>

theorem digest_string_fits:
  "length (digest_string s) + 1 \<le> HEX * HASH_SIZE div BYTE_SIZE \<and> HASH_SIZE div BYTE_SIZE \<le> length (digest_string s) \<and>
   set (digest_string s) \<subseteq> set hex_digits \<and> is_c_string (digest_string s)"
proof -
  have h: "is_hash (digest_string s)" by simp
  then have "is_c_string (digest_string s)" by (rule is_hash_c_string)
  then show ?thesis
    using h sha.fits_hash_string [of "map of_char s"]
    by (simp add: is_hash_def size_defs digest_string_def)
qed

text \<open>
  The text of a digest does not determine the digest: bytes below 16 are written with one
  digit, so different digests of 32 bytes have the same text.
\<close>

theorem hex_string_not_injective:
  "\<exists>d d' :: u8 list. length d = 32 \<and> length d' = 32 \<and> d \<noteq> d' \<and> hex_string d = hex_string d'"
proof (intro exI conjI)
  let ?z = "replicate 30 0x11 :: u8 list"
  show "hex_string (0x01 # 0x23 # ?z) = hex_string (0x12 # 0x03 # ?z)"
    by (simp add: hex_string_def hex_byte_def hex_digit_def)
  show "(0x01 # 0x23 # ?z) \<noteq> (0x12 # 0x03 # ?z)" by simp
qed simp_all

text \<open>
  C38: \<open>hash_node\<close> on an inner node, on memory that need not be clean: the digest is that of the
  two shortened hashes followed by whatever stands behind them in the buffer, up to the next
  terminator.
\<close>

theorem hash_node_reads_junk:
  assumes "all_hashed mt" and "0 < i" and "i < first_leaf mt" and "nul \<in> set (tail m mt i)"
  shows "hash_node m mt i = Inr (0, set_hash mt i (Str (digest_string
    (take 32 (hash_at mt (2 * i)) @ take 32 (hash_at mt (2 * i + 1)) @
     takeWhile (\<lambda>c. c \<noteq> nul) (tail m mt i)))))"
proof -
  let ?l = "hash_at mt (2 * i)" and ?r = "hash_at mt (2 * i + 1)"
  have nb: "nb_nodes mt = 2 * first_leaf mt" using assms inv_lessons shaped_nb by blast
  have h: "is_hash ?l" "is_hash ?r" "hash (nodes mt (2 * i)) = Str ?l" "hash (nodes mt (2 * i + 1)) = Str ?r"
    using assms nb by (auto intro: all_hashedD)
  have "is_c_string (take 32 ?l @ take 32 ?r)"
    using h by (simp add: is_hash_c_string is_c_string_take)
  then have "takeWhile (\<lambda>c. c \<noteq> nul) ((take 32 ?l @ take 32 ?r) @ tail m mt i) =
    (take 32 ?l @ take 32 ?r) @ takeWhile (\<lambda>c. c \<noteq> nul) (tail m mt i)"
    by (intro takeWhile_append2) (auto simp: is_c_string_def)
  then have "c_string (copy_hash ?l @ copy_hash ?r @ tail m mt i) =
    Inr (take 32 ?l @ take 32 ?r @ takeWhile (\<lambda>c. c \<noteq> nul) (tail m mt i))"
    using h assms(4) by (simp add: c_string_def copy_hash_is_hash)
  then show ?thesis
    using h assms nb shaped_leaf_start [OF all_hashed_shaped] by (simp add: hash_node_def)
qed

text \<open>
  C19: a page that differs shows in the root. For two arrays of pages, \<open>build_tree\<close> builds both trees, and when the
  pages differ at some place, and the digest as the tree shortens it does not collide on what \<open>build_tree\<close> hashed
  at a node on the path from this leaf to the root, the hashes of the roots differ, even when they are shortened.
\<close>

theorem tampering_changes_root:
  assumes "clean m" and "page_count (tree_height mt) ds" and "page_count (tree_height mt) es"
    and "chain datas 0 ds" and "chain datas' 0 es" and "\<forall>d\<in>set ds \<union> set es. fits_leaf d"
    and "length (concat ds) < 2 ^ 31" and "length (concat es) < 2 ^ 31"
    and "j < length ds" and "ds ! j \<noteq> es ! j"
  shows "\<exists>a b. build_tree m mt datas = Inr (0, a) \<and> build_tree m mt datas' = Inr (0, b) \<and>
    ((\<forall>k<tree_height mt. \<not> collides_at a b ((length ds + j) div 2 ^ k)) \<longrightarrow>
      take 32 (hash_at a 1) \<noteq> take 32 (hash_at b 1) \<and> hash_at a 1 \<noteq> hash_at b 1)"
proof (intro exI conjI)
  show "build_tree m mt datas = Inr (0, built m mt ds)" "build_tree m mt datas' = Inr (0, built m mt es)"
    using assms by (intro build_tree_built; simp add: page_count_def)+
  have n: "length es = length ds" using assms(2,3) by (simp add: page_count_def)
  note f = built_first_leaf [OF assms(2), of m]
  have "take 32 (hash_at (built m mt ds) 1) \<noteq> take 32 (hash_at (built m mt es) 1)"
    if "\<forall>k<tree_height mt. \<not> collides_at (built m mt ds) (built m mt es) ((length ds + j) div 2 ^ k)"
    using assms(9,10) that n f
    by (intro pages_differ_roots_differ [OF built_full_inv [OF assms(2)] built_full_inv [OF assms(3)], where i = "length ds + j"])
      (simp_all add: built_data_at)
  then show "(\<forall>k<tree_height mt. \<not> collides_at (built m mt ds) (built m mt es) ((length ds + j) div 2 ^ k)) \<longrightarrow>
      take 32 (hash_at (built m mt ds) 1) \<noteq> take 32 (hash_at (built m mt es) 1) \<and>
      hash_at (built m mt ds) 1 \<noteq> hash_at (built m mt es) 1" by metis
qed

text \<open>
  In a tree with the invariant the hashes of the leaves determine the hash of every node.
\<close>

theorem leaves_determine_hashes:
  assumes "merkle_inv a" and "merkle_inv b" and "tree_height a = tree_height b"
    and "\<forall>j\<in>{first_leaf a..<nb_nodes a}. hash_at a j = hash_at b j"
  shows "\<forall>i\<in>{1..<nb_nodes a}. hash_at a i = hash_at b i"
  using leaf_hashes_determine [OF assms(1-3)] assms(4) by auto

text \<open>Two trees of two pages that differ in the first one.\<close>

definition tree_abc :: merkle_tree where
  "tree_abc = built plain_memory (empty_tree 2) [''abc'', '' '']"

definition tree_blank :: merkle_tree where
  "tree_blank = built plain_memory (empty_tree 2) ['' '', '' '']"

lemma sample_full_inv [simp]: "full_inv tree_abc" "full_inv tree_blank"
  by (simp_all add: tree_abc_def tree_blank_def built_full_inv)

lemma sample_simps [simp]:
  "tree_height tree_abc = 2" "tree_height tree_blank = 2" "nb_nodes tree_abc = 4" "nb_nodes tree_blank = 4"
  "first_leaf tree_abc = 2" "first_leaf tree_blank = 2"
  by (simp_all add: tree_abc_def tree_blank_def first_leaf_def)

lemma digest_string_abc: "digest_string ''abc'' = ''3a985da74fe225b245c172d6bd390bd855f86e3e9d525b46bfe24511431532''"
  by (simp add: digest_string_def digest_abc hex_string_def hex_byte_def hex_digit_def)

lemma sample_data:
  "data_at tree_abc 2 = ''abc''" "data_at tree_abc 3 = '' ''"
  "data_at tree_blank 2 = '' ''" "data_at tree_blank 3 = '' ''"
  by (simp_all add: tree_abc_def tree_blank_def built_data_at)

lemma sample_leaves:
  "hash_at tree_abc 2 = digest_string ''abc''" "hash_at tree_abc 3 = space_hash"
  "hash_at tree_blank 2 = space_hash" "hash_at tree_blank 3 = space_hash"
  using full_inv_input [of tree_abc 2] full_inv_input [of tree_abc 3]
    full_inv_input [of tree_blank 2] full_inv_input [of tree_blank 3]
  by (simp_all add: node_input_def sample_data space_hash_eq)

lemma sample_roots:
  "digest_string (node_input tree_abc 1) = ''6df9964caed85889762e1d1a9af45b3e98ee066a02d33a6a629aeeedbdbd6bf''"
  "digest_string (node_input tree_blank 1) = ''dc92b2771bc461f64e8532b8b933d95060d94ae54070e6b74e6a1d2e39f68''"
  by (simp_all add: node_input_def sample_leaves [simplified] digest_string_abc space_hash_def)
     (simp_all add: digest_string_def digest_two_fillers digest_abc_filler
       hex_string_def hex_byte_def hex_digit_def)

lemma tree_abc_blank_differ: "k < 2 \<Longrightarrow> \<not> collides_at tree_abc tree_blank (2 div 2 ^ k)"
proof -
  assume "k < 2"
  then consider "k = 0" | "k = 1" by linarith
  then show ?thesis
  proof cases
    case 1
    then show ?thesis
      by (simp add: collides_at_def node_input_def sample_data digest_string_abc space_hash_eq space_hash_def)
  next
    case 2
    then have e: "2 div 2 ^ k = (1 :: nat)" by simp
    show ?thesis unfolding e collides_at_def sample_roots by simp
  qed
qed

definition two_blanks :: "nat \<Rightarrow> c_ptr" where
  "two_blanks off = Str '' ''"

theorem tampering_changes_root_witness:
  "\<exists>a b. build_tree plain_memory (empty_tree 2) two_pages = Inr (0, a) \<and>
    build_tree plain_memory (empty_tree 2) two_blanks = Inr (0, b) \<and> hash_at a 1 \<noteq> hash_at b 1"
proof -
  have c: "chain two_pages 0 [''abc'', '' '']" "chain two_blanks 0 ['' '', '' '']"
    by (simp_all add: two_pages_def two_blanks_def)
  have fit: "\<forall>d\<in>set [''abc'', '' ''] \<union> set ['' '', '' '']. fits_leaf d" by (simp add: fits_leaf_def size_defs)
  have "build_tree plain_memory (empty_tree 2) two_pages = Inr (0, tree_abc)"
    "build_tree plain_memory (empty_tree 2) two_blanks = Inr (0, tree_blank)"
    unfolding tree_abc_def tree_blank_def using c fit by (intro build_tree_built; simp add: valid_height_def)+
  moreover have "\<forall>k<tree_height (empty_tree 2). \<not> collides_at tree_abc tree_blank ((length [''abc'', '' ''] + 0) div 2 ^ k)"
    using tree_abc_blank_differ by (simp add: numeral_2_eq_2)
  moreover have "\<exists>a b. build_tree plain_memory (empty_tree 2) two_pages = Inr (0, a) \<and>
      build_tree plain_memory (empty_tree 2) two_blanks = Inr (0, b) \<and>
      ((\<forall>k<tree_height (empty_tree 2). \<not> collides_at a b ((length [''abc'', '' ''] + 0) div 2 ^ k)) \<longrightarrow>
        take 32 (hash_at a 1) \<noteq> take 32 (hash_at b 1) \<and> hash_at a 1 \<noteq> hash_at b 1)"
    using c fit by (intro tampering_changes_root [where es = "['' '', '' '']"]) simp_all
  ultimately show ?thesis by simp
qed

theorem leaves_determine_hashes_witness:
  "hash_at tree_abc 1 = hash_at (set_data tree_abc 2 Null) 1"
proof -
  have "\<forall>i\<in>{1..<nb_nodes tree_abc}. hash_at tree_abc i = hash_at (set_data tree_abc 2 Null) i"
    by (rule leaves_determine_hashes) (simp_all add: full_inv_merkle)
  then show ?thesis by simp
qed

theorem hash_node_cases_witness:
  "hash_node plain_memory tree_abc 9 = Inr (-1, tree_abc) \<and>
   hash_node plain_memory tree_abc 2 = Inr (0, set_hash tree_abc 2 (Str (digest_string ''abc'')))"
proof -
  have s: "shaped tree_abc" using inv_lessons sample_full_inv(1) by blast
  have "data (nodes tree_abc 2) = Str ''abc''"
    by (simp add: tree_abc_def built_data)
  then show ?thesis
    using hash_node_cases [OF s, of 9] hash_node_cases [OF s, of 2 plain_memory _ "''abc''"] by simp
qed

theorem hash_node_reads_junk_witness:
  "hash_node (plain_memory\<lparr>tail := \<lambda>mt i. ''xy'' @ [nul]\<rparr>) tree_abc 1 =
    Inr (0, set_hash tree_abc 1 (Str (digest_string
    (take 32 (hash_at tree_abc (2 * 1)) @ take 32 (hash_at tree_abc (2 * 1 + 1)) @ ''xy''))))"
  using hash_node_reads_junk [of tree_abc 1 "plain_memory\<lparr>tail := \<lambda>mt i. ''xy'' @ [nul]\<rparr>"]
    merkle_inv_all [OF full_inv_merkle [OF sample_full_inv(1)]]
  by simp

end
