(* ===== verification/Threads.thy ===== *)
theory Threads
  imports Tree_Invariant
begin

text \<open>
  The multi-threaded construction of \<^verbatim>\<open>merkle_tree/merkletree.c\<close>: \<open>set_tree_datas\<close>,
  \<open>m_hash_nodes\<close> and \<open>m_build_tree\<close>. A thread is the list of the nodes it still has to hash; one
  step of a thread hashes the first of them, and a schedule is the sequence of the threads that
  make a step. The theorems are about all schedules.
\<close>


section \<open>The code\<close>

fun store_leaves ::
  "(nat \<Rightarrow> c_ptr) \<Rightarrow> nat \<Rightarrow> nat \<Rightarrow> 32 word \<Rightarrow> merkle_tree \<Rightarrow> fault + int \<times> merkle_tree"
where
  "store_leaves datas 0 i total_size mt = Inr (0, mt)"
| "store_leaves datas (Suc k) i total_size mt =
     bind_c (slot datas total_size) (\<lambda>p.
     bind_c (is_set p) (\<lambda>ok.
     if \<not> ok then Inr (-1, set_data mt i Wild) else
     bind_c (deref p) (\<lambda>s.
     if 8 * 2 * PAGE_LENGTH \<le> length s then Inl Overrun
     else store_leaves datas k (i + 1) (total_size + word_of_nat (length s))
            (set_hash (set_data mt i (Str s)) i Null))))"

definition set_tree_datas ::
  "memory \<Rightarrow> merkle_tree \<Rightarrow> (nat \<Rightarrow> c_ptr) \<Rightarrow> fault + int \<times> merkle_tree"
where
  "set_tree_datas m mt datas =
     bind_c (leaf_start mt) (\<lambda>leaf_start_index.
     bind_c (shl_one (int (tree_height mt))) (\<lambda>n.
     store_leaves datas (n - leaf_start_index) leaf_start_index 0 (new_nodes m mt n)))"

text \<open>The nodes \<open>m_hash_nodes\<close> passes to \<open>hash_node\<close>, in order.\<close>

fun level_nodes :: "nat \<Rightarrow> nat \<Rightarrow> nat \<Rightarrow> nat list" where
  "level_nodes 0 start_index nb_leaves = []"
| "level_nodes (Suc l) start_index nb_leaves =
     [start_index..<start_index + nb_leaves] @ level_nodes l (start_index div 2) (nb_leaves div 2)"

definition m_hash_nodes :: "nat \<Rightarrow> nat \<Rightarrow> fault + nat list" where
  "m_hash_nodes start_index nb_leaves =
     bind_c (c_log2 nb_leaves) (\<lambda>nb_level. Inr (level_nodes nb_level start_index nb_leaves))"

text \<open>
  One step of a thread: an error of \<open>hash_node\<close> is only logged. At the end of the schedule the
  threads that are left are joined: what remains of them is run one after the other.
\<close>

fun hash_all :: "memory \<Rightarrow> nat list \<Rightarrow> merkle_tree \<Rightarrow> fault + merkle_tree" where
  "hash_all m [] mt = Inr mt"
| "hash_all m (j # js) mt = bind_c (hash_node m mt j) (\<lambda>(r, mt). hash_all m js mt)"

fun run_threads :: "memory \<Rightarrow> nat list \<Rightarrow> nat list list \<Rightarrow> merkle_tree \<Rightarrow> fault + nat list list \<times> merkle_tree"
where
  "run_threads m [] ws mt = Inr (ws, mt)"
| "run_threads m (t # sched) ws mt =
     (if t < length ws then
        case ws ! t of
          [] \<Rightarrow> run_threads m sched ws mt
        | j # js \<Rightarrow> bind_c (hash_node m mt j) (\<lambda>(r, mt). run_threads m sched (ws[t := js]) mt)
      else run_threads m sched ws mt)"

text \<open>Start node and number of leaves of thread \<open>i\<close> of \<open>t\<close>.\<close>

definition thread_arg :: "nat \<Rightarrow> nat \<Rightarrow> nat \<Rightarrow> nat \<times> nat" where
  "thread_arg ls t i =
     (let nb = ls div t in
      (ls + i * nb, if i < t - 1 then nb else nb + ls mod t))"

fun thread_works :: "(nat \<times> nat) list \<Rightarrow> fault + nat list list" where
  "thread_works [] = Inr []"
| "thread_works ((s, n) # as) =
     bind_c (m_hash_nodes s n) (\<lambda>w. bind_c (thread_works as) (\<lambda>ws. Inr (w # ws)))"

text \<open>
  When \<open>pthread_create\<close> fails for thread \<open>i\<close> the function returns while the threads before \<open>i\<close>
  are still running; the schedule says how far they have come.
\<close>

definition m_build_tree ::
  "memory \<Rightarrow> nat list \<Rightarrow> merkle_tree \<Rightarrow> (nat \<Rightarrow> c_ptr) \<Rightarrow> nat \<Rightarrow> fault + int \<times> merkle_tree"
where
  "m_build_tree m sched mt datas nb_of_threads =
     bind_c (leaf_start mt) (\<lambda>leaf_start_index.
     bind_c (set_tree_datas m mt datas) (\<lambda>(r, mt).
     if r = -1 then Inr (-1, mt) else
     if nb_of_threads = 0 then Inl Division_by_zero else
     let nb_leaves_per_thread = leaf_start_index div nb_of_threads in
     bind_c (c_log2 nb_leaves_per_thread) (\<lambda>l.
     bind_c (shl_one (int l - 1)) (\<lambda>d.
     let new_start_index = leaf_start_index div d;
         started = takeWhile (spawns m) [0..<nb_of_threads] in
     bind_c (thread_works (map (thread_arg leaf_start_index nb_of_threads) started)) (\<lambda>ws.
     bind_c (run_threads m sched ws mt) (\<lambda>(ws, mt).
     if length started < nb_of_threads then Inr (-1, mt)
     else bind_c (hash_all m (concat ws) mt) (hash_down m new_start_index)))))))"


section \<open>Storing the leaves\<close>

lemma store_leaves_paint:
  assumes "n \<le> i" and "i + k = 2 * n"
    and "chain datas off (map D [i..<i + k])" and "\<forall>j\<in>{i..<i + k}. fits_leaf (D j)"
    and "off + length (concat (map D [i..<i + k])) < 2 ^ 31"
  shows "store_leaves datas k i (word_of_nat off) (paint m mt n D {n..<i} {}) = Inr (0, paint m mt n D {n..<2 * n} {})"
  using assms
proof (induction k arbitrary: i off)
  case 0
  then show ?case by simp
next
  case (Suc k)
  have l: "[i..<i + Suc k] = i # [Suc i..<Suc i + k]"
    by (simp add: upt_rec)
  have d: "datas off = Str (D i)" and c: "chain datas (off + length (D i)) (map D [Suc i..<Suc i + k])"
    using Suc.prems(3) unfolding l by auto
  have o: "off < 2 ^ 31" "off + length (D i) + length (concat (map D [Suc i..<Suc i + k])) < 2 ^ 31"
    using Suc.prems(5) unfolding l by simp_all
  have "fits_leaf (D i)" using Suc.prems by simp
  then have "store_leaves datas (Suc k) i (word_of_nat off) (paint m mt n D {n..<i} {}) =
    store_leaves datas k (Suc i) (word_of_nat (off + length (D i))) (paint m mt n D {n..<Suc i} {})"
    using Suc.prems(1) d o(1) by (simp add: set_leaf_paint fits_leaf_def not_le upto_insert)
  also have "\<dots> = Inr (0, paint m mt n D {n..<2 * n} {})"
    using Suc.prems c o(2) by (intro Suc.IH) auto
  finally show ?case .
qed

lemma set_tree_datas_paint:
  assumes "page_count (tree_height mt) ds" and "chain datas 0 ds" and "\<forall>d\<in>set ds. fits_leaf d"
    and "length (concat ds) < 2 ^ 31"
  shows "set_tree_datas m mt datas = Inr (0,
    paint m mt (length ds) (leaf_data (length ds) ds) {length ds..<2 * length ds} {})"
proof -
  let ?n = "length ds" and ?D = "leaf_data (length ds) ds"
  have v: "valid_height (tree_height mt)" "?n = 2 ^ (tree_height mt - 1)"
    using assms(1) by (simp_all add: page_count_def)
  then have ls: "leaf_start mt = Inr ?n" by (simp add: leaf_start_height)
  have sh: "shl_one (int (tree_height mt)) = Inr (2 * ?n)"
    using v page_count_twice [OF assms(1)] by (simp add: valid_height_def)
  have "store_leaves datas ?n ?n (word_of_nat 0) (paint m mt ?n ?D {?n..<?n} {}) = Inr (0, paint m mt ?n ?D {?n..<2 * ?n} {})"
    using assms(2-4) map_leaf_data [of ?n ds]
    by (intro store_leaves_paint) (auto simp: leaf_data_def)
  then show ?thesis
    using ls sh by (simp add: set_tree_datas_def mult_2 new_nodes_paint [where D = ?D, simplified mult_2])
qed


section \<open>Threads that depend on nobody else\<close>

text \<open>Every node of the list has its inputs when those before it are hashed, and those in \<open>S\<close>.\<close>

fun ready_list :: "nat \<Rightarrow> nat set \<Rightarrow> nat list \<Rightarrow> bool" where
  "ready_list n S [] \<longleftrightarrow> True"
| "ready_list n S (j # js) \<longleftrightarrow> ready n S j \<and> ready_list n (insert j S) js"

lemma ready_list_mono: "ready_list n S js \<Longrightarrow> S \<subseteq> S' \<Longrightarrow> ready_list n S' js"
proof (induction js arbitrary: S S')
  case (Cons j js)
  then have "insert j S \<subseteq> insert j S'" by blast
  with Cons show ?case using ready_mono [of n S j S'] by auto
qed simp

lemma ready_list_append: "ready_list n S (xs @ ys) \<longleftrightarrow> ready_list n S xs \<and> ready_list n (S \<union> set xs) ys"
  by (induction xs arbitrary: S) auto

lemma ready_list_all: "(\<And>j. j \<in> set js \<Longrightarrow> ready n S j) \<Longrightarrow> ready_list n S js"
proof (induction js arbitrary: S)
  case (Cons j js)
  then have "ready n (insert j S) x" if "x \<in> set js" for x
    using that Cons.prems ready_mono [of n S x "insert j S"] by auto
  with Cons show ?case by simp
qed simp

lemma hash_all_paint:
  assumes "clean m" and "leaf_start mt = Inr n" and "ready_list n S js"
  shows "hash_all m js (paint m mt n D {n..<2 * n} S) = Inr (paint m mt n D {n..<2 * n} (S \<union> set js))"
  using assms(3)
proof (induction js arbitrary: S)
  case (Cons j js)
  then show ?case by (simp add: hash_node_paint_plain [OF assms(1,2)] Cons.IH)
qed simp

lemma ready_list_concat:
  assumes "\<And>w. w \<in> set ws \<Longrightarrow> ready_list n S w"
  shows "ready_list n S (concat ws)"
  using assms
proof (induction ws arbitrary: S)
  case (Cons w ws)
  have "ready_list n (S \<union> set w) v" if "v \<in> set ws" for v
    using that Cons.prems ready_list_mono [of n S v "S \<union> set w"] by auto
  with Cons show ?case by (auto simp: ready_list_append)
qed simp

text \<open>
  Whatever the schedule, the hashes that are done are final ones, and nothing is lost: the nodes
  done and those the threads still have are always the same set.
\<close>

lemma run_threads_paint:
  assumes "clean m" and "leaf_start mt = Inr n" and "\<And>w. w \<in> set ws \<Longrightarrow> ready_list n S w"
  shows "\<exists>ws' S'. run_threads m sched ws (paint m mt n D {n..<2 * n} S) =
      Inr (ws', paint m mt n D {n..<2 * n} S') \<and> (\<forall>w\<in>set ws'. ready_list n S' w) \<and>
      S' \<union> \<Union> (set ` set ws') = S \<union> \<Union> (set ` set ws)"
  using assms(3)
proof (induction sched arbitrary: ws S)
  case Nil
  then show ?case by auto
next
  case (Cons t sched)
  show ?case
  proof (cases "t < length ws \<and> ws ! t \<noteq> []")
    case False
    then have "run_threads m (t # sched) ws mt' = run_threads m sched ws mt'" for mt'
      by (cases "ws ! t") auto
    with Cons show ?thesis by simp
  next
    case True
    then obtain j js where w: "ws ! t = j # js" by (cases "ws ! t") auto
    have mem: "j # js \<in> set ws" using True w nth_mem by metis
    then have "ready n S j" and js: "ready_list n (insert j S) js" using Cons.prems by fastforce+
    let ?ws = "ws[t := js]"
    have r: "ready_list n (insert j S) v" if "v \<in> set ?ws" for v
    proof -
      have "v = js \<or> v \<in> set ws" using that set_update_subset_insert by fastforce
      then show ?thesis using js Cons.prems ready_list_mono [of n S v "insert j S"] by blast
    qed
    have "insert j S \<union> \<Union> (set ` set ?ws) = S \<union> \<Union> (set ` set ws)"
    proof -
      obtain a b where ab: "ws = a @ (j # js) # b" "?ws = a @ js # b"
        using True w id_take_nth_drop [of t ws] by (auto simp: upd_conv_take_nth_drop)
      show ?thesis unfolding ab(2) unfolding ab(1) by auto
    qed
    with Cons.IH [of ?ws "insert j S"] r show ?thesis
      using True w \<open>ready n S j\<close> by (simp add: hash_node_paint_plain [OF assms(1,2)])
  qed
qed



section \<open>The nodes of the threads\<close>

text \<open>A thread that starts at \<open>q * 2 ^ k\<close> with \<open>2 ^ k\<close> leaves owns part of the subtree of \<open>q\<close>.\<close>

lemma level_nodes_Suc:
  "level_nodes (Suc l) (q * 2 ^ Suc k) (2 ^ Suc k) =
   [q * 2 ^ Suc k..<(q + 1) * 2 ^ Suc k] @ level_nodes l (q * 2 ^ k) (2 ^ k)"
  by (simp add: add.commute)

lemma level_nodes_ready:
  assumes "l \<le> k" and "0 < q" and "(q + 1) * 2 ^ k \<le> 2 * n"
    and "n \<le> q * 2 ^ k \<or> {q * 2 ^ Suc k..<(q + 1) * 2 ^ Suc k} \<subseteq> S"
  shows "ready_list n S (level_nodes l (q * 2 ^ k) (2 ^ k))"
  using assms
proof (induction l arbitrary: k S)
  case 0
  then show ?case by simp
next
  case (Suc l)
  then obtain k' where k: "k = Suc k'" by (cases k) auto
  let ?B = "{q * 2 ^ k..<(q + 1) * 2 ^ k}"
  have "ready n S j" if j: "j \<in> ?B" for j
  proof -
    have "0 < q * 2 ^ k" using Suc.prems(2) by simp
    moreover have "q * 2 ^ k \<le> j" "j < (q + 1) * 2 ^ k" using j by simp_all
    ultimately have "0 < j \<and> j < 2 * n" using Suc.prems(3) by linarith
    moreover have "2 * j \<in> S \<and> 2 * j + 1 \<in> S" if "j < n"
    proof -
      have "\<not> n \<le> q * 2 ^ k" using that j by auto
      then have "{q * 2 ^ Suc k..<(q + 1) * 2 ^ Suc k} \<subseteq> S" using Suc.prems(4) by blast
      moreover have "2 * j \<in> {q * 2 ^ Suc k..<(q + 1) * 2 ^ Suc k}"
        and "2 * j + 1 \<in> {q * 2 ^ Suc k..<(q + 1) * 2 ^ Suc k}" using j by auto
      ultimately show ?thesis by blast
    qed
    ultimately show ?thesis by (simp add: ready_def)
  qed
  then have b: "ready_list n S [q * 2 ^ k..<(q + 1) * 2 ^ k]" by (intro ready_list_all) simp
  have "(q + 1) * 2 ^ k' \<le> 2 * n" using Suc.prems(3) k by simp
  then have "ready_list n (S \<union> ?B) (level_nodes l (q * 2 ^ k') (2 ^ k'))"
    using Suc.prems k by (intro Suc.IH) auto
  then show ?case
    using b unfolding k level_nodes_Suc ready_list_append set_upt by blast
qed

lemma set_level_nodes:
  "l \<le> k \<Longrightarrow> set (level_nodes l (q * 2 ^ k) (2 ^ k)) =
    (\<Union>j\<in>{k - l<..k}. {q * 2 ^ j..<(q + 1) * 2 ^ j})"
proof (induction l arbitrary: k)
  case 0
  then show ?case by simp
next
  case (Suc l)
  then obtain k' where k: "k = Suc k'" by (cases k) auto
  have "{k - Suc l<..k} = insert k {k' - l<..k'}" using k Suc.prems by auto
  then show ?case
    using Suc unfolding k by (simp only: level_nodes_Suc set_append set_upt UN_insert)
qed

lemma subtree_div: "x \<in> {q * 2 ^ j..<(q + 1) * 2 ^ j} \<longleftrightarrow> x div 2 ^ j = (q::nat)"
proof
  assume "x \<in> {q * 2 ^ j..<(q + 1) * 2 ^ j}"
  then show "x div 2 ^ j = q" by (intro div_nat_eqI) (auto simp: mult.commute)
next
  assume q: "x div 2 ^ j = q"
  have "q * 2 ^ j \<le> x" unfolding q [symmetric] by simp
  moreover have "x < (q + 1) * 2 ^ j"
    using dividend_less_div_times [of "2 ^ j" x] q by (simp add: add.commute)
  ultimately show "x \<in> {q * 2 ^ j..<(q + 1) * 2 ^ j}" by simp
qed

lemma in_level_nodes:
  "x \<in> set (level_nodes k (q * 2 ^ k) (2 ^ k)) \<longleftrightarrow> (\<exists>j. 0 < j \<and> j \<le> k \<and> x div 2 ^ j = q)"
  by (auto simp: set_level_nodes simp flip: subtree_div simp del: atLeastLessThan_iff)

lemma owner_unique:
  assumes "x div 2 ^ j = q" and "x div 2 ^ j' = q'" and "2 ^ b \<le> q" and "q < 2 * 2 ^ b"
    and "2 ^ b \<le> q'" and "q' < 2 * 2 ^ b"
  shows "q = (q' :: nat)"
proof -
  have "floor_log2 q = b" "floor_log2 q' = b" using assms floor_log2_unique by auto
  have lvl: "2 ^ (b + i) \<le> x \<and> x < 2 * 2 ^ (b + i)" if "x div 2 ^ i = r" "2 ^ b \<le> r" "r < 2 * 2 ^ b" for i r
  proof -
    have "x \<in> {r * 2 ^ i..<(r + 1) * 2 ^ i}" using that(1) subtree_div by blast
    then have "r * 2 ^ i \<le> x" "x < (r + 1) * 2 ^ i" by simp_all
    moreover have "2 ^ b * 2 ^ i \<le> r * 2 ^ i" using that(2) by (rule mult_right_mono) simp
    moreover have "(r + 1) * 2 ^ i \<le> 2 * 2 ^ b * 2 ^ i" using that(3) by (intro mult_right_mono) simp_all
    ultimately show ?thesis unfolding power_add by linarith
  qed
  have "b + j = b + j'"
    using lvl [OF assms(1,3,4)] lvl [OF assms(2,5,6)] floor_log2_unique by metis
  then show ?thesis using assms(1,2) by simp
qed



section \<open>Complete work of all threads\<close>

lemma thread_arg_pow2:
  assumes "b \<le> p" and "i < 2 ^ b"
  shows "thread_arg (2 ^ p) (2 ^ b) i = ((2 ^ b + i) * 2 ^ (p - b), 2 ^ (p - b))"
proof -
  have p: "(2::nat) ^ p = 2 ^ b * 2 ^ (p - b)" using assms(1) by (simp flip: power_add)
  have "(2::nat) ^ p div 2 ^ b = 2 ^ (p - b)" "(2::nat) ^ p mod 2 ^ b = 0"
    unfolding p by simp_all
  moreover have "2 ^ p + i * 2 ^ (p - b) = (2 ^ b + i) * 2 ^ (p - b)"
    unfolding p by (rule distrib_right [symmetric])
  ultimately show ?thesis by (simp only: thread_arg_def Let_def add_0_right if_cancel)
qed

lemma m_hash_nodes_pow2: "m_hash_nodes s (2 ^ k) = Inr (level_nodes k s (2 ^ k))"
  by (simp add: m_hash_nodes_def)

lemma thread_works_pow2:
  assumes "b \<le> p"
  shows "set is \<subseteq> {..<2 ^ b} \<Longrightarrow> thread_works (map (thread_arg (2 ^ p) (2 ^ b)) is) =
    Inr (map (\<lambda>i. level_nodes (p - b) ((2 ^ b + i) * 2 ^ (p - b)) (2 ^ (p - b))) is)"
  by (induction "is") (simp_all add: thread_arg_pow2 [OF assms] m_hash_nodes_pow2)

lemma works_ready:
  assumes "b \<le> p" and "i < 2 ^ b"
  shows "ready_list (2 ^ p) {} (level_nodes (p - b) ((2 ^ b + i) * 2 ^ (p - b)) (2 ^ (p - b)))"
proof (rule level_nodes_ready)
  have p: "(2::nat) ^ p = 2 ^ b * 2 ^ (p - b)" using assms(1) by (simp flip: power_add)
  have "(2 ^ b + i + 1) * 2 ^ (p - b) \<le> (2 * 2 ^ b) * 2 ^ (p - b)"
    using assms(2) by (intro mult_right_mono) simp_all
  then show "(2 ^ b + i + 1) * 2 ^ (p - b) \<le> 2 * 2 ^ p" unfolding p by simp
  have "2 ^ p \<le> (2 ^ b + i) * 2 ^ (p - b)" unfolding p by simp
  then show "2 ^ p \<le> (2 ^ b + i) * 2 ^ (p - b) \<or>
    {(2 ^ b + i) * 2 ^ Suc (p - b)..<(2 ^ b + i + 1) * 2 ^ Suc (p - b)} \<subseteq> {}" ..
qed simp_all

lemma works_cover:
  assumes "b \<le> p" and "2 ^ Suc b \<le> x" and "x < 2 * 2 ^ p"
  shows "\<exists>i<2 ^ b. x \<in> set (level_nodes (p - b) ((2 ^ b + i) * 2 ^ (p - b)) (2 ^ (p - b)))"
proof -
  have "0 < x" using assms(2) by (metis gr0I le_zero_eq power_not_zero zero_neq_numeral)
  note e = floor_log2_bounds [OF this]
  let ?e = "floor_log2 x"
  have "(2::nat) ^ b < 2 ^ ?e" using assms(2) e unfolding power_Suc by linarith
  then have "b < ?e" by simp
  have "(2::nat) ^ ?e < 2 ^ Suc p" using assms(3) e unfolding power_Suc by linarith
  then have "?e \<le> p"
    by (simp only: power_strict_increasing_iff one_less_numeral_iff semiring_norm less_Suc_eq_le)
  let ?j = "?e - b" and ?q = "x div 2 ^ (floor_log2 x - b)"
  have "(2::nat) ^ ?e = 2 ^ b * 2 ^ ?j" using \<open>b < ?e\<close> by (simp flip: power_add)
  then have "2 ^ b \<le> ?q" and "?q < 2 * 2 ^ b"
    using e by (simp_all add: less_eq_div_iff_mult_less_eq div_less_iff_less_mult)
  then have "?q - 2 ^ b < 2 ^ b" and "x div 2 ^ ?j = 2 ^ b + (?q - 2 ^ b)" by simp_all
  then show ?thesis
    using \<open>b < ?e\<close> \<open>?e \<le> p\<close> unfolding in_level_nodes by (intro exI [of _ "?q - 2 ^ b"] conjI exI [of _ ?j]) auto
qed

lemma works_range:
  assumes "b \<le> p" and "i < 2 ^ b" and "x \<in> set (level_nodes (p - b) ((2 ^ b + i) * 2 ^ (p - b)) (2 ^ (p - b)))"
  shows "2 ^ Suc b \<le> x \<and> x < 2 * 2 ^ p"
proof -
  obtain j where j: "0 < j" "j \<le> p - b" "x div 2 ^ j = 2 ^ b + i"
    using assms(3) unfolding in_level_nodes by blast
  then have "x \<in> {(2 ^ b + i) * 2 ^ j..<(2 ^ b + i + 1) * 2 ^ j}" using subtree_div by blast
  then have x: "(2 ^ b + i) * 2 ^ j \<le> x" "x < (2 ^ b + i + 1) * 2 ^ j" by simp_all
  have "(2::nat) ^ b * 2 ^ 1 \<le> (2 ^ b + i) * 2 ^ j"
    using j(1) by (intro mult_mono power_increasing) auto
  moreover have "(2 ^ b + i + 1) * 2 ^ j \<le> (2 * 2 ^ b) * 2 ^ (p - b)"
    using assms(2) j(2) by (intro mult_mono power_increasing) auto
  moreover have "(2::nat) ^ p = 2 ^ b * 2 ^ (p - b)" using assms(1) by (simp flip: power_add)
  ultimately show ?thesis using x by simp
qed

text \<open>All threads created and two leaves at least for each: every schedule builds the tree.\<close>

lemma m_build_tree_built:
  assumes "clean m" and "page_count (tree_height mt) ds" and "chain datas 0 ds"
    and "\<forall>d\<in>set ds. fits_leaf d" and "\<forall>i<2 ^ b. spawns m i" and "2 * 2 ^ b \<le> length ds"
    and "length (concat ds) < 2 ^ 31"
  shows "m_build_tree m sched mt datas (2 ^ b) = Inr (0, built m mt ds)"
proof -
  let ?p = "tree_height mt - 1" and ?D = "leaf_data (length ds) ds"
  let ?W = "\<lambda>i. level_nodes (?p - b) ((2 ^ b + i) * 2 ^ (?p - b)) (2 ^ (?p - b))"
  have v: "valid_height (tree_height mt)" and n: "length ds = 2 ^ ?p"
    using assms(2) by (simp_all add: page_count_def)
  have ls: "leaf_start mt = Inr (2 ^ ?p)" using v by (rule leaf_start_height)
  have "(2::nat) ^ Suc b \<le> 2 ^ ?p" using assms(6) n by simp
  then have "b < ?p" by (simp only: power_increasing_iff one_less_numeral_iff semiring_norm Suc_le_eq)
  then have split: "(2::nat) ^ ?p = 2 ^ b * 2 ^ (?p - b)" by (simp flip: power_add)
  obtain c where c: "?p - b = Suc c" using \<open>b < ?p\<close> by (metis Suc_diff_Suc)
  have "c \<le> 30" using c v unfolding valid_height_def by linarith
  have nsi: "(2::nat) ^ ?p div 2 ^ c = 2 * 2 ^ b" unfolding split c by simp
  let ?ws = "map ?W [0..<2 ^ b]"
  have rd: "ready_list (2 ^ ?p) {} w" if "w \<in> set ?ws" for w
    using that \<open>b < ?p\<close> works_ready [of b ?p] by auto
  from run_threads_paint [where ws = ?ws and S = "{}" and sched = sched and D = ?D, OF assms(1) ls rd]
  obtain ws' S' where run: "run_threads m sched ?ws (paint m mt (2 ^ ?p) ?D {2 ^ ?p..<2 * 2 ^ ?p} {}) =
      Inr (ws', paint m mt (2 ^ ?p) ?D {2 ^ ?p..<2 * 2 ^ ?p} S')"
    and rd': "\<forall>w\<in>set ws'. ready_list (2 ^ ?p) S' w"
    and tot: "S' \<union> \<Union> (set ` set ws') = \<Union> (set ` set ?ws)" by auto
  have all: "hash_all m (concat ws') (paint m mt (2 ^ ?p) ?D {2 ^ ?p..<2 * 2 ^ ?p} S') =
      Inr (paint m mt (2 ^ ?p) ?D {2 ^ ?p..<2 * 2 ^ ?p} (\<Union> (set ` set ?ws)))"
    using hash_all_paint [OF assms(1) ls ready_list_concat] rd' tot by (simp add: set_concat)
  have "hash_down m (2 * 2 ^ b) (paint m mt (2 ^ ?p) ?D {2 ^ ?p..<2 * 2 ^ ?p} (\<Union> (set ` set ?ws))) =
      Inr (0, built m mt ds)"
    unfolding built_def n
  proof (rule hash_down_paint [OF assms(1) ls])
    show "2 * 2 ^ b < 2 * (2::nat) ^ ?p" using \<open>b < ?p\<close> by simp
    show "{j. 2 * 2 ^ b < j \<and> j < 2 * 2 ^ ?p} \<subseteq> \<Union> (set ` set ?ws)"
    proof
      fix x :: nat assume "x \<in> {j. 2 * 2 ^ b < j \<and> j < 2 * 2 ^ ?p}"
      then obtain i where "i < 2 ^ b" "x \<in> set (?W i)"
        using works_cover [of b ?p x] \<open>b < ?p\<close> by auto
      then show "x \<in> \<Union> (set ` set ?ws)" by auto
    qed
    show "0 < j \<and> j < 2 * 2 ^ ?p" if j: "j \<in> \<Union> (set ` set ?ws)" for j
    proof -
      obtain i where "i < 2 ^ b" "j \<in> set (?W i)" using j by auto
      then have "2 ^ Suc b \<le> j \<and> j < 2 * 2 ^ ?p" using works_range \<open>b < ?p\<close> less_imp_le by metis
      then show ?thesis by (metis gr0I le_zero_eq power_not_zero zero_neq_numeral)
    qed
  qed
  moreover have "takeWhile (spawns m) [0..<2 ^ b] = [0..<2 ^ b]" using assms(5) by simp
  moreover have "thread_works (map (thread_arg (2 ^ ?p) (2 ^ b)) [0..<2 ^ b]) = Inr ?ws"
    using \<open>b < ?p\<close> by (intro thread_works_pow2) auto
  moreover have "c_log2 ((2::nat) ^ ?p div 2 ^ b) = Inr (Suc c)"
    unfolding split c nonzero_mult_div_cancel_left [OF power_not_zero [OF zero_neq_numeral [symmetric]]]
    by (rule c_log2_pow2)
  moreover have "shl_one (int (Suc c) - 1) = Inr (2 ^ c)" using \<open>c \<le> 30\<close> c v
    by (simp add: valid_height_def)
  moreover have "((0::int) = - 1) = False" "((2::nat) ^ b = 0) = False"
    "(length [0..<(2::nat) ^ b] < 2 ^ b) = False" by simp_all
  ultimately show ?thesis
    using set_tree_datas_paint [OF assms(2-4,7)] run all unfolding n
    by (simp only: m_build_tree_def ls nsi Let_def bind_c.simps prod.case if_False)
qed



section \<open>Properties\<close>

text \<open>
  C10: the multi-threaded construction computes what the single-threaded one computes, for
  every schedule of its threads: with a power of two of threads, at least two leaves for each
  of them, every thread created, and pages shorter than \<open>2 ^ 31\<close> together, the results are equal, tree and all.
\<close>

theorem m_build_tree_equals_build_tree:
  assumes "clean m" and "page_count (tree_height mt) ds" and "chain datas 0 ds"
    and "\<forall>d\<in>set ds. fits_leaf d" and "\<forall>i<2 ^ b. spawns m i" and "2 * 2 ^ b \<le> length ds"
    and "length (concat ds) < 2 ^ 31"
  shows "m_build_tree m sched mt datas (2 ^ b) = build_tree m mt datas \<and>
    (\<exists>T. m_build_tree m sched mt datas (2 ^ b) = Inr (0, T) \<and> full_inv T)"
proof -
  have "build_tree m mt datas = Inr (0, built m mt ds)"
    using assms by (intro build_tree_built) (auto simp: page_count_def)
  then show ?thesis using m_build_tree_built [OF assms] built_full_inv [OF assms(2)] by simp
qed

lemma plain_spawns [simp]: "spawns plain_memory i"
  by (simp add: plain_memory_def)

definition four_pages :: "nat \<Rightarrow> c_ptr" where
  "four_pages off = (if off = 0 then Str ''abc'' else if off < 6 then Str '' '' else Null)"

theorem m_build_tree_equals_build_tree_witness:
  "m_build_tree plain_memory [1, 0, 1] (empty_tree 3) four_pages (2 ^ 1) =
     build_tree plain_memory (empty_tree 3) four_pages \<and>
   (\<exists>T. m_build_tree plain_memory [1, 0, 1] (empty_tree 3) four_pages (2 ^ 1) = Inr (0, T) \<and> full_inv T)"
  by (rule m_build_tree_equals_build_tree [where ds = "[''abc'', '' '', '' '', '' '']"])
     (simp_all add: four_pages_def fits_leaf_def size_defs)

text \<open>
  C29: no data race between threads: with \<open>2 ^ b\<close> threads on \<open>2 ^ p\<close> leaves, no node is hashed by
  two of them, and a thread that hashes an inner node hashes both its children too.
\<close>

theorem threads_own_their_nodes:
  assumes "b \<le> p" and "i < 2 ^ b" and "i' < 2 ^ b"
    and "thread_arg (2 ^ p) (2 ^ b) i = (s, nb)" and "m_hash_nodes s nb = Inr w"
    and "thread_arg (2 ^ p) (2 ^ b) i' = (s', nb')" and "m_hash_nodes s' nb' = Inr w'"
  shows "(i \<noteq> i' \<longrightarrow> set w \<inter> set w' = {}) \<and>
    (\<forall>j\<in>set w. j < 2 ^ p \<longrightarrow> 2 * j \<in> set w \<and> 2 * j + 1 \<in> set w)"
proof -
  have w: "w = level_nodes (p - b) ((2 ^ b + i) * 2 ^ (p - b)) (2 ^ (p - b))"
    using assms(4,5) thread_arg_pow2 [OF assms(1,2)] m_hash_nodes_pow2 by auto
  have w': "w' = level_nodes (p - b) ((2 ^ b + i') * 2 ^ (p - b)) (2 ^ (p - b))"
    using assms(6,7) thread_arg_pow2 [OF assms(1,3)] m_hash_nodes_pow2 by auto
  have "set w \<inter> set w' = {}" if "i \<noteq> i'"
  proof (rule ccontr)
    assume "set w \<inter> set w' \<noteq> {}"
    then obtain x j j' where "x div 2 ^ j = 2 ^ b + i" "x div 2 ^ j' = 2 ^ b + i'"
      unfolding w w' in_level_nodes disjoint_iff by blast
    then have "2 ^ b + i = 2 ^ b + i'"
      by (rule owner_unique [where b = b]) (use assms(2,3) in simp_all)
    with that show False by simp
  qed
  moreover have "2 * j \<in> set w \<and> 2 * j + 1 \<in> set w" if j: "j \<in> set w" "j < 2 ^ p" for j
  proof -
    obtain k where k: "0 < k" "k \<le> p - b" "j div 2 ^ k = 2 ^ b + i"
      using j(1) unfolding w in_level_nodes by blast
    have "k \<noteq> p - b"
    proof
      assume "k = p - b"
      then have "j \<in> {(2 ^ b + i) * 2 ^ (p - b)..<(2 ^ b + i + 1) * 2 ^ (p - b)}"
        using k(3) subtree_div by blast
      then have "(2 ^ b + i) * 2 ^ (p - b) \<le> j" by simp
      then have "2 ^ b * 2 ^ (p - b) \<le> j" unfolding distrib_right by (rule add_leD1)
      moreover have "(2::nat) ^ p = 2 ^ b * 2 ^ (p - b)" using assms(1) by (simp flip: power_add)
      ultimately show False using j(2) by simp
    qed
    then have "Suc k \<le> p - b" using k(2) by simp
    moreover have "2 * j div 2 ^ Suc k = 2 ^ b + i" "(2 * j + 1) div 2 ^ Suc k = 2 ^ b + i"
      using k(3) by (simp_all add: div_mult2_eq)
    ultimately show ?thesis unfolding w in_level_nodes by blast
  qed
  ultimately show ?thesis by blast
qed

theorem threads_own_their_nodes_witness:
  "set [8, 9, 10, 11, 4, 5] \<inter> set [12, 13, 14, 15, 6, (7::nat)] = {} \<and>
   2 * 4 \<in> set [8, 9, 10, 11, 4, (5::nat)] \<and> 2 * 4 + 1 \<in> set [8, 9, 10, 11, 4, (5::nat)]"
proof -
  have l: "level_nodes 2 s n = [s..<s + n] @ [s div 2..<s div 2 + n div 2]" for s n
    by (simp add: numeral_2_eq_2)
  have w: "m_hash_nodes 8 4 = Inr [8, 9, 10, 11, 4, 5]" "m_hash_nodes 12 4 = Inr [12, 13, 14, 15, 6, 7]"
    using m_hash_nodes_pow2 [of 8 2] m_hash_nodes_pow2 [of 12 2] by (simp_all add: l upt_rec)
  have a: "thread_arg (2 ^ 3) (2 ^ 1) 0 = (8, 4)" "thread_arg (2 ^ 3) (2 ^ 1) 1 = (12, 4)"
    by (simp_all add: thread_arg_def)
  note own = threads_own_their_nodes [where b = 1 and p = 3 and i = 0 and i' = 1, OF _ _ _ a(1) w(1) a(2) w(2)]
  have "set [8, 9, 10, 11, 4, 5] \<inter> set [12, 13, 14, 15, 6, (7::nat)] = {}"
    using conjunct1 [OF own] by simp
  moreover have "4 \<in> set [8, 9, 10, 11, 4, (5::nat)]" by simp
  from bspec [OF conjunct2 [OF own] this]
  have "2 * 4 \<in> set [8, 9, 10, 11, 4, (5::nat)] \<and> 2 * 4 + 1 \<in> set [8, 9, 10, 11, 4, (5::nat)]" by simp
  ultimately show ?thesis by blast
qed

text \<open>
  With exactly one leaf for each thread the code shifts 1 by -1, and with more threads than
  leaves it converts the logarithm of 0: neither has a defined behaviour.
\<close>

theorem m_build_tree_one_leaf_per_thread:
  assumes "page_count (tree_height mt) ds" and "chain datas 0 ds"
    and "\<forall>d\<in>set ds. fits_leaf d" and "length ds \<le> nb_threads" and "length (concat ds) < 2 ^ 31"
  shows "m_build_tree m sched mt datas nb_threads =
    Inl (if length ds = nb_threads then Bad_shift else Bad_conversion)"
proof -
  have ls: "leaf_start mt = Inr (length ds)"
    using assms(1) leaf_start_height by (simp add: page_count_def)
  have "0 < length ds" using assms(1) by (simp add: page_count_def)
  then show ?thesis
    using assms(4) ls set_tree_datas_paint [OF assms(1-3,5)]
    by (auto simp: m_build_tree_def Let_def c_log2_def shl_one_def floor_log2.simps)
qed

theorem m_build_tree_one_leaf_per_thread_witness:
  "m_build_tree plain_memory [] (empty_tree 3) four_pages 4 =
    Inl (if length [''abc'', '' '', '' '', '' ''] = 4 then Bad_shift else Bad_conversion)"
  by (rule m_build_tree_one_leaf_per_thread)
     (simp_all add: four_pages_def fits_leaf_def size_defs)


text \<open>Five leaves for two of three threads and six for the last: no thread owns node 12.\<close>

definition three_works :: "nat list list" where
  "three_works = [[16, 17, 18, 19, 20, 8, 9], [21, 22, 23, 24, 25, 10, 11], [26, 27, 28, 29, 30, 31, 13, 14, 15]]"

lemma hash_node_unset:
  assumes "i < nb_nodes mt" and "leaf_start mt = Inr ls" and "i < ls"
  shows "hash (nodes mt (2 * i)) = Wild \<Longrightarrow> hash_node m mt i = Inl Bad_pointer"
    and "hash (nodes mt (2 * i)) = Null \<Longrightarrow> hash_node m mt i = Inr (-1, mt)"
  using assms by (simp_all add: hash_node_def)

lemma hash_down_step:
  "i = Suc k \<Longrightarrow> hash_down m i mt = bind_c (hash_node m (set_hash mt i Null) i) (\<lambda>(r, mt).
     if r = -1 then Inr (-1, mt) else hash_down m k mt)"
  by simp

lemma level_nodes_2: "level_nodes 2 s n = [s..<s + n] @ [s div 2..<s div 2 + n div 2]"
  by (simp add: numeral_2_eq_2)

lemma three_works_eq: "thread_works (map (thread_arg 16 3) [0, 1, 2]) = Inr three_works"
proof -
  have "floor_log2 5 = 2" "floor_log2 6 = 2" by (simp_all add: floor_log2.simps)
  then show ?thesis
    by (simp add: thread_arg_def m_hash_nodes_def c_log2_def level_nodes_2 upt_rec three_works_def)
qed

text \<open>
  C36: threads that do not divide the leaves evenly: with 16 pages and 3 threads that run one
  after the other, each of them completely, no thread hashes node 12, and the construction
  stops at node 6, the parent: it reads the pointer \<open>malloc\<close> left there when that was never
  written, and returns -1 when it happens to be null.
\<close>

theorem m_build_tree_three_threads:
  assumes "clean m" and "tree_height mt = 5" and "length ds = 16" and "chain datas 0 ds"
    and "\<forall>d\<in>set ds. fits_leaf d" and "\<forall>i<3. spawns m i"
  shows "(hash (fresh_node m 12) = Wild \<longrightarrow> m_build_tree m [] mt datas 3 = Inl Bad_pointer) \<and>
    (hash (fresh_node m 12) = Null \<longrightarrow> (\<exists>T. m_build_tree m [] mt datas 3 = Inr (-1, T)))"
proof -
  let ?D = "leaf_data 16 ds"
  have pc: "page_count (tree_height mt) ds" using assms by (simp add: page_count_def valid_height_def)
  have ls: "leaf_start mt = Inr 16" using assms(2) by simp
  have total: "length (concat ds) < 2 ^ 31"
  proof -
    have "length (concat ds) \<le> 2 ^ 20 * length ds"
      using assms(5) by (intro length_concat_le) (simp add: fits_leaf_def size_defs less_imp_le)
    then show ?thesis using assms(3) by simp
  qed
  have st: "set_tree_datas m mt datas = Inr (0, paint m mt 16 ?D {16..<2 * 16} {})"
    using set_tree_datas_paint [OF pc assms(4,5) total] unfolding assms(3) .
  have "ready_list 16 {} (concat three_works)"
    by (simp add: three_works_def ready_def)
  from hash_all_paint [OF assms(1) ls this, of ?D]
  have ha: "hash_all m (concat three_works) (paint m mt 16 ?D {16..<2 * 16} {}) =
    Inr (paint m mt 16 ?D {16..<2 * 16} (set (concat three_works)))" by simp
  let ?S = "set (concat three_works)"
  have r: "ready 16 ?S 8" "ready 16 (insert 8 ?S) 7" by (auto simp: ready_def three_works_def)
  have down: "hash_down m 8 (paint m mt 16 ?D {16..<2 * 16} ?S) =
    hash_down m 6 (paint m mt 16 ?D {16..<2 * 16} (insert 7 (insert 8 ?S)))"
    using hash_node_paint [OF assms(1) ls r(1), of ?D Null] hash_node_paint [OF assms(1) ls r(2), of ?D Null]
    by (simp add: hash_down_step [of 8 7] hash_down_step [of 7 6])
  let ?T = "set_hash (paint m mt 16 ?D {16..<2 * 16} (insert 7 (insert 8 ?S))) 6 Null"
  have h12: "hash (nodes ?T (2 * 6)) = hash (fresh_node m 12)" and nb: "nb_nodes ?T = 32"
    and ls': "leaf_start ?T = Inr 16"
    using ls by (simp_all add: paint_def three_works_def set_hash_def)
  have six: "hash_down m 6 (paint m mt 16 ?D {16..<2 * 16} (insert 7 (insert 8 ?S))) =
    bind_c (hash_node m ?T 6) (\<lambda>(r, mt). if r = -1 then Inr (-1, mt) else hash_down m 5 mt)"
    by (simp add: hash_down_step [of 6 5])
  have n6: "hash_node m ?T 6 = (if hash (fresh_node m 12) = Wild then Inl Bad_pointer else Inr (-1, ?T))"
    if "hash (fresh_node m 12) = Wild \<or> hash (fresh_node m 12) = Null"
  proof -
    have "6 < nb_nodes ?T" unfolding nb by simp
    note u = hash_node_unset [OF this ls', of m, unfolded h12]
    show ?thesis using that u by (elim disjE) (simp_all only: c_ptr.distinct if_True if_False simp_thms)
  qed
  have tw: "takeWhile (spawns m) [0..<3] = [0, 1, 2]"
    using assms(6) by (simp add: upt_rec)
  have run: "m_build_tree m [] mt datas 3 = hash_down m 8 (paint m mt 16 ?D {16..<2 * 16} ?S)"
  proof -
    have "c_log2 (16 div 3) = Inr 2" by (simp add: c_log2_def floor_log2.simps)
    then show ?thesis using ls st ha tw three_works_eq by (simp add: m_build_tree_def Let_def)
  qed
  show ?thesis unfolding run down six using n6 by auto
qed

definition blanks :: "nat \<Rightarrow> c_ptr" where
  "blanks off = Str '' ''"

lemma chain_blanks: "chain blanks off (replicate k '' '')"
  by (induction k arbitrary: off) (simp_all add: blanks_def)

theorem m_build_tree_three_threads_witness:
  "m_build_tree plain_memory [] (empty_tree 5) blanks 3 = Inl Bad_pointer"
proof -
  have "hash (fresh_node plain_memory 12) = Wild" by (simp add: plain_memory_def)
  then show ?thesis
    using m_build_tree_three_threads [of plain_memory "empty_tree 5" "replicate 16 '' ''" blanks]
    by (simp add: chain_blanks fits_leaf_def size_defs)
qed

end
