(* ===== verification/Tree_String.thy ===== *)
theory Tree_String
  imports Tree_Invariant
begin

text \<open>
  The text form of a tree in \<^verbatim>\<open>merkle_tree/merkletree.c\<close>: \<open>tree_to_string\<close>,
  \<open>str_split\<close> and \<open>string_to_tree\<close>, and the round trip between them.
\<close>


section \<open>Writing\<close>

text \<open>\<open>sprintf(number_string, "%d", i)\<close>.\<close>

fun decimal :: "nat \<Rightarrow> string" where
  "decimal n = (if n < 10 then [hex_digit n] else decimal (n div 10) @ [hex_digit (n mod 10)])"

declare decimal.simps [simp del]

text \<open>The loop over the nodes \<open>i\<close>, \<open>i + 1\<close>, ... of which \<open>k\<close> are left.\<close>

fun tree_entries :: "merkle_tree \<Rightarrow> nat \<Rightarrow> nat \<Rightarrow> fault + string" where
  "tree_entries mt 0 i = Inr []"
| "tree_entries mt (Suc k) i =
     (if 10 \<le> length (decimal i) then Inl Overrun
      else bind_c (deref (hash (nodes mt i))) (\<lambda>h.
           bind_c (tree_entries mt k (i + 1)) (\<lambda>rest.
           Inr (decimal i @ '':'' @ h @ (if i < nb_nodes mt - 1 then '','' else []) @ rest))))"

text \<open>\<open>cap\<close> is the size of the buffer of the caller; the size of the function's own buffer is computed as an \<open>int\<close>.\<close>

definition tree_to_string :: "merkle_tree \<Rightarrow> nat \<Rightarrow> fault + string" where
  "tree_to_string mt cap =
     bind_c (int_result (HEX * (HASH_SIZE div BYTE_SIZE) * nb_nodes mt)) (\<lambda>size.
     bind_c (tree_entries mt (nb_nodes mt - 1) 1) (\<lambda>tree_string.
     if size \<le> length tree_string then Inl Overrun
     else if cap \<le> length tree_string then Inl Overrun
     else Inr tree_string))"


text \<open>What \<open>print_hash\<close> and \<open>print_tree\<close> write to the terminal.\<close>

definition newline :: char where "newline = CHR 0x0A"

definition print_hash :: "merkle_tree \<Rightarrow> nat \<Rightarrow> fault + string" where
  "print_hash mt i = deref (hash (nodes mt i))"

fun print_nodes :: "merkle_tree \<Rightarrow> nat \<Rightarrow> nat \<Rightarrow> fault + string" where
  "print_nodes mt 0 i = Inr []"
| "print_nodes mt (Suc k) i =
     bind_c (print_hash mt i) (\<lambda>h.
     bind_c (print_nodes mt k (i + 1)) (\<lambda>rest.
     Inr (decimal i @ newline # h @ newline # rest)))"

definition print_tree :: "merkle_tree \<Rightarrow> fault + string" where
  "print_tree mt = print_nodes mt (nb_nodes mt - 1) 1"


section \<open>Reading\<close>

text \<open>
  \<open>strtok\<close> of the C library: it keeps a pointer to the rest of the string it is taking apart, in a
  static variable that all threads share. With a string it starts anew, with a null pointer it goes on.
  The last argument is the rest before the call, the second value the rest after it.
\<close>

definition strtok :: "string option \<Rightarrow> char \<Rightarrow> string \<Rightarrow> string option \<times> string" where
  "strtok s d rest =
     (let t = dropWhile (\<lambda>c. c = d) (case s of None \<Rightarrow> rest | Some s \<Rightarrow> s) in
      if t = [] then (None, [])
      else (Some (takeWhile (\<lambda>c. c \<noteq> d) t), drop 1 (dropWhile (\<lambda>c. c \<noteq> d) t)))"

text \<open>The fields between the delimiters; all calls of \<open>strtok\<close> together deliver those that are not empty.\<close>

fun str_fields :: "char \<Rightarrow> string \<Rightarrow> string list" where
  "str_fields d [] = [[]]"
| "str_fields d (c # s) =
     (if c = d then [] # str_fields d s
      else case str_fields d s of [] \<Rightarrow> [[c]] | w # ws \<Rightarrow> (c # w) # ws)"

definition strtok_all :: "char \<Rightarrow> string \<Rightarrow> string list" where
  "strtok_all d s = filter (\<lambda>w. w \<noteq> []) (str_fields d s)"

text \<open>The counting loop: how many delimiters, and the position of the last one.\<close>

fun scan_delim :: "char \<Rightarrow> string \<Rightarrow> nat \<Rightarrow> nat \<times> nat option \<Rightarrow> nat \<times> nat option" where
  "scan_delim d [] tmp acc = acc"
| "scan_delim d (c # s) tmp (count, last_comma) =
     scan_delim d s (tmp + 1) (if d = c then (count + 1, Some tmp) else (count, last_comma))"

definition split_count :: "string \<Rightarrow> char \<Rightarrow> nat" where
  "split_count a_str a_delim =
     (let (count, last_comma) = scan_delim a_delim a_str 0 (0, None);
          trailing = (case last_comma of None \<Rightarrow> True | Some p \<Rightarrow> int p < int (length a_str) - 1)
      in count + of_bool trailing + 1)"

text \<open>
  The loop over the tokens, when nobody else calls \<open>strtok\<close>: \<open>room\<close> is \<open>count - idx\<close>, and the assertions
  say that a token finds a place and that exactly the last place is left for the null pointer.
\<close>

fun token_loop :: "char \<Rightarrow> nat \<Rightarrow> string option \<Rightarrow> string \<Rightarrow> fault + string list" where
  "token_loop d room None rest = (if room = 1 then Inr [] else Inl Assertion_failed)"
| "token_loop d 0 (Some token) rest = Inl Assertion_failed"
| "token_loop d (Suc room) (Some token) rest =
     (case strtok None d rest of (next, rest) \<Rightarrow>
      bind_c (token_loop d room next rest) (\<lambda>result. Inr (token # result)))"

text \<open>What is left in \<open>strtok\<close> from earlier calls does not matter, since the first call passes a string.\<close>

definition str_split :: "string \<Rightarrow> char \<Rightarrow> fault + string list" where
  "str_split a_str a_delim =
     (case strtok (Some a_str) a_delim [] of (token, rest) \<Rightarrow>
      token_loop a_delim (split_count a_str a_delim) token rest)"

text \<open>\<open>*(thing + 1)\<close>, where the array of the tokens ends with a null pointer.\<close>

definition second_token :: "string list \<Rightarrow> fault + string" where
  "second_token thing =
     (if length thing = 0 then Inl Overrun
      else if length thing = 1 then Inl Bad_pointer
      else Inr (thing ! 1))"

fun read_hashes :: "string list \<Rightarrow> nat \<Rightarrow> merkle_tree \<Rightarrow> fault + merkle_tree" where
  "read_hashes [] i mt = Inr mt"
| "read_hashes (t # ts) i mt =
     bind_c (str_split t CHR '':'') (\<lambda>thing.
     bind_c (second_token thing) (\<lambda>hash_string.
     if 8 * 2 * HASH_SIZE div BYTE_SIZE \<le> length hash_string then Inl Overrun
     else read_hashes ts (i + 1) (set_hash mt (i + 1) (Str hash_string))))"

definition string_to_tree :: "memory \<Rightarrow> merkle_tree \<Rightarrow> string \<Rightarrow> fault + merkle_tree" where
  "string_to_tree m mt tree_string =
     bind_c (str_split tree_string CHR '','') (\<lambda>tokens.
     bind_c (c_log2 (length tokens + 1)) (\<lambda>h.
     read_hashes tokens 0 (new_nodes m (mt\<lparr>tree_height := h\<rparr>) (length tokens + 1))))"


section \<open>Splitting\<close>

lemma str_fields_not_Nil [simp]: "str_fields d s \<noteq> []"
  by (induction s) (auto split: list.splits)

lemma fields_single: "d \<notin> set w \<Longrightarrow> str_fields d w = [w]"
  by (induction w) auto

lemma fields_append: "d \<notin> set w \<Longrightarrow> str_fields d (w @ d # s) = w # str_fields d s"
  by (induction w) auto

lemma length_fields: "length (str_fields d s) = length (filter (\<lambda>c. c = d) s) + 1"
  by (induction s) (auto split: list.splits)

lemma str_fields_Nil_iff: "str_fields d s = [[]] \<longleftrightarrow> s = []"
  by (cases s) (auto split: list.splits)

lemma last_fields: "s \<noteq> [] \<Longrightarrow> last (str_fields d s) = [] \<longleftrightarrow> last s = d"
proof (induction s)
  case (Cons c s)
  show ?case
  proof (cases "s = []")
    case False
    obtain w ws where f: "str_fields d s = w # ws" by (cases "str_fields d s") simp_all
    have "ws = [] \<Longrightarrow> w \<noteq> []" using False f str_fields_Nil_iff [of d s] by simp
    then show ?thesis using Cons.IH [OF False] False f by (cases "ws = []") simp_all
  qed simp
qed simp

lemma scan_count: "fst (scan_delim d s tmp (k, l)) = k + length (filter (\<lambda>c. c = d) s)"
proof (induction s arbitrary: tmp k l)
  case (Cons c s)
  then show ?case by (cases "d = c") simp_all
qed simp

definition before_end :: "nat option \<Rightarrow> nat \<Rightarrow> bool" where
  "before_end l n = (case l of None \<Rightarrow> True | Some p \<Rightarrow> int p < int n - 1)"

lemma scan_trailing:
  "(\<And>p. l = Some p \<Longrightarrow> p < tmp) \<Longrightarrow> before_end (snd (scan_delim d s tmp (k, l))) (tmp + length s) \<longleftrightarrow>
   (if s = [] then before_end l tmp else last s \<noteq> d)"
proof (induction s arbitrary: tmp k l)
  case (Cons c s)
  have "before_end (snd (scan_delim d (c # s) tmp (k, l))) (tmp + length (c # s)) \<longleftrightarrow>
    (if s = [] then before_end (if d = c then Some tmp else l) (tmp + 1) else last s \<noteq> d)"
  proof (cases "d = c")
    case True
    then show ?thesis using Cons.IH [of "Some tmp" "tmp + 1" "k + 1"] by simp
  next
    case False
    have "p < tmp + 1" if "l = Some p" for p using Cons.prems that less_SucI by simp
    then show ?thesis using False Cons.IH [of l "tmp + 1" k] by simp
  qed
  then show ?case using Cons.prems by (auto simp: before_end_def split: option.splits)
qed simp

text \<open>One call of \<open>strtok\<close> takes the first of the fields that are not empty.\<close>

lemma strtok_all_skip: "strtok_all d (dropWhile (\<lambda>c. c = d) s) = strtok_all d s"
  by (induction s) (simp_all add: strtok_all_def)

lemma strtok_all_first:
  assumes "t \<noteq> []" and "hd t \<noteq> d"
  shows "strtok_all d t = takeWhile (\<lambda>c. c \<noteq> d) t # strtok_all d (drop 1 (dropWhile (\<lambda>c. c \<noteq> d) t))"
proof -
  let ?w = "takeWhile (\<lambda>c. c \<noteq> d) t" and ?r = "dropWhile (\<lambda>c. c \<noteq> d) t"
  have w: "d \<notin> set ?w" "?w \<noteq> []" using assms by (auto dest: set_takeWhileD simp: takeWhile_eq_Nil_iff)
  have t: "t = ?w @ ?r" by simp
  show ?thesis
  proof (cases ?r)
    case Nil
    then have "t = ?w" using t by (metis append_Nil2)
    then have "str_fields d t = [?w]" using fields_single [OF w(1)] by metis
    moreover have "strtok_all d (drop 1 ?r) = []" unfolding Nil by (simp add: strtok_all_def)
    ultimately show ?thesis using w(2) by (simp only: strtok_all_def filter.simps) simp
  next
    case (Cons c r)
    then have "c = d" using hd_dropWhile [of "\<lambda>c. c \<noteq> d" t] by simp
    then have "t = ?w @ d # r" using t Cons by simp
    then have "str_fields d t = ?w # str_fields d r" using fields_append [OF w(1)] by metis
    then show ?thesis using w(2) Cons by (simp add: strtok_all_def)
  qed
qed

lemma strtok_step:
  "strtok_all d (case s of None \<Rightarrow> rest | Some s \<Rightarrow> s) =
     (case strtok s d rest of (None, rest') \<Rightarrow> [] | (Some token, rest') \<Rightarrow> token # strtok_all d rest')"
proof -
  let ?s = "case s of None \<Rightarrow> rest | Some s \<Rightarrow> s"
  let ?t = "dropWhile (\<lambda>c. c = d) ?s"
  show ?thesis
  proof (cases "?t = []")
    case True
    then have "strtok_all d ?s = strtok_all d []" using strtok_all_skip [of d ?s] by metis
    then show ?thesis using True by (simp add: strtok_def Let_def strtok_all_def)
  next
    case False
    then have "hd ?t \<noteq> d" using hd_dropWhile [of "\<lambda>c. c = d"] by blast
    from strtok_all_first [OF False this] show ?thesis
      using False by (simp add: strtok_def Let_def strtok_all_skip)
  qed
qed

lemma token_loop_eq:
  "strtok s d rest = (token, rest') \<Longrightarrow> token_loop d room token rest' =
     (let toks = strtok_all d (case s of None \<Rightarrow> rest | Some s \<Rightarrow> s) in
      if length toks + 1 = room then Inr toks else Inl Assertion_failed)"
proof (induction d room token rest' arbitrary: s rest rule: token_loop.induct)
  case (1 d room rest')
  then show ?case using strtok_step [where d = d and s = s and rest = rest] by simp
next
  case (2 d token rest')
  then show ?case using strtok_step [where d = d and s = s and rest = rest] by simp
next
  case (3 d room token rest')
  obtain next_tok rest'' where n: "strtok None d rest' = (next_tok, rest'')" by (cases "strtok None d rest'")
  have "strtok_all d (case s of None \<Rightarrow> rest | Some s \<Rightarrow> s) = token # strtok_all d rest'"
    using strtok_step [where d = d and s = s and rest = rest] "3.prems" by simp
  then show ?case using "3.IH" [OF n [symmetric] n] n by (simp add: Let_def)
qed

lemma str_split_eq:
  "str_split s d =
     (if length (strtok_all d s) = length (filter (\<lambda>c. c = d) s) + of_bool (s = [] \<or> last s \<noteq> d)
      then Inr (strtok_all d s) else Inl Assertion_failed)"
proof -
  obtain k l where a: "scan_delim d s 0 (0, None) = (k, l)" by fastforce
  have "k = length (filter (\<lambda>c. c = d) s)" using scan_count [of d s 0 0 None] a by simp
  moreover have "(case l of None \<Rightarrow> True | Some p \<Rightarrow> int p < int (length s) - 1) \<longleftrightarrow> s = [] \<or> last s \<noteq> d"
    using scan_trailing [of None 0 d s 0] a by (simp add: before_end_def)
  ultimately have "split_count s d = length (filter (\<lambda>c. c = d) s) + of_bool (s = [] \<or> last s \<noteq> d) + 1"
    by (simp add: split_count_def a Let_def)
  moreover obtain token rest where "strtok (Some s) d [] = (token, rest)" by fastforce
  ultimately show ?thesis using token_loop_eq [of "Some s" d "[]" token rest] by (simp add: str_split_def Let_def)
qed

lemma filter_length_all: "length (filter P xs) = length xs \<longleftrightarrow> (\<forall>x\<in>set xs. P x)"
  using filter_id_conv length_filter_less by (metis filter_True nat_neq_iff)

text \<open>
  When the assertions of \<open>str_split\<close> hold: the string is not empty and no field is, except the
  one after a delimiter at the end.
\<close>

lemma str_split_succeeds:
  "str_split s d = Inr toks \<longleftrightarrow> s \<noteq> [] \<and> [] \<notin> set (butlast (str_fields d s)) \<and> toks = strtok_all d s"
proof (cases "s = []")
  case True
  then show ?thesis by (simp add: str_split_eq strtok_all_def)
next
  case False
  have f: "str_fields d s = butlast (str_fields d s) @ [last (str_fields d s)]" by simp
  have "length (butlast (str_fields d s)) = length (filter (\<lambda>c. c = d) s)"
    by (simp add: length_fields)
  moreover have "strtok_all d s =
    filter (\<lambda>w. w \<noteq> []) (butlast (str_fields d s)) @ (if last s = d then [] else [last (str_fields d s)])"
    unfolding strtok_all_def by (subst f) (simp only: filter_append, simp add: last_fields [OF False])
  ultimately have "length (strtok_all d s) = length (filter (\<lambda>c. c = d) s) + of_bool (s = [] \<or> last s \<noteq> d)
    \<longleftrightarrow> length (filter (\<lambda>w. w \<noteq> []) (butlast (str_fields d s))) = length (butlast (str_fields d s))"
    using False by simp
  also have "\<dots> \<longleftrightarrow> [] \<notin> set (butlast (str_fields d s))"
    unfolding filter_length_all by blast
  finally show ?thesis using False by (auto simp: str_split_eq)
qed

fun join :: "char \<Rightarrow> string list \<Rightarrow> string" where
  "join d [] = []"
| "join d [w] = w"
| "join d (w # v # ws) = w @ d # join d (v # ws)"

lemma fields_join: "ws \<noteq> [] \<Longrightarrow> \<forall>w\<in>set ws. d \<notin> set w \<Longrightarrow> str_fields d (join d ws) = ws"
  by (induction d ws rule: join.induct) (auto simp: fields_single fields_append)

lemma str_split_join:
  assumes "ws \<noteq> []" and "\<forall>w\<in>set ws. w \<noteq> [] \<and> d \<notin> set w"
  shows "str_split (join d ws) d = Inr ws"
proof -
  have f: "str_fields d (join d ws) = ws" using assms by (simp add: fields_join)
  have "join d ws \<noteq> []"
    using assms by (cases ws rule: remdups_adj.cases) auto
  moreover have "[] \<notin> set (butlast ws)" using assms(2) by (auto dest: in_set_butlastD)
  ultimately show ?thesis
    using assms(2) by (auto simp: str_split_succeeds f strtok_all_def intro: filter_True [symmetric])
qed

text \<open>Lists of fields as strings with a delimiter.\<close>

definition delimited :: "char \<Rightarrow> string list \<Rightarrow> bool" where
  "delimited d ws \<longleftrightarrow> ws \<noteq> [] \<and> (\<forall>w\<in>set ws. w \<noteq> [] \<and> d \<notin> set w)"

interpretation fields: codec "join d" "\<lambda>s. str_split s d" "delimited d" for d
  by unfold_locales (simp add: delimited_def str_split_join)


section \<open>Round trip\<close>

lemma decimal_props:
  "decimal n \<noteq> []" "set (decimal n) \<subseteq> set hex_digits"
proof (induction n rule: decimal.induct)
  case (1 n)
  {
    case 1
    show ?case by (simp add: decimal.simps [of n])
  next
    case 2
    have "n mod 10 < 16" by (rule order.strict_trans [of _ 10]) simp_all
    then show ?case using 1(2) by (simp add: decimal.simps [of n] hex_digit_range)
  }
qed

lemma decimal_length: "n < 10 ^ Suc k \<Longrightarrow> length (decimal n) \<le> Suc k"
proof (induction k arbitrary: n)
  case 0
  then show ?case by (simp add: decimal.simps [of n])
next
  case (Suc k)
  then have "n div 10 < 10 ^ Suc k" by (simp add: div_less_iff_less_mult mult.commute)
  from Suc.IH [OF this] show ?case by (simp add: decimal.simps [of n])
qed

definition entry :: "merkle_tree \<Rightarrow> nat \<Rightarrow> string" where
  "entry mt i = decimal i @ CHR '':'' # hash_at mt i"

lemma hex_digits_no_delim:
  "CHR '':'' \<notin> set hex_digits" "CHR '','' \<notin> set hex_digits" "nul \<notin> set hex_digits"
  using digits_not_special by blast+

lemma str_split_entry:
  assumes "is_hash (hash_at mt i)"
  shows "str_split (entry mt i) CHR '':'' = Inr [decimal i, hash_at mt i]"
proof -
  have "hash_at mt i \<noteq> []" using assms by (auto simp: is_hash_def)
  moreover have "CHR '':'' \<notin> set (decimal i)" "CHR '':'' \<notin> set (hash_at mt i)"
    using decimal_props(2) [of i] assms hex_digits_no_delim by (auto simp: is_hash_def)
  ultimately have "str_split (join CHR '':'' [decimal i, hash_at mt i]) CHR '':'' = Inr [decimal i, hash_at mt i]"
    using decimal_props(1) by (intro fields.dec_enc) (auto simp: delimited_def)
  then show ?thesis by (simp add: entry_def)
qed

lemma entry_props:
  assumes "is_hash (hash_at mt i)" and "i < 10 ^ 9"
  shows "entry mt i \<noteq> []" "CHR '','' \<notin> set (entry mt i)" "nul \<notin> set (entry mt i)" "length (entry mt i) \<le> 74"
proof -
  show "CHR '','' \<notin> set (entry mt i)" "nul \<notin> set (entry mt i)"
    using decimal_props(2) [of i] assms(1) hex_digits_no_delim by (auto simp: entry_def is_hash_def)
  have "length (decimal i) \<le> Suc 8" using assms(2) by (intro decimal_length) simp
  then show "length (entry mt i) \<le> 74" using assms(1) by (simp add: entry_def is_hash_def)
qed (simp add: entry_def)

lemma length_join: "\<forall>w\<in>set ws. length w \<le> n \<Longrightarrow> length (join d ws) \<le> (n + 1) * length ws"
  by (induction d ws rule: join.induct) auto

lemma tree_entries_join:
  assumes "i + k = nb_nodes mt" and "nb_nodes mt \<le> 10 ^ 9" and "\<forall>j\<in>{i..<i + k}. has_hash mt j"
  shows "tree_entries mt k i = Inr (join CHR '','' (map (entry mt) [i..<i + k]))"
  using assms
proof (induction k arbitrary: i)
  case 0
  then show ?case by simp
next
  case (Suc k)
  have "has_hash mt i" using Suc.prems(3) by simp
  then have h: "hash (nodes mt i) = Str (hash_at mt i)" by (simp add: has_hash_def)
  have "length (decimal i) \<le> Suc 8" using Suc.prems(1,2) by (intro decimal_length) simp
  then have d: "\<not> 10 \<le> length (decimal i)" by simp
  have e: "tree_entries mt k (i + 1) = Inr (join CHR '','' (map (entry mt) [i + 1..<i + 1 + k]))"
    using Suc.prems by (intro Suc.IH) auto
  have l: "[i..<i + Suc k] = i # [i + 1..<i + 1 + k]" by (simp add: upt_rec)
  show ?case
  proof (cases k)
    case 0
    then have l1: "[i..<i + Suc k] = [i]" by (simp add: upt_rec)
    show ?thesis using h d Suc.prems(1) 0 unfolding l1 by (simp add: entry_def)
  next
    case (Suc k')
    then obtain x xs where x: "map (entry mt) [i + 1..<i + 1 + k] = x # xs"
      by (cases "map (entry mt) [i + 1..<i + 1 + k]") auto
    have "i < nb_nodes mt - 1" using Suc Suc.prems(1) by simp
    then show ?thesis
      using h d e unfolding l list.map x by (simp add: entry_def [of mt i])
  qed
qed

lemma print_nodes_lines:
  assumes "\<forall>j\<in>{i..<i + k}. has_hash mt j"
  shows "print_nodes mt k i = Inr (concat (map (\<lambda>j. decimal j @ newline # hash_at mt j @ [newline]) [i..<i + k]))"
  using assms
proof (induction k arbitrary: i)
  case (Suc k)
  have "hash (nodes mt i) = Str (hash_at mt i)" using Suc.prems by (simp add: has_hash_def)
  moreover have "[i..<i + Suc k] = i # [i + 1..<i + 1 + k]" by (simp add: upt_conv_Cons)
  moreover have "print_nodes mt k (i + 1) =
      Inr (concat (map (\<lambda>j. decimal j @ newline # hash_at mt j @ [newline]) [i + 1..<i + 1 + k]))"
    using Suc.prems by (intro Suc.IH) simp
  ultimately show ?case by (simp add: print_hash_def)
qed simp

text \<open>\<open>print_tree\<close> writes one line with the number and one with the hash of every node.\<close>

lemma print_tree_lines:
  assumes "all_hashed mt"
  shows "print_tree mt = Inr (concat (map (\<lambda>j. decimal j @ newline # hash_at mt j @ [newline]) [1..<nb_nodes mt]))"
proof (cases "nb_nodes mt")
  case 0
  then show ?thesis by (simp add: print_tree_def)
next
  case (Suc n)
  have "\<forall>j\<in>{1..<1 + n}. has_hash mt j" using assms Suc by (auto simp: all_hashed_def)
  from print_nodes_lines [OF this] show ?thesis by (simp add: print_tree_def Suc)
qed

lemma read_hashes_entries:
  assumes "\<forall>j\<in>{i + 1..<i + 1 + k}. has_hash mt j"
  shows "read_hashes (map (entry mt) [i + 1..<i + 1 + k]) i T = Inr (T\<lparr>nodes := (\<lambda>j.
    if i < j \<and> j \<le> i + k then (nodes T j)\<lparr>hash := Str (hash_at mt j)\<rparr> else nodes T j)\<rparr>)"
  using assms
proof (induction k arbitrary: i T)
  case 0
  have "(\<lambda>j. if i < j \<and> j \<le> i + 0 then (nodes T j)\<lparr>hash := Str (hash_at mt j)\<rparr> else nodes T j) = nodes T"
    by (rule ext) auto
  moreover have "map (entry mt) [i + 1..<i + 1 + 0] = []" by simp
  ultimately show ?case by (simp only: read_hashes.simps) simp
next
  case (Suc k)
  let ?T = "set_hash T (i + 1) (Str (hash_at mt (i + 1)))"
  have h: "is_hash (hash_at mt (i + 1))" using Suc.prems by (simp add: has_hash_def)
  then have "length (hash_at mt (i + 1)) < 512" by (simp add: is_hash_def)
  then have "read_hashes (map (entry mt) [i + 1..<i + 1 + Suc k]) i T =
    read_hashes (map (entry mt) [(i + 1) + 1..<(i + 1) + 1 + k]) (i + 1) ?T"
    using str_split_entry [OF h] by (simp add: upt_rec second_token_def size_defs)
  also have "\<dots> = Inr (?T\<lparr>nodes := (\<lambda>j. if i + 1 < j \<and> j \<le> i + 1 + k
      then (nodes ?T j)\<lparr>hash := Str (hash_at mt j)\<rparr> else nodes ?T j)\<rparr>)"
    using Suc.prems by (intro Suc.IH) auto
  also have "\<dots> = Inr (T\<lparr>nodes := (\<lambda>j.
    if i < j \<and> j \<le> i + Suc k then (nodes T j)\<lparr>hash := Str (hash_at mt j)\<rparr> else nodes T j)\<rparr>)"
    by (auto intro!: merkle_tree.equality simp: set_hash_def fun_eq_iff)
  finally show ?case .
qed

text \<open>The text of a tree, and the tree read from it.\<close>

definition tree_text :: "merkle_tree \<Rightarrow> string" where
  "tree_text mt = join CHR '','' (map (entry mt) [1..<nb_nodes mt])"

definition reread :: "memory \<Rightarrow> merkle_tree \<Rightarrow> merkle_tree \<Rightarrow> merkle_tree" where
  "reread m mt0 mt = mt0\<lparr>nb_nodes := nb_nodes mt, tree_height := tree_height mt, nodes := (\<lambda>j.
     if 1 \<le> j \<and> j < nb_nodes mt then (fresh_node m j)\<lparr>hash := Str (hash_at mt j)\<rparr> else fresh_node m j)\<rparr>"

definition printable_tree :: "merkle_tree \<Rightarrow> bool" where
  "printable_tree mt \<longleftrightarrow> all_hashed mt \<and> tree_height mt < 24"

lemma printable_nb:
  assumes "printable_tree mt"
  shows "nb_nodes mt \<le> 10 ^ 9" and "2 \<le> nb_nodes mt" and "HEX * (HASH_SIZE div BYTE_SIZE) * nb_nodes mt < 2 ^ 31"
proof -
  have s: "shaped mt" using assms by (simp add: printable_tree_def all_hashed_def)
  have "(2::nat) ^ tree_height mt \<le> 2 ^ 23"
    using assms by (intro power_increasing) (simp_all add: printable_tree_def)
  then show "nb_nodes mt \<le> 10 ^ 9" "HEX * (HASH_SIZE div BYTE_SIZE) * nb_nodes mt < 2 ^ 31"
    using s by (simp_all add: shaped_def size_defs)
  show "2 \<le> nb_nodes mt" using shaped_nb [OF s] first_leaf_pos [of mt] by linarith
qed

lemma printable_hash:
  "printable_tree mt \<Longrightarrow> 0 < i \<Longrightarrow> i < nb_nodes mt \<Longrightarrow> has_hash mt i"
  by (simp add: printable_tree_def all_hashed_def)

lemma entries_ok:
  assumes "printable_tree mt" and "w \<in> set (map (entry mt) [1..<nb_nodes mt])"
  shows "w \<noteq> [] \<and> CHR '','' \<notin> set w \<and> length w \<le> 74"
proof -
  obtain i where i: "1 \<le> i" "i < nb_nodes mt" "w = entry mt i" using assms(2) by auto
  have "is_hash (hash_at mt i)" "i < 10 ^ 9"
    using i printable_hash [OF assms(1), of i] printable_nb [OF assms(1)] by (auto simp: has_hash_def)
  from entry_props [OF this] show ?thesis unfolding i(3) by simp
qed

lemma tree_text_length:
  assumes "printable_tree mt"
  shows "length (tree_text mt) < 75 * nb_nodes mt"
proof -
  have "length (tree_text mt) \<le> (74 + 1) * length (map (entry mt) [1..<nb_nodes mt])"
    unfolding tree_text_def using entries_ok [OF assms] by (intro length_join) blast
  then show ?thesis using printable_nb(2) [OF assms] by simp
qed

lemma tree_to_string_text:
  assumes "printable_tree mt" and "75 * nb_nodes mt \<le> cap"
  shows "tree_to_string mt cap = Inr (tree_text mt)"
proof -
  have nb: "1 + (nb_nodes mt - 1) = nb_nodes mt" using printable_nb(2) [OF assms(1)] by simp
  have "tree_entries mt (nb_nodes mt - 1) 1 =
    Inr (join CHR '','' (map (entry mt) [1..<1 + (nb_nodes mt - 1)]))"
    using nb printable_nb(1) [OF assms(1)] printable_hash [OF assms(1)] by (intro tree_entries_join) auto
  then have "tree_entries mt (nb_nodes mt - 1) 1 = Inr (tree_text mt)"
    unfolding nb by (simp add: tree_text_def)
  then show ?thesis
    using tree_text_length [OF assms(1)] assms(2) printable_nb(3) [OF assms(1)]
    by (simp add: tree_to_string_def size_defs)
qed

lemma string_to_tree_text:
  assumes "printable_tree mt"
  shows "string_to_tree m mt0 (tree_text mt) = Inr (reread m mt0 mt)"
proof -
  let ?ws = "map (entry mt) [1..<nb_nodes mt]"
  have nb: "0 + 1 + (nb_nodes mt - 1) = nb_nodes mt" using printable_nb(2) [OF assms] by simp
  have "?ws \<noteq> []" using printable_nb(2) [OF assms] by simp
  then have "str_split (tree_text mt) CHR '','' = Inr ?ws"
    unfolding tree_text_def using entries_ok [OF assms] by (intro fields.dec_enc) (auto simp: delimited_def)
  moreover have "c_log2 (length ?ws + 1) = Inr (tree_height mt)"
  proof -
    have "length ?ws + 1 = 2 ^ tree_height mt"
      using nb assms by (simp add: printable_tree_def all_hashed_def shaped_def)
    then show ?thesis by (simp only: c_log2_pow2)
  qed
  moreover have "read_hashes ?ws 0 (new_nodes m (mt0\<lparr>tree_height := tree_height mt\<rparr>) (length ?ws + 1)) =
    Inr (reread m mt0 mt)"
  proof -
    let ?T = "new_nodes m (mt0\<lparr>tree_height := tree_height mt\<rparr>) (nb_nodes mt)"
    have len: "length ?ws + 1 = nb_nodes mt" using nb by simp
    have "read_hashes (map (entry mt) [0 + 1..<0 + 1 + (nb_nodes mt - 1)]) 0 ?T = Inr (?T\<lparr>nodes := (\<lambda>j.
      if 0 < j \<and> j \<le> 0 + (nb_nodes mt - 1) then (nodes ?T j)\<lparr>hash := Str (hash_at mt j)\<rparr> else nodes ?T j)\<rparr>)"
      using printable_hash [OF assms] nb by (intro read_hashes_entries) auto
    moreover have "?T\<lparr>nodes := (\<lambda>j. if 0 < j \<and> j \<le> 0 + (nb_nodes mt - 1)
        then (nodes ?T j)\<lparr>hash := Str (hash_at mt j)\<rparr> else nodes ?T j)\<rparr> = reread m mt0 mt"
      using nb by (intro merkle_tree.equality) (auto simp: new_nodes_def reread_def fun_eq_iff)
    ultimately show ?thesis unfolding len nb by simp
  qed
  ultimately show ?thesis by (simp add: string_to_tree_def)
qed

lemma reread_simps [simp]:
  "nb_nodes (reread m mt0 mt) = nb_nodes mt" "tree_height (reread m mt0 mt) = tree_height mt"
  "first_leaf (reread m mt0 mt) = first_leaf mt"
  by (simp_all add: reread_def first_leaf_def)

lemma reread_hash:
  "0 < i \<Longrightarrow> i < nb_nodes mt \<Longrightarrow> hash (nodes (reread m mt0 mt) i) = Str (hash_at mt i)"
  "0 < i \<Longrightarrow> i < nb_nodes mt \<Longrightarrow> hash_at (reread m mt0 mt) i = hash_at mt i"
  "data (nodes (reread m mt0 mt) i) = data (fresh_node m i)"
  by (simp_all add: reread_def hash_at_def)

lemma reread_all_hashed: "all_hashed mt \<Longrightarrow> all_hashed (reread m mt0 mt)"
  by (auto simp: all_hashed_def shaped_def has_hash_def reread_hash)

lemma reread_inv:
  assumes "merkle_inv mt"
  shows "merkle_inv (reread m mt0 mt)"
proof -
  have nb: "nb_nodes mt = 2 * first_leaf mt" using assms inv_lessons shaped_nb by blast
  then show ?thesis
    using assms by (auto simp: merkle_inv_def reread_all_hashed consistent_at_def reread_hash)
qed


section \<open>Properties\<close>

text \<open>
  C20: a tree of height below 24, for which the size of the buffer of \<open>tree_to_string\<close> is an \<open>int\<close>, whose hashes are
  all computed, is written to fewer than 75 characters per node, so that it fits that buffer, and \<open>string_to_tree\<close> reads
  back a tree with the same number of nodes, the same height and the same hashes; when the
  tree satisfied the invariant, the tree read back does.
\<close>

theorem tree_string_roundtrip:
  assumes "printable_tree mt" and "75 * nb_nodes mt \<le> cap"
  shows "\<exists>s T. tree_to_string mt cap = Inr s \<and> length s < 75 * nb_nodes mt \<and>
    string_to_tree m mt0 s = Inr T \<and> nb_nodes T = nb_nodes mt \<and> tree_height T = tree_height mt \<and>
    (\<forall>i\<in>{1..<nb_nodes mt}. hash (nodes T i) = hash (nodes mt i)) \<and> (merkle_inv mt \<longrightarrow> merkle_inv T)"
proof (intro exI conjI)
  show "tree_to_string mt cap = Inr (tree_text mt)" by (rule tree_to_string_text [OF assms])
  show "string_to_tree m mt0 (tree_text mt) = Inr (reread m mt0 mt)"
    by (rule string_to_tree_text [OF assms(1)])
  show "\<forall>i\<in>{1..<nb_nodes mt}. hash (nodes (reread m mt0 mt) i) = hash (nodes mt i)"
    using printable_hash [OF assms(1)] by (auto simp: reread_hash has_hash_def)
qed (use assms(1) in \<open>simp_all add: tree_text_length reread_inv\<close>)

theorem tree_string_roundtrip_witness:
  "\<exists>s T. tree_to_string tree_abc 1000 = Inr s \<and> length s < 75 * nb_nodes tree_abc \<and>
    string_to_tree plain_memory (empty_tree 0) s = Inr T \<and> nb_nodes T = nb_nodes tree_abc \<and>
    tree_height T = tree_height tree_abc \<and>
    (\<forall>i\<in>{1..<nb_nodes tree_abc}. hash (nodes T i) = hash (nodes tree_abc i)) \<and>
    (merkle_inv tree_abc \<longrightarrow> merkle_inv T)"
  by (rule tree_string_roundtrip) (simp_all add: printable_tree_def inv_lessons)

text \<open>
  \<open>str_split\<close> passes its assertions exactly for the strings that are not empty and have no
  empty field except behind a delimiter at the end; it then delivers the fields.
\<close>

theorem str_split_spec:
  "str_split s d = (if s \<noteq> [] \<and> [] \<notin> set (butlast (str_fields d s))
     then Inr (filter (\<lambda>w. w \<noteq> []) (str_fields d s)) else Inl Assertion_failed)"
proof (cases "str_split s d")
  case (Inl e)
  then have "e = Assertion_failed" by (simp add: str_split_eq split: if_splits)
  then show ?thesis using Inl str_split_succeeds [of s d] by auto
next
  case (Inr toks)
  then show ?thesis using str_split_succeeds [of s d toks] by (simp add: strtok_all_def)
qed

text \<open>
  A stored string in which an entry lacks its colon makes \<open>string_to_tree\<close> copy from a null
  pointer; here, a string without comma and colon.
\<close>

theorem string_to_tree_no_colon:
  assumes "s \<noteq> []" and "CHR '','' \<notin> set s" and "CHR '':'' \<notin> set s"
  shows "string_to_tree m mt s = Inl Bad_pointer"
proof -
  have "str_split (join d [s]) d = Inr [s]" if "d \<notin> set s" for d
    using assms(1) that by (intro fields.dec_enc) (simp_all add: delimited_def)
  then have "str_split s CHR '','' = Inr [s]" "str_split s CHR '':'' = Inr [s]"
    using assms(2,3) by simp_all
  then show ?thesis by (simp add: string_to_tree_def c_log2_def second_token_def)
qed

theorem string_to_tree_no_colon_witness:
  "string_to_tree plain_memory (empty_tree 0) ''60e893'' = Inl Bad_pointer"
  by (rule string_to_tree_no_colon) simp_all

text \<open>
  From a height of 24 on the size of the buffer of \<open>tree_to_string\<close> is no \<open>int\<close>: the tree is not written, whatever
  is in it and however large the buffer of the caller is.
\<close>

theorem tree_to_string_tall:
  assumes "shaped mt" and "24 \<le> tree_height mt"
  shows "tree_to_string mt cap = Inl Int_overflow"
proof -
  have "(2::nat) ^ 24 \<le> 2 ^ tree_height mt" using assms(2) by (intro power_increasing) simp_all
  then have "(2::nat) ^ 24 \<le> nb_nodes mt" using assms(1) by (simp add: shaped_def)
  then have "2 ^ 31 \<le> HEX * (HASH_SIZE div BYTE_SIZE) * nb_nodes mt" by (simp add: size_defs)
  then show ?thesis by (simp add: tree_to_string_def)
qed

theorem tree_to_string_tall_witness:
  "tree_to_string (empty_tree 24 \<lparr>nb_nodes := 2 ^ 24\<rparr>) 1000 = Inl Int_overflow"
  by (rule tree_to_string_tall) (simp_all add: shaped_def valid_height_def empty_tree_def)

end
