(* ===== verification/Rebuild.thy ===== *)
theory Rebuild
  imports Tree_Invariant
begin

text \<open>
  The operations of \<^verbatim>\<open>merkle_tree/merkletree.c\<close> on a tree that exists:
  \<open>change_and_rebuild\<close> in its two modes, \<open>compare_trees\<close> and \<open>free_merkle\<close>. The proofs follow
  the set of inner nodes that may be out of date.
\<close>


section \<open>Changing pages\<close>

definition FILE_MODE :: nat where "FILE_MODE = 0"
definition BUFFER_MODE :: nat where "BUFFER_MODE = 1"

text \<open>File mode: the leaves get the pointers of the array.\<close>

fun put_pages :: "(nat \<Rightarrow> c_ptr) \<Rightarrow> nat list \<Rightarrow> 32 word \<Rightarrow> merkle_tree \<Rightarrow> fault + merkle_tree" where
  "put_pages datas [] data_size mt = Inr mt"
| "put_pages datas (index # indexes) data_size mt =
     bind_c (slot datas data_size) (\<lambda>p.
     bind_c (deref p) (\<lambda>s.
     put_pages datas indexes (data_size + word_of_nat (length s)) (set_data mt index p)))"

text \<open>Buffer mode: the leaves get copies.\<close>

fun copy_pages :: "(nat \<Rightarrow> c_ptr) \<Rightarrow> nat list \<Rightarrow> 32 word \<Rightarrow> merkle_tree \<Rightarrow> fault + merkle_tree" where
  "copy_pages datas [] data_size mt = Inr mt"
| "copy_pages datas (index # indexes) data_size mt =
     bind_c (slot datas data_size) (\<lambda>p.
     bind_c (deref p) (\<lambda>s.
     if 8 * 2 * PAGE_LENGTH \<le> length s then Inl Overrun
     else copy_pages datas indexes (data_size + word_of_nat (length s)) (set_data mt index (Str s))))"

text \<open>The inner loop: \<open>k\<close> nodes from \<open>index\<close> on.\<close>

fun hash_run :: "memory \<Rightarrow> nat \<Rightarrow> nat \<Rightarrow> merkle_tree \<Rightarrow> fault + int \<times> merkle_tree" where
  "hash_run m 0 index mt = Inr (0, mt)"
| "hash_run m (Suc k) index mt =
     bind_c (hash_node m mt index) (\<lambda>(r, mt).
     if r = -1 then Inr (-1, mt) else hash_run m k (index + 1) mt)"

text \<open>The outer loop: the level above has \<open>k / 2 + 1\<close> nodes to hash.\<close>

fun rebuild_levels :: "memory \<Rightarrow> nat \<Rightarrow> nat \<Rightarrow> nat \<Rightarrow> merkle_tree \<Rightarrow> fault + int \<times> merkle_tree" where
  "rebuild_levels m 0 k index mt = Inr (0, mt)"
| "rebuild_levels m (Suc h) k index mt =
     bind_c (hash_run m k index mt) (\<lambda>(r, mt).
     if r = -1 then Inr (-1, mt) else rebuild_levels m h (k div 2 + 1) (index div 2) mt)"

text \<open>\<open>while (index != 0)\<close>: from a leaf to the root.\<close>

function climb :: "memory \<Rightarrow> nat \<Rightarrow> merkle_tree \<Rightarrow> fault + int \<times> merkle_tree" where
  "climb m index mt =
     (if index = 0 then Inr (0, mt)
      else bind_c (hash_node m (set_hash mt index Null) index) (\<lambda>(r, mt).
           if r = -1 then Inr (-1, mt) else climb m (index div 2) mt))"
  by pat_completeness auto
termination
  by (relation "measure (\<lambda>(m, index, mt). index)") auto

declare climb.simps [simp del]

text \<open>
  \<open>index\<close> is the last one stored in buffer mode, the first one of the array in file mode; with
  an array of length 0 the code reads it although it was never written.
\<close>

definition change_and_rebuild ::
  "memory \<Rightarrow> merkle_tree \<Rightarrow> nat list \<Rightarrow> (nat \<Rightarrow> c_ptr) \<Rightarrow> nat \<Rightarrow> fault + int \<times> merkle_tree"
where
  "change_and_rebuild m mt indexes datas mode =
     (if mode = FILE_MODE then
        bind_c (put_pages datas indexes 0 mt) (\<lambda>mt.
        if indexes = [] then Inl Overrun else
        bind_c (rebuild_levels m (tree_height mt) (length indexes) (indexes ! 0) mt) (\<lambda>(r, mt).
        if r = -1 then Inr (-1, mt) else
        bind_c (hash_node m mt 1) (\<lambda>(r, mt).
        if r = -1 then Inr (-1, mt) else Inr (0, mt))))
      else
        bind_c (copy_pages datas indexes 0 mt) (\<lambda>mt.
        if indexes = [] then Inl Overrun else
        climb m (last indexes) mt))"


section \<open>Comparing two trees\<close>

text \<open>
  The numbers of the nodes that are reported, in the order of the output. The recursion stops
  at the leaves or at equal hashes; \<open>fuel\<close> bounds its depth.
\<close>

fun compare_trees :: "nat \<Rightarrow> merkle_tree \<Rightarrow> merkle_tree \<Rightarrow> nat \<Rightarrow> fault + nat list" where
  "compare_trees 0 mt_a mt_b index = Inl Stack_exhausted"
| "compare_trees (Suc fuel) mt_a mt_b index =
     bind_c (deref (hash (nodes mt_a index))) (\<lambda>ha.
     bind_c (deref (hash (nodes mt_b index))) (\<lambda>hb.
     if ha = hb then Inr []
     else bind_c (leaf_start mt_a) (\<lambda>ls.
       if index < ls then
         bind_c (compare_trees fuel mt_a mt_b (2 * index)) (\<lambda>l.
         bind_c (compare_trees fuel mt_a mt_b (2 * index + 1)) (\<lambda>r.
         Inr (index # l @ r)))
       else Inr [index])))"


section \<open>Freeing a tree\<close>

text \<open>The nodes whose data and the nodes whose hash are passed to \<open>free\<close>; freeing null does nothing.\<close>

fun free_nodes :: "merkle_tree \<Rightarrow> nat \<Rightarrow> nat \<Rightarrow> fault + nat list \<times> nat list" where
  "free_nodes mt 0 i = Inr ([], [])"
| "free_nodes mt (Suc k) i =
     bind_c (if nb_nodes mt div 2 < i then is_set (data (nodes mt i)) else Inr False) (\<lambda>d.
     bind_c (is_set (hash (nodes mt i))) (\<lambda>h.
     bind_c (free_nodes mt k (i + 1)) (\<lambda>(ds, hs).
     Inr (if d then i # ds else ds, if h then i # hs else hs))))"

definition free_merkle :: "merkle_tree \<Rightarrow> fault + nat list \<times> nat list" where
  "free_merkle mt = free_nodes mt (nb_nodes mt - 1) 1"


section \<open>Trees that are out of date in some nodes\<close>

definition stale :: "merkle_tree \<Rightarrow> nat set \<Rightarrow> bool" where
  "stale mt E \<longleftrightarrow> all_hashed mt \<and> (\<forall>j\<in>{1..<first_leaf mt}. j \<notin> E \<longrightarrow> consistent_at mt j)"

lemma stale_empty: "merkle_inv mt \<longleftrightarrow> stale mt {}"
  by (simp add: stale_def merkle_inv_def)

lemma stale_mono: "stale mt E \<Longrightarrow> (\<And>j. j \<in> E \<Longrightarrow> 0 < j \<Longrightarrow> j < first_leaf mt \<Longrightarrow> j \<in> E') \<Longrightarrow> stale mt E'"
  by (auto simp: stale_def)

lemma stale_all_hashed: "stale mt E \<Longrightarrow> all_hashed mt"
  by (simp add: stale_def)

lemma stale_set_data [simp]: "stale (set_data mt i p) E = stale mt E"
  by (simp add: stale_def consistent_at_def)

lemma node_input_set_hash:
  "i < first_leaf mt \<Longrightarrow> 0 < i \<Longrightarrow> node_input (set_hash mt i (Str s)) i = node_input mt i"
  by (simp add: node_input_def)

lemma stale_set_hash:
  assumes "stale mt E" and "0 < i" and "is_hash s"
    and "i < first_leaf mt \<Longrightarrow> s = digest_string (node_input mt i)"
  shows "stale (set_hash mt i (Str s)) (insert (i div 2) (E - {i}))"
proof -
  have "consistent_at (set_hash mt i (Str s)) j"
    if "0 < j" "j < first_leaf mt" "j \<noteq> i div 2" "j \<in> E \<longrightarrow> j = i" for j
  proof (cases "j = i")
    case True
    then show ?thesis
      using that(2) assms(2,4) by (simp add: consistent_input node_input_set_hash)
  next
    case False
    moreover have "2 * j \<noteq> i" "2 * j + 1 \<noteq> i" using that(3) by auto
    moreover have "consistent_at mt j" using that False assms(1) by (simp add: stale_def)
    ultimately show ?thesis by (simp add: consistent_at_def)
  qed
  then show ?thesis using assms(1,3) by (auto simp: stale_def all_hashed_set_hash)
qed

text \<open>Hashing a node again, whatever its own hash pointer was.\<close>

lemma rehash_inner:
  assumes "clean m" and "all_hashed mt" and "0 < i" and "i < first_leaf mt"
  shows "hash_node m (set_hash mt i p) i = Inr (0, set_hash mt i (Str (digest_string (node_input mt i))))"
proof -
  have "nb_nodes mt = 2 * first_leaf mt" using assms inv_lessons shaped_nb by blast
  moreover have "2 * i \<noteq> i" using assms(3) by simp
  ultimately show ?thesis
    using assms shaped_leaf_start [OF all_hashed_shaped]
    by (subst hash_node_inner [where l = "hash_at mt (2 * i)" and r = "hash_at mt (2 * i + 1)"])
       (auto simp: all_hashedD node_input_def inner_hash_def)
qed

lemma rehash_leaf:
  assumes "shaped mt" and "first_leaf mt \<le> i" and "i < nb_nodes mt" and "data (nodes mt i) = Str s"
  shows "hash_node m (set_hash mt i p) i = Inr (0, set_hash mt i (Str (digest_string s)))"
  using assms by (subst hash_node_leaf_inv [where s = s]) simp_all

text \<open>The leaves two trees agree on.\<close>

definition same_leaves :: "nat set \<Rightarrow> merkle_tree \<Rightarrow> merkle_tree \<Rightarrow> bool" where
  "same_leaves A a b \<longleftrightarrow> nb_nodes a = nb_nodes b \<and> tree_height a = tree_height b \<and>
     (\<forall>i\<in>A. first_leaf a \<le> i \<longrightarrow> nodes a i = nodes b i) \<and> (\<forall>i. data (nodes a i) = data (nodes b i))"

lemma same_leaves_refl [simp]: "same_leaves A a a"
  by (simp add: same_leaves_def)

lemma same_leaves_trans: "same_leaves A a b \<Longrightarrow> same_leaves A b c \<Longrightarrow> same_leaves A a c"
  by (auto simp: same_leaves_def first_leaf_def)

lemma same_leaves_subset: "same_leaves B a b \<Longrightarrow> A \<subseteq> B \<Longrightarrow> same_leaves A a b"
  by (auto simp: same_leaves_def)

lemma same_leaves_set_hash: "i < first_leaf mt \<or> i \<notin> A \<Longrightarrow> same_leaves A mt (set_hash mt i p)"
  by (auto simp: same_leaves_def set_hash_def)


section \<open>Buffer mode\<close>

lemma climb_stale:
  assumes "clean m" and "stale mt {i}" and "i < first_leaf mt"
  shows "\<exists>T. climb m i mt = Inr (0, T) \<and> merkle_inv T \<and> same_leaves UNIV mt T"
  using assms(2,3)
proof (induction i arbitrary: mt rule: less_induct)
  case (less i)
  show ?case
  proof (cases "i = 0")
    case True
    have "stale mt {}" using less.prems(1) by (rule stale_mono) (use True in auto)
    then show ?thesis unfolding True by (subst climb.simps) (simp add: stale_empty)
  next
    case False
    let ?T = "set_hash mt i (Str (digest_string (node_input mt i)))"
    have "hash_node m (set_hash mt i Null) i = Inr (0, ?T)"
      using False less.prems assms(1) stale_all_hashed by (intro rehash_inner) auto
    then have c: "climb m i mt = climb m (i div 2) ?T"
      using False by (simp add: climb.simps [of m i])
    have "stale ?T (insert (i div 2) ({i} - {i}))"
      using less.prems False by (intro stale_set_hash) simp_all
    then have "\<exists>T. climb m (i div 2) ?T = Inr (0, T) \<and> merkle_inv T \<and> same_leaves UNIV ?T T"
      using False less.prems(2) by (intro less.IH) auto
    then show ?thesis
      unfolding c using same_leaves_trans same_leaves_set_hash less.prems(2) by blast
  qed
qed

lemma buffer_mode:
  assumes "clean m" and "merkle_inv mt" and "first_leaf mt \<le> i" and "i < nb_nodes mt"
    and "datas 0 = Str s" and "fits_leaf s"
  shows "\<exists>T. change_and_rebuild m mt [i] datas BUFFER_MODE = Inr (0, T) \<and> merkle_inv T \<and>
    same_leaves (- {i}) (set_data mt i (Str s)) T \<and> hash_at T i = digest_string s"
proof -
  let ?U = "set_data mt i (Str s)"
  let ?V = "set_hash ?U i (Str (digest_string s))"
  have i: "0 < i" using assms(3) first_leaf_pos [of mt] by linarith
  have s: "shaped ?U" using assms(2) inv_lessons by simp
  have v: "hash_node m (set_hash ?U i Null) i = Inr (0, ?V)"
    using assms(3,4) s by (intro rehash_leaf) simp_all
  have "stale ?U {}" using assms(2) by (simp add: stale_empty)
  then have "stale ?V (insert (i div 2) ({} - {i}))"
    using i assms(3) by (intro stale_set_hash) simp_all
  moreover have "i div 2 < first_leaf ?V"
    using assms(4) shaped_nb [OF s] by simp
  ultimately obtain T where T: "climb m (i div 2) ?V = Inr (0, T)" "merkle_inv T" "same_leaves UNIV ?V T"
    using climb_stale [OF assms(1)] by force
  have "climb m i ?U = Inr (0, T)" using v T(1) i by (simp add: climb.simps [of m i])
  then have "change_and_rebuild m mt [i] datas BUFFER_MODE = Inr (0, T)"
    using assms(5,6) by (simp add: change_and_rebuild_def BUFFER_MODE_def FILE_MODE_def fits_leaf_def)
  moreover have "same_leaves (- {i}) ?U T"
    using same_leaves_set_hash [of i ?U "- {i}"] same_leaves_subset [OF T(3)] same_leaves_trans by blast
  moreover have "hash_at T i = digest_string s"
  proof -
    have "nodes T i = nodes ?V i" using T(3) assms(3) by (simp add: same_leaves_def)
    then show ?thesis by (simp add: hash_at_def)
  qed
  ultimately show ?thesis using T(2) by blast
qed



section \<open>File mode\<close>

lemma same_leaves_simps:
  assumes "same_leaves A a b"
  shows "nb_nodes b = nb_nodes a" "tree_height b = tree_height a" "first_leaf b = first_leaf a"
    "data (nodes b i) = data (nodes a i)" "data_at b i = data_at a i"
  using assms by (simp_all add: same_leaves_def first_leaf_def data_at_def)

lemma same_leaves_leaf_ok:
  "same_leaves A a b \<Longrightarrow> i \<in> A \<Longrightarrow> first_leaf a \<le> i \<Longrightarrow> leaf_ok b i = leaf_ok a i"
  by (simp add: same_leaves_def leaf_ok_def data_at_def hash_at_def)

lemma same_leaves_hash_at:
  "same_leaves A a b \<Longrightarrow> i \<in> A \<Longrightarrow> first_leaf a \<le> i \<Longrightarrow> hash_at b i = hash_at a i"
  by (simp add: same_leaves_def hash_at_def)

lemma hash_run_append:
  "hash_run m (k + l) i T = bind_c (hash_run m k i T) (\<lambda>(r, T).
     if r = -1 then Inr (-1, T) else hash_run m l (i + k) T)"
proof (induction k arbitrary: i T)
  case (Suc k)
  have e: "i + Suc k = Suc i + k" by simp
  show ?case
    unfolding e by (cases "hash_node m T i") (auto simp: Suc.IH)
qed simp

lemma rebuild_levels_step:
  "hash_run m k i T = Inr (0, T') \<Longrightarrow>
   rebuild_levels m (Suc h) k i T = rebuild_levels m h (k div 2 + 1) (i div 2) T'"
  by simp

text \<open>A node that is up to date stays as it is.\<close>

lemma rehash_same:
  assumes "clean m" and "stale T E" and "0 < i" and "i < nb_nodes T" and "i \<notin> E"
    and "first_leaf T \<le> i \<Longrightarrow> leaf_ok T i"
  shows "hash_node m T i = Inr (0, T)"
proof -
  have a: "all_hashed T" using assms(2) by (rule stale_all_hashed)
  have h: "hash (nodes T i) = Str (hash_at T i)" using a assms(3,4) by (rule all_hashedD)
  show ?thesis
  proof (cases "i < first_leaf T")
    case True
    then have "consistent_at T i" using assms(2,3,5) by (simp add: stale_def)
    then have "hash_at T i = digest_string (node_input T i)" using True consistent_input by blast
    then show ?thesis
      using hash_node_inner_inv [OF assms(1) a assms(3) True] set_hash_same [of T i] h by simp
  next
    case False
    then have "leaf_ok T i" using assms(6) by simp
    then show ?thesis
      using False assms(4) hash_node_leaf_inv [of T i "data_at T i" m] a set_hash_same [of T i] h
      by (simp add: leaf_ok_def all_hashed_def)
  qed
qed

lemma run_inner:
  assumes "clean m" and "0 < start" and "start \<le> i" and "i + k \<le> first_leaf T"
    and "stale T ({i..<hi} \<union> {start div 2..<(i + 1) div 2})"
  shows "\<exists>T'. hash_run m k i T = Inr (0, T') \<and>
    stale T' ({i + k..<hi} \<union> {start div 2..<(i + k + 1) div 2}) \<and> same_leaves UNIV T T'"
  using assms(3-)
proof (induction k arbitrary: i T)
  case 0
  then show ?case by simp
next
  case (Suc k)
  have i: "0 < i" "i < first_leaf T" using assms(2) Suc.prems by linarith+
  let ?T = "set_hash T i (Str (digest_string (node_input T i)))"
  have n: "hash_node m T i = Inr (0, ?T)"
    using i assms(1) stale_all_hashed [OF Suc.prems(3)] by (intro hash_node_inner_inv)
  have "stale ?T (insert (i div 2) (({i..<hi} \<union> {start div 2..<(i + 1) div 2}) - {i}))"
    using i Suc.prems by (intro stale_set_hash) simp_all
  then have "stale ?T ({i + 1..<hi} \<union> {start div 2..<(i + 1 + 1) div 2})"
    using Suc.prems(1) by (rule_tac stale_mono) (auto intro: div_le_mono)
  then obtain T' where "hash_run m k (i + 1) ?T = Inr (0, T')"
    and "stale T' ({i + 1 + k..<hi} \<union> {start div 2..<(i + 1 + k + 1) div 2})" and "same_leaves UNIV ?T T'"
    using Suc.IH [of "i + 1" ?T] Suc.prems by auto
  then show ?case
    using n same_leaves_trans [OF same_leaves_set_hash [of i T UNIV]] i(2) by auto
qed

lemma run_leaves:
  assumes "clean m" and "first_leaf T \<le> start" and "start \<le> i" and "i + k \<le> nb_nodes T"
    and "stale T {start div 2..<(i + 1) div 2}" and "\<forall>j\<in>{i..<i + k}. data (nodes T j) = Str (D j)"
  shows "\<exists>T'. hash_run m k i T = Inr (0, T') \<and> stale T' {start div 2..<(i + k + 1) div 2} \<and>
    same_leaves (- {i..<i + k}) T T' \<and> (\<forall>j\<in>{i..<i + k}. hash_at T' j = digest_string (D j))"
  using assms(2-)
proof (induction k arbitrary: i T)
  case 0
  then show ?case by simp
next
  case (Suc k)
  have i: "0 < i" "first_leaf T \<le> i" using first_leaf_pos [of T] Suc.prems by linarith+
  let ?T = "set_hash T i (Str (digest_string (D i)))"
  have n: "hash_node m T i = Inr (0, ?T)"
    using i Suc.prems stale_all_hashed [OF Suc.prems(4)] all_hashed_shaped
    by (intro hash_node_leaf_inv) auto
  have "stale ?T (insert (i div 2) ({start div 2..<(i + 1) div 2} - {i}))"
    using i Suc.prems by (intro stale_set_hash) simp_all
  then have st: "stale ?T {start div 2..<(i + 1 + 1) div 2}"
    using Suc.prems(2) by (rule_tac stale_mono) (auto intro: div_le_mono)
  have "\<exists>T'. hash_run m k (i + 1) ?T = Inr (0, T') \<and> stale T' {start div 2..<(i + 1 + k + 1) div 2} \<and>
    same_leaves (- {i + 1..<i + 1 + k}) ?T T' \<and> (\<forall>j\<in>{i + 1..<i + 1 + k}. hash_at T' j = digest_string (D j))"
    using Suc.prems st by (intro Suc.IH) auto
  then obtain T' where T': "hash_run m k (i + 1) ?T = Inr (0, T')"
    "stale T' {start div 2..<(i + Suc k + 1) div 2}" "same_leaves (- {i + 1..<i + 1 + k}) ?T T'"
    "\<forall>j\<in>{i + 1..<i + 1 + k}. hash_at T' j = digest_string (D j)" by auto
  have "hash_at T' i = digest_string (D i)"
    using same_leaves_hash_at [OF T'(3)] i(2) by simp
  then have "\<forall>j\<in>{i..<i + Suc k}. hash_at T' j = digest_string (D j)"
    using T'(4) by (metis Suc_eq_plus1 add_Suc_shift atLeastLessThan_iff le_antisym not_less_eq_eq)
  moreover have "same_leaves (- {i..<i + Suc k}) T T'"
    using same_leaves_set_hash [of i T "- {i..<i + Suc k}"] same_leaves_subset [OF T'(3), of "- {i..<i + Suc k}"]
      same_leaves_trans by fastforce
  ultimately show ?case using n T'(1,2) by auto
qed

text \<open>One level of inner nodes, of which at most one node more than there are is hashed.\<close>

lemma level_step:
  assumes "clean m" and "L \<le> i" and "i < 2 * L" and "2 * L \<le> first_leaf T" and "i + k \<le> 2 * L + 1"
    and "stale T {i..<min (i + k) (2 * L)}"
    and "i + k = 2 * L + 1 \<Longrightarrow> 2 * L = first_leaf T \<Longrightarrow> leaf_ok T (2 * L)"
  shows "\<exists>T'. hash_run m k i T = Inr (0, T') \<and> stale T' {i div 2..<min (i div 2 + (k div 2 + 1)) L} \<and>
    same_leaves UNIV T T' \<and> i div 2 + (k div 2 + 1) \<le> L + 1"
proof -
  define k' where "k' = min k (2 * L - i)"
  have i: "0 < i" using assms(2,3) by linarith
  have hi: "min (i + k) (2 * L) = i + k'" using assms(3) by (auto simp: k'_def)
  have kL: "i + k' \<le> first_leaf T" using assms(3,4) unfolding k'_def by linarith
  have "stale T ({i..<i + k'} \<union> {i div 2..<(i + 1) div 2})"
    using assms(6) unfolding hi by (rule stale_mono) simp
  then obtain T' where T': "hash_run m k' i T = Inr (0, T')"
    "stale T' ({i + k'..<i + k'} \<union> {i div 2..<(i + k' + 1) div 2})" "same_leaves UNIV T T'"
    using run_inner [OF assms(1) i order_refl kL] by blast
  have le: "(i + k' + 1) div 2 \<le> L" "(i + k' + 1) div 2 \<le> i div 2 + (k div 2 + 1)"
    using assms(3) unfolding k'_def by linarith+
  then have st: "stale T' {i div 2..<min (i div 2 + (k div 2 + 1)) L}"
    using T'(2) by (rule_tac stale_mono) auto
  have b: "i div 2 + (k div 2 + 1) \<le> L + 1" using assms(5) by linarith
  show ?thesis
  proof (cases "k = k'")
    case True
    then show ?thesis using T' st b by blast
  next
    case False
    then have k: "k = k' + 1" "i + k' = 2 * L" using assms(3,5) by (auto simp: k'_def)
    have s: "shaped T" using assms(6) by (simp add: stale_def all_hashed_def)
    have "hash_node m T' (2 * L) = Inr (0, T')"
    proof (rule rehash_same [OF assms(1) T'(2)])
      show "0 < 2 * L" "2 * L \<notin> {i + k'..<i + k'} \<union> {i div 2..<(i + k' + 1) div 2}"
        using assms(2,3) le(1) by auto
      show "2 * L < nb_nodes T'"
        unfolding same_leaves_simps(1) [OF T'(3)] shaped_nb [OF s] using assms(2-4) by linarith
      assume "first_leaf T' \<le> 2 * L"
      then have f: "2 * L = first_leaf T"
        unfolding same_leaves_simps(3) [OF T'(3)] using assms(4) by linarith
      then have "leaf_ok T (2 * L)" using assms(7) k by simp
      then show "leaf_ok T' (2 * L)"
        using same_leaves_leaf_ok [OF T'(3), of "2 * L"] f by simp
    qed
    then have "hash_run m k i T = Inr (0, T')"
      unfolding k(1) hash_run_append T'(1) using k(2) by simp
    then show ?thesis using T' st b by blast
  qed
qed

lemma levels_up:
  assumes "clean m" and "2 ^ d \<le> i" and "i < 2 * 2 ^ d" and "2 * 2 ^ d \<le> first_leaf T"
    and "i + k \<le> 2 * 2 ^ d + 1" and "stale T {i..<min (i + k) (2 * 2 ^ d)}"
    and "i + k = 2 * 2 ^ d + 1 \<Longrightarrow> 2 * 2 ^ d = first_leaf T \<Longrightarrow> leaf_ok T (2 * 2 ^ d)"
  shows "\<exists>T'. rebuild_levels m (Suc d) k i T = Inr (0, T') \<and> merkle_inv T' \<and> same_leaves UNIV T T'"
  using assms(2-)
proof (induction d arbitrary: i k T)
  case 0
  then obtain T' where T': "hash_run m k i T = Inr (0, T')" "same_leaves UNIV T T'"
    "stale T' {i div 2..<min (i div 2 + (k div 2 + 1)) 1}"
    using level_step [OF assms(1), of 1 i T k] by auto
  have "stale T' {}" using T'(3) by (rule stale_mono) auto
  then show ?case using T' by (simp add: stale_empty)
next
  case (Suc d)
  obtain T' where T': "hash_run m k i T = Inr (0, T')" "same_leaves UNIV T T'"
    "stale T' {i div 2..<min (i div 2 + (k div 2 + 1)) (2 ^ Suc d)}" "i div 2 + (k div 2 + 1) \<le> 2 ^ Suc d + 1"
    using level_step [OF assms(1), of "2 ^ Suc d" i T k] Suc.prems by blast
  have "\<exists>T''. rebuild_levels m (Suc d) (k div 2 + 1) (i div 2) T' = Inr (0, T'') \<and> merkle_inv T'' \<and> same_leaves UNIV T' T''"
  proof (rule Suc.IH)
    have f: "first_leaf T' = first_leaf T" using T'(2) by (rule same_leaves_simps)
    have L: "2 * 2 ^ Suc d \<le> first_leaf T" by (rule Suc.prems(3))
    show "2 ^ d \<le> i div 2" "i div 2 < 2 * 2 ^ d" using Suc.prems(1,2) unfolding power_Suc by linarith+
    show "2 * 2 ^ d \<le> first_leaf T'" unfolding f using L unfolding power_Suc by linarith
    show "i div 2 + (k div 2 + 1) \<le> 2 * 2 ^ d + 1" using T'(4) unfolding power_Suc .
    show "stale T' {i div 2..<min (i div 2 + (k div 2 + 1)) (2 * 2 ^ d)}" using T'(3) unfolding power_Suc .
    assume "2 * 2 ^ d = first_leaf T'"
    moreover have "0 < (2::nat) ^ d" by simp
    ultimately show "leaf_ok T' (2 * 2 ^ d)" using L unfolding f power_Suc by linarith
  qed
  then obtain T'' where "rebuild_levels m (Suc d) (k div 2 + 1) (i div 2) T' = Inr (0, T'')"
    "merkle_inv T''" "same_leaves UNIV T' T''" by blast
  moreover have "rebuild_levels m (Suc (Suc d)) k i T = rebuild_levels m (Suc d) (k div 2 + 1) (i div 2) T'"
    by (rule rebuild_levels_step [OF T'(1)])
  ultimately show ?case using same_leaves_trans [OF T'(2)] by metis
qed


text \<open>Pages that are stored one after the other.\<close>

lemma put_pages_run:
  "chain datas off ds \<Longrightarrow> off + length (concat ds) < 2 ^ 31 \<Longrightarrow>
    \<exists>U. put_pages datas [a..<a + length ds] (word_of_nat off) mt = Inr U \<and>
    (\<forall>j<length ds. data (nodes U (a + j)) = Str (ds ! j)) \<and>
    (\<forall>j. j \<notin> {a..<a + length ds} \<longrightarrow> nodes U j = nodes mt j) \<and>
    (\<forall>j. hash (nodes U j) = hash (nodes mt j)) \<and> nb_nodes U = nb_nodes mt \<and> tree_height U = tree_height mt"
proof (induction ds arbitrary: a off mt)
  case Nil
  then show ?case by simp
next
  case (Cons d ds)
  let ?M = "set_data mt a (Str d)"
  obtain U where U: "put_pages datas [Suc a..<Suc a + length ds] (word_of_nat (off + length d)) ?M = Inr U"
    "\<forall>j<length ds. data (nodes U (Suc a + j)) = Str (ds ! j)"
    "\<forall>j. j \<notin> {Suc a..<Suc a + length ds} \<longrightarrow> nodes U j = nodes ?M j"
    "\<forall>j. hash (nodes U j) = hash (nodes ?M j)" "nb_nodes U = nb_nodes ?M" "tree_height U = tree_height ?M"
    using Cons.IH [of "off + length d" "Suc a" ?M] Cons.prems by auto
  have l: "[a..<a + length (d # ds)] = a # [Suc a..<Suc a + length ds]" by (simp add: upt_rec)
  have p: "put_pages datas [a..<a + length (d # ds)] (word_of_nat off) mt = Inr U"
    unfolding l using Cons.prems U(1) by simp
  have "data (nodes U a) = Str d" using U(3) by simp
  then have "\<forall>j<length (d # ds). data (nodes U (a + j)) = Str ((d # ds) ! j)"
    using U(2) by (auto simp: nth_Cons split: nat.splits)
  moreover have "\<forall>j. j \<notin> {a..<a + length (d # ds)} \<longrightarrow> nodes U j = nodes mt j"
    using U(3) by (auto simp: set_data_def)
  ultimately show ?case using p U(4-) by (intro exI [of _ U]) simp
qed

lemma stale_same_hashes:
  assumes "\<forall>j. hash (nodes U j) = hash (nodes mt j)" and "nb_nodes U = nb_nodes mt"
    and "tree_height U = tree_height mt"
  shows "stale U E = stale mt E"
proof -
  have "hash_at U = hash_at mt" using assms(1) by (auto simp: hash_at_def)
  then show ?thesis
    using assms by (simp add: stale_def all_hashed_def shaped_def has_hash_def first_leaf_def consistent_at_def)
qed

text \<open>
  When the last level of the loop over inner nodes reaches one node behind the inner nodes, the
  first leaf must have its page.
\<close>

definition first_leaf_ready :: "merkle_tree \<Rightarrow> nat \<Rightarrow> nat \<Rightarrow> bool" where
  "first_leaf_ready mt a k \<longleftrightarrow>
     a div 2 + k div 2 < first_leaf mt \<or> a = first_leaf mt \<or> leaf_ok mt (first_leaf mt)"

lemma file_mode:
  assumes "clean m" and "merkle_inv mt" and "first_leaf mt \<le> a" and "a + length ds \<le> nb_nodes mt"
    and "ds \<noteq> []" and "chain datas 0 ds" and "first_leaf_ready mt a (length ds)"
    and "length (concat ds) < 2 ^ 31"
  shows "\<exists>T. change_and_rebuild m mt [a..<a + length ds] datas FILE_MODE = Inr (0, T) \<and> merkle_inv T \<and>
    nb_nodes T = nb_nodes mt \<and> tree_height T = tree_height mt \<and>
    (\<forall>j<length ds. data (nodes T (a + j)) = Str (ds ! j) \<and> hash_at T (a + j) = digest_string (ds ! j)) \<and>
    (\<forall>j\<ge>first_leaf mt. j \<notin> {a..<a + length ds} \<longrightarrow> nodes T j = nodes mt j)"
proof -
  let ?k = "length ds" and ?n = "first_leaf mt"
  obtain U where U: "put_pages datas [a..<a + ?k] (word_of_nat 0) mt = Inr U"
    "\<forall>j<?k. data (nodes U (a + j)) = Str (ds ! j)"
    "\<forall>j. j \<notin> {a..<a + ?k} \<longrightarrow> nodes U j = nodes mt j"
    "\<forall>j. hash (nodes U j) = hash (nodes mt j)" "nb_nodes U = nb_nodes mt" "tree_height U = tree_height mt"
    using put_pages_run [OF assms(6), of a mt] assms(8) by auto
  have s: "shaped mt" using assms(2) inv_lessons by blast
  then have nb: "nb_nodes mt = 2 * ?n" by (rule shaped_nb)
  have fU: "first_leaf U = ?n" using U(6) by (simp add: first_leaf_def)
  have stU: "stale U {a div 2..<(a + 1) div 2}"
    using assms(2) stale_same_hashes [OF U(4-6)] stale_mono [of mt "{}"] by (simp add: stale_empty)
  have dU: "\<forall>j\<in>{a..<a + ?k}. data (nodes U j) = Str (ds ! (j - a))"
    using U(2) by (metis atLeastLessThan_iff le_add_diff_inverse less_diff_conv2 add.commute)
  obtain V where V: "hash_run m ?k a U = Inr (0, V)" "stale V {a div 2..<(a + ?k + 1) div 2}"
    "same_leaves (- {a..<a + ?k}) U V" "\<forall>j\<in>{a..<a + ?k}. hash_at V j = digest_string (ds ! (j - a))"
    using run_leaves [OF assms(1) _ order_refl _ stU dU] assms(3,4) U(5) fU by auto
  have fV: "first_leaf V = ?n" "nb_nodes V = nb_nodes mt" "tree_height V = tree_height mt"
    using same_leaves_simps [OF V(3)] fU U(5,6) by simp_all
  have okV: "leaf_ok V j" if "j \<in> {a..<a + ?k}" for j
    using V(4) dU same_leaves_simps(4,5) [OF V(3)] that by (simp add: leaf_ok_def data_at_def)
  obtain p where p: "tree_height mt = Suc p" using s by (cases "tree_height mt") (auto simp: shaped_def valid_height_def)
  have n: "?n = 2 ^ p" using p by (simp add: first_leaf_def)
  have k: "0 < ?k" using assms(5) by simp
  have "\<exists>T. rebuild_levels m p (?k div 2 + 1) (a div 2) V = Inr (0, T) \<and> merkle_inv T \<and> same_leaves UNIV V T"
  proof (cases p)
    case 0
    then have "?n = 1" using n by simp
    then have "a div 2 = 0" using assms(3,4) nb k by linarith
    then have "stale V {}" using V(2) 0 n fV(1) by (rule_tac stale_mono) auto
    then show ?thesis using 0 by (simp add: stale_empty)
  next
    case (Suc d)
    have n2: "?n = 2 * 2 ^ d" using n Suc by simp
    have b: "a div 2 + (?k div 2 + 1) \<le> 2 * 2 ^ d + 1" "2 ^ d \<le> a div 2" "a div 2 < 2 * 2 ^ d"
      "(a + ?k + 1) div 2 \<le> min (a div 2 + (?k div 2 + 1)) (2 * 2 ^ d)"
      using assms(3,4) nb n2 k by linarith+
    have st: "stale V {a div 2..<min (a div 2 + (?k div 2 + 1)) (2 * 2 ^ d)}"
      using V(2) b(4) by (rule_tac stale_mono) auto
    have ok: "leaf_ok V (2 * 2 ^ d)" if o: "a div 2 + (?k div 2 + 1) = 2 * 2 ^ d + 1"
    proof (cases "a = ?n")
      case True
      then show ?thesis using okV [of a] k n2 by simp
    next
      case False
      then have "leaf_ok mt ?n" using assms(7) o n2 by (simp add: first_leaf_ready_def)
      moreover have "?n \<notin> {a..<a + ?k}" using False assms(3) by simp
      ultimately have "leaf_ok U ?n" using U(3) by (simp add: leaf_ok_def data_at_def hash_at_def)
      moreover have "leaf_ok V ?n = leaf_ok U ?n"
        using \<open>?n \<notin> _\<close> fU by (intro same_leaves_leaf_ok [OF V(3)]) simp_all
      ultimately show ?thesis unfolding n2 by simp
    qed
    show ?thesis
      unfolding Suc
    proof (rule levels_up [OF assms(1) b(2,3) _ b(1) st])
      show "2 * 2 ^ d \<le> first_leaf V" using fV(1) n2 by simp
    qed (rule ok)
  qed
  then obtain T where T: "rebuild_levels m p (?k div 2 + 1) (a div 2) V = Inr (0, T)" "merkle_inv T"
    "same_leaves UNIV V T" by blast
  have fT: "nb_nodes T = nb_nodes mt" "tree_height T = tree_height mt" "first_leaf T = ?n"
    using same_leaves_simps [OF T(3)] fV by simp_all
  have okT: "leaf_ok T j" if "j \<in> {a..<a + ?k}" for j
    using same_leaves_leaf_ok [OF T(3), of j] okV [OF that] that assms(3) fV(1) by simp
  have root: "hash_node m T 1 = Inr (0, T)"
  proof (rule rehash_same [OF assms(1)])
    show "stale T {}" using T(2) by (simp add: stale_empty)
    show "1 < nb_nodes T" using fT(1) nb first_leaf_pos [of mt] by linarith
    assume "first_leaf T \<le> 1"
    then have "a = 1" using fT(3) assms(3,4) nb k by linarith
    then show "leaf_ok T 1" using okT k by simp
  qed simp_all
  have ix: "[a..<a + ?k] \<noteq> []" "[a..<a + ?k] ! 0 = a" "length [a..<a + ?k] = ?k" using k by simp_all
  have "rebuild_levels m (tree_height U) ?k a U = Inr (0, T)"
    unfolding U(6) p rebuild_levels_step [OF V(1)] by (rule T(1))
  then have "change_and_rebuild m mt [a..<a + ?k] datas FILE_MODE = Inr (0, T)"
    using U(1) ix root by (simp add: change_and_rebuild_def)
  moreover have "\<forall>j<?k. data (nodes T (a + j)) = Str (ds ! j) \<and> hash_at T (a + j) = digest_string (ds ! j)"
    using okT dU same_leaves_simps(4) [OF T(3)] same_leaves_simps(4) [OF V(3)]
    by (auto simp: leaf_ok_def data_at_def)
  moreover have "\<forall>j\<ge>?n. j \<notin> {a..<a + ?k} \<longrightarrow> nodes T j = nodes mt j"
    using T(3) V(3) U(3) fV(1) fU by (auto simp: same_leaves_def)
  ultimately show ?thesis using T(2) fT by blast
qed


text \<open>The same loop when it reaches the first leaf and that has no page.\<close>

lemma file_mode_overshoot:
  assumes "clean m" and "merkle_inv mt" and "first_leaf mt < a" and "a + length ds \<le> nb_nodes mt"
    and "ds \<noteq> []" and "chain datas 0 ds" and "a div 2 + length ds div 2 = first_leaf mt"
    and "data (nodes mt (first_leaf mt)) = Null"
    and "length (concat ds) < 2 ^ 31"
  shows "\<exists>T. change_and_rebuild m mt [a..<a + length ds] datas FILE_MODE = Inr (-1, T)"
proof -
  let ?k = "length ds" and ?n = "first_leaf mt"
  obtain U where U: "put_pages datas [a..<a + ?k] (word_of_nat 0) mt = Inr U"
    "\<forall>j<?k. data (nodes U (a + j)) = Str (ds ! j)"
    "\<forall>j. j \<notin> {a..<a + ?k} \<longrightarrow> nodes U j = nodes mt j"
    "\<forall>j. hash (nodes U j) = hash (nodes mt j)" "nb_nodes U = nb_nodes mt" "tree_height U = tree_height mt"
    using put_pages_run [OF assms(6), of a mt] assms(9) by auto
  have s: "shaped mt" using assms(2) inv_lessons by blast
  then have nb: "nb_nodes mt = 2 * ?n" by (rule shaped_nb)
  have fU: "first_leaf U = ?n" using U(6) by (simp add: first_leaf_def)
  have stU: "stale U {a div 2..<(a + 1) div 2}"
    using assms(2) stale_same_hashes [OF U(4-6)] stale_mono [of mt "{}"] by (simp add: stale_empty)
  have dU: "\<forall>j\<in>{a..<a + ?k}. data (nodes U j) = Str (ds ! (j - a))"
    using U(2) by (metis atLeastLessThan_iff le_add_diff_inverse less_diff_conv2 add.commute)
  obtain V where V: "hash_run m ?k a U = Inr (0, V)" "stale V {a div 2..<(a + ?k + 1) div 2}"
    "same_leaves (- {a..<a + ?k}) U V"
    using run_leaves [OF assms(1) _ order_refl _ stU dU] assms(3,4) U(5) fU by auto
  have fV: "first_leaf V = ?n" using same_leaves_simps(3) [OF V(3)] fU by simp
  have "0 < ?k" using assms(5) by simp
  then have "0 < a div 2" and "?n \<noteq> 1" using assms(3,4) nb first_leaf_pos [of mt] by linarith+
  then obtain p where p: "tree_height mt = Suc (Suc p)"
    using s by (cases "tree_height mt"; cases "tree_height mt - 1") (auto simp: first_leaf_def shaped_def valid_height_def)
  have "stale V ({a div 2..<(a + ?k + 1) div 2} \<union> {a div 2 div 2..<(a div 2 + 1) div 2})"
    using V(2) by (rule stale_mono) simp
  then obtain W where W: "hash_run m (?k div 2) (a div 2) V = Inr (0, W)" "same_leaves UNIV V W"
    "stale W ({a div 2 + ?k div 2..<(a + ?k + 1) div 2} \<union> {a div 2 div 2..<(a div 2 + ?k div 2 + 1) div 2})"
    using run_inner [OF assms(1) \<open>0 < a div 2\<close> order_refl, of "?k div 2" V] assms(7) fV by auto
  have fW: "first_leaf W = ?n" using same_leaves_simps(3) [OF W(2)] fV by simp
  have sW: "shaped W" using W(3) by (simp add: stale_def all_hashed_def)
  have "data (nodes W ?n) = Null"
    using same_leaves_simps(4) [OF W(2)] same_leaves_simps(4) [OF V(3)] U(3) assms(3,8) by simp
  then have "hash_node m W ?n = Inr (-1, W)"
    using fW shaped_nb [OF sW] first_leaf_pos [of mt] by (intro hash_node_leaf_null sW) simp_all
  then have last: "hash_run m (?k div 2 + 1) (a div 2) V = Inr (-1, W)"
    unfolding hash_run_append W(1) using assms(7) by simp
  have "rebuild_levels m (tree_height U) ?k a U = Inr (-1, W)"
    unfolding U(6) p rebuild_levels_step [OF V(1)] unfolding rebuild_levels.simps last by simp
  moreover have "[a..<a + ?k] \<noteq> []" "[a..<a + ?k] ! 0 = a" "length [a..<a + ?k] = ?k"
    using assms(5) by simp_all
  ultimately show ?thesis using U(1) by (simp add: change_and_rebuild_def)
qed


section \<open>Comparison\<close>

text \<open>Node \<open>j\<close> is below \<open>i\<close> and every node from \<open>j\<close> up to \<open>i\<close> differs.\<close>

definition differs_up_to :: "merkle_tree \<Rightarrow> merkle_tree \<Rightarrow> nat \<Rightarrow> nat \<Rightarrow> bool" where
  "differs_up_to a b i j \<longleftrightarrow>
     (\<exists>k. j div 2 ^ k = i \<and> (\<forall>k'\<le>k. hash_at a (j div 2 ^ k') \<noteq> hash_at b (j div 2 ^ k')))"

lemma differs_up_to_here: "differs_up_to a b i j \<Longrightarrow> hash_at a i \<noteq> hash_at b i"
  by (auto simp: differs_up_to_def)

lemma differs_up_to_step:
  assumes "hash_at a i \<noteq> hash_at b i" and "0 < i"
  shows "differs_up_to a b i j \<longleftrightarrow>
    j = i \<or> differs_up_to a b (2 * i) j \<or> differs_up_to a b (2 * i + 1) j"
proof
  assume "differs_up_to a b i j"
  then obtain k where k: "j div 2 ^ k = i" "\<forall>k'\<le>k. hash_at a (j div 2 ^ k') \<noteq> hash_at b (j div 2 ^ k')"
    by (auto simp: differs_up_to_def)
  show "j = i \<or> differs_up_to a b (2 * i) j \<or> differs_up_to a b (2 * i + 1) j"
  proof (cases k)
    case (Suc k0)
    then have "j div 2 ^ k0 div 2 = i" using k(1) by (metis div_mult2_eq power_Suc2)
    then have "j div 2 ^ k0 = 2 * i \<or> j div 2 ^ k0 = 2 * i + 1" by linarith
    moreover have "\<forall>k'\<le>k0. hash_at a (j div 2 ^ k') \<noteq> hash_at b (j div 2 ^ k')" using k(2) Suc by simp
    ultimately show ?thesis by (auto simp: differs_up_to_def)
  qed (use k in simp)
next
  have "differs_up_to a b i j" if c: "differs_up_to a b c j" "c div 2 = i" for c
  proof -
    obtain k where k: "j div 2 ^ k = c" "\<forall>k'\<le>k. hash_at a (j div 2 ^ k') \<noteq> hash_at b (j div 2 ^ k')"
      using c(1) by (auto simp: differs_up_to_def)
    have up: "j div 2 ^ Suc k = i" using k(1) c(2) by (metis div_mult2_eq power_Suc2)
    then have "\<forall>k'\<le>Suc k. hash_at a (j div 2 ^ k') \<noteq> hash_at b (j div 2 ^ k')"
      using k(2) assms(1) le_Suc_eq by metis
    then show ?thesis using up unfolding differs_up_to_def by blast
  qed
  moreover have "differs_up_to a b i i"
    unfolding differs_up_to_def using assms(1) by (intro exI [of _ 0]) simp
  moreover assume "j = i \<or> differs_up_to a b (2 * i) j \<or> differs_up_to a b (2 * i + 1) j"
  ultimately show "differs_up_to a b i j" by fastforce
qed

lemma differs_up_to_le: "differs_up_to a b i j \<Longrightarrow> i \<le> j"
  by (auto simp: differs_up_to_def)

lemma compare_trees_spec:
  assumes "all_hashed a" and "all_hashed b" and "tree_height a = tree_height b"
    and "0 < i" and "i < nb_nodes a" and "nb_nodes a \<le> i * 2 ^ fuel"
  shows "\<exists>l. compare_trees fuel a b i = Inr l \<and> (\<forall>j. j \<in> set l \<longleftrightarrow> j < nb_nodes a \<and> differs_up_to a b i j)"
  using assms(4-)
proof (induction fuel arbitrary: i)
  case 0
  then show ?case by simp
next
  case (Suc fuel)
  have s: "shaped a" "shaped b" using assms(1,2) inv_lessons by blast+
  have nb: "nb_nodes a = 2 * first_leaf a" "nb_nodes b = nb_nodes a"
    using shaped_nb s assms(3) by (simp_all add: shaped_def first_leaf_def)
  have h: "hash (nodes a i) = Str (hash_at a i)" "hash (nodes b i) = Str (hash_at b i)"
    using assms(1,2) Suc.prems nb by (auto intro: all_hashedD)
  have ls: "leaf_start a = Inr (first_leaf a)" using s shaped_leaf_start by blast
  consider "hash_at a i = hash_at b i" | "hash_at a i \<noteq> hash_at b i" "first_leaf a \<le> i"
    | "hash_at a i \<noteq> hash_at b i" "i < first_leaf a" by linarith
  then show ?case
  proof cases
    case 1
    then show ?thesis using h differs_up_to_here [of a b i] by auto
  next
    case 2
    have "\<not> differs_up_to a b c j" if "j < nb_nodes a" "2 * i \<le> c" for c j
      using differs_up_to_le [of a b c j] that 2(2) nb by linarith
    then have "j < nb_nodes a \<and> differs_up_to a b i j \<longleftrightarrow> j = i" for j
      using differs_up_to_step [OF 2(1) Suc.prems(1)] Suc.prems(2) by (metis le_add1 order_refl)
    then show ?thesis using h 2 ls by simp
  next
    case 3
    have c: "2 * i < nb_nodes a" "2 * i + 1 < nb_nodes a" using 3(2) nb by simp_all
    have f: "nb_nodes a \<le> 2 * i * 2 ^ fuel" using Suc.prems(3) by simp
    then have f': "nb_nodes a \<le> (2 * i + 1) * 2 ^ fuel" by (simp add: algebra_simps trans_le_add2)
    obtain l where l: "compare_trees fuel a b (2 * i) = Inr l"
      "\<And>j. j \<in> set l \<longleftrightarrow> j < nb_nodes a \<and> differs_up_to a b (2 * i) j"
      using Suc.IH [OF _ c(1) f] Suc.prems(1) by auto
    obtain r where r: "compare_trees fuel a b (2 * i + 1) = Inr r"
      "\<And>j. j \<in> set r \<longleftrightarrow> j < nb_nodes a \<and> differs_up_to a b (2 * i + 1) j"
      using Suc.IH [OF _ c(2) f'] by auto
    have "compare_trees (Suc fuel) a b i = Inr (i # l @ r)"
      using h 3 ls l(1) r(1) by simp
    moreover have "j \<in> set (i # l @ r) \<longleftrightarrow> j < nb_nodes a \<and> differs_up_to a b i j" for j
      using l(2) r(2) Suc.prems(2) differs_up_to_step [OF 3(1) Suc.prems(1)] by auto
    ultimately show ?thesis by blast
  qed
qed

lemma differs_up_to_root:
  assumes "0 < j"
  shows "differs_up_to a b 1 j \<longleftrightarrow> (\<forall>k. 0 < j div 2 ^ k \<longrightarrow> hash_at a (j div 2 ^ k) \<noteq> hash_at b (j div 2 ^ k))"
proof
  assume "differs_up_to a b 1 j"
  then obtain k where k: "j div 2 ^ k = 1" "\<forall>k'\<le>k. hash_at a (j div 2 ^ k') \<noteq> hash_at b (j div 2 ^ k')"
    by (auto simp: differs_up_to_def)
  show "\<forall>k. 0 < j div 2 ^ k \<longrightarrow> hash_at a (j div 2 ^ k) \<noteq> hash_at b (j div 2 ^ k)"
  proof (intro allI impI)
    fix k' assume "0 < j div 2 ^ k'"
    have "k' \<le> k"
    proof (rule ccontr)
      assume "\<not> k' \<le> k"
      then have "j div 2 ^ k' = j div 2 ^ k div 2 ^ (k' - k)"
        by (metis div_mult2_eq le_add_diff_inverse nat_le_linear power_add)
      also have "\<dots> = 0"
        unfolding k(1) using \<open>\<not> k' \<le> k\<close> by (intro div_less one_less_power) simp_all
      finally show False using \<open>0 < j div 2 ^ k'\<close> by simp
    qed
    then show "hash_at a (j div 2 ^ k') \<noteq> hash_at b (j div 2 ^ k')" using k(2) by blast
  qed
next
  assume r: "\<forall>k. 0 < j div 2 ^ k \<longrightarrow> hash_at a (j div 2 ^ k) \<noteq> hash_at b (j div 2 ^ k)"
  let ?k = "floor_log2 j"
  have "j div 2 ^ ?k = 1" using floor_log2_bounds [OF assms] by (intro div_nat_eqI) auto
  moreover have "hash_at a (j div 2 ^ k') \<noteq> hash_at b (j div 2 ^ k')" if "k' \<le> ?k" for k'
  proof -
    have "(2::nat) ^ k' \<le> 2 ^ ?k" using that by (simp add: power_increasing)
    then have "2 ^ k' \<le> j" using floor_log2_bounds [OF assms] by linarith
    then show ?thesis using r by (simp add: div_greater_zero_iff)
  qed
  ultimately show "differs_up_to a b 1 j" by (auto simp: differs_up_to_def)
qed

lemma compare_trees_root:
  assumes "all_hashed a" and "all_hashed b" and "tree_height a = tree_height b" and "tree_height a \<le> fuel"
  shows "\<exists>l. compare_trees fuel a b 1 = Inr l \<and> (\<forall>j. j \<in> set l \<longleftrightarrow> 0 < j \<and> j < nb_nodes a \<and>
    (\<forall>k. 0 < j div 2 ^ k \<longrightarrow> hash_at a (j div 2 ^ k) \<noteq> hash_at b (j div 2 ^ k)))"
proof -
  have s: "shaped a" using assms(1) by (simp add: all_hashed_def)
  have "1 < nb_nodes a" using shaped_nb [OF s] first_leaf_pos [of a] by linarith
  moreover have "nb_nodes a \<le> 1 * 2 ^ fuel" using s assms(4) by (simp add: shaped_def power_increasing)
  ultimately obtain l where l: "compare_trees fuel a b 1 = Inr l"
    "\<forall>j. j \<in> set l \<longleftrightarrow> j < nb_nodes a \<and> differs_up_to a b 1 j"
    using compare_trees_spec [OF assms(1-3), of 1 fuel] by auto
  have "j \<in> set l \<longleftrightarrow> 0 < j \<and> j < nb_nodes a \<and>
    (\<forall>k. 0 < j div 2 ^ k \<longrightarrow> hash_at a (j div 2 ^ k) \<noteq> hash_at b (j div 2 ^ k))" for j
  proof (cases "j = 0")
    case True
    then show ?thesis using l(2) by (auto simp: differs_up_to_def)
  next
    case False
    then show ?thesis using l(2) differs_up_to_root [of j a b] by blast
  qed
  then show ?thesis using l(1) by blast
qed


section \<open>Freeing\<close>

lemma free_nodes_spec:
  assumes "\<forall>j\<in>{i..<i + k}. (\<exists>s. hash (nodes mt j) = Str s) \<and>
    (nb_nodes mt div 2 < j \<longrightarrow> data (nodes mt j) \<noteq> Wild)"
  shows "free_nodes mt k i = Inr
    (filter (\<lambda>j. nb_nodes mt div 2 < j \<and> data (nodes mt j) \<noteq> Null) [i..<i + k], [i..<i + k])"
  using assms
proof (induction k arbitrary: i)
  case (Suc k)
  have l: "[i..<i + Suc k] = i # [i + 1..<i + 1 + k]" by (simp add: upt_rec)
  have "free_nodes mt k (i + 1) = Inr (filter (\<lambda>j. nb_nodes mt div 2 < j \<and> data (nodes mt j) \<noteq> Null)
    [i + 1..<i + 1 + k], [i + 1..<i + 1 + k])"
    using Suc.prems by (intro Suc.IH) auto
  moreover have "i \<in> {i..<i + Suc k}" by simp
  moreover from this obtain s where "hash (nodes mt i) = Str s" using Suc.prems by blast
  moreover have "nb_nodes mt div 2 < i \<longrightarrow> data (nodes mt i) \<noteq> Wild" using Suc.prems by simp
  ultimately show ?case
    unfolding l by (cases "data (nodes mt i)") auto
qed simp

lemma free_merkle_full:
  assumes "full_inv mt"
  shows "free_merkle mt = Inr ([first_leaf mt + 1..<nb_nodes mt], [1..<nb_nodes mt])"
proof -
  let ?n = "first_leaf mt"
  have a: "all_hashed mt" using assms inv_lessons by blast
  then have nb: "nb_nodes mt = 2 * ?n" using all_hashed_shaped shaped_nb by blast
  have d: "\<exists>s. data (nodes mt j) = Str s" if "?n < j" "j < nb_nodes mt" for j
    using assms that by (auto simp: full_inv_def leaf_ok_def)
  have e: "1 + (nb_nodes mt - 1) = nb_nodes mt" using nb first_leaf_pos [of mt] by linarith
  have "free_nodes mt (nb_nodes mt - 1) 1 = Inr
    (filter (\<lambda>j. nb_nodes mt div 2 < j \<and> data (nodes mt j) \<noteq> Null) [1..<1 + (nb_nodes mt - 1)],
     [1..<1 + (nb_nodes mt - 1)])"
  proof (rule free_nodes_spec, intro ballI conjI impI)
    fix j assume j: "j \<in> {1..<1 + (nb_nodes mt - 1)}"
    then show "\<exists>s. hash (nodes mt j) = Str s" using all_hashedD(1) [OF a, of j] e by auto
    assume "nb_nodes mt div 2 < j"
    then show "data (nodes mt j) \<noteq> Wild" using d [of j] j nb e by auto
  qed
  moreover have "filter (\<lambda>j. nb_nodes mt div 2 < j \<and> data (nodes mt j) \<noteq> Null) [1..<nb_nodes mt] =
    [?n + 1..<nb_nodes mt]"
  proof -
    have "[1..<nb_nodes mt] = [1..<?n + 1] @ [?n + 1..<nb_nodes mt]"
      using upt_add_eq_append [of 1 "?n + 1" "?n - 1"] nb first_leaf_pos [of mt] by (simp add: mult_2 Suc_le_eq)
    moreover have "filter (\<lambda>j. nb_nodes mt div 2 < j \<and> data (nodes mt j) \<noteq> Null) [1..<?n + 1] = []"
      using nb by (auto simp: filter_empty_conv)
    moreover have "filter (\<lambda>j. nb_nodes mt div 2 < j \<and> data (nodes mt j) \<noteq> Null) [?n + 1..<nb_nodes mt] =
        [?n + 1..<nb_nodes mt]"
    proof (rule filter_True, intro ballI conjI)
      fix x assume "x \<in> set [?n + 1..<nb_nodes mt]"
      then have x: "?n < x" "x < nb_nodes mt" by simp_all
      show "nb_nodes mt div 2 < x" using x(1) nb by simp
      show "data (nodes mt x) \<noteq> Null" using d [OF x] by auto
    qed
    ultimately show ?thesis by simp
  qed
  ultimately show ?thesis by (simp only: free_merkle_def e)
qed


section \<open>Properties\<close>

text \<open>
  C14: buffer mode on one leaf: \<open>change_and_rebuild\<close> returns 0, the tree keeps its shape and its
  invariant, the leaf has the new page and its digest, and no other leaf changes.
\<close>

theorem change_one_page:
  assumes "clean m" and "merkle_inv mt" and "first_leaf mt \<le> i" and "i < nb_nodes mt"
    and "datas 0 = Str s" and "fits_leaf s"
  shows "\<exists>T. change_and_rebuild m mt [i] datas BUFFER_MODE = Inr (0, T) \<and> merkle_inv T \<and>
    nb_nodes T = nb_nodes mt \<and> tree_height T = tree_height mt \<and>
    data (nodes T i) = Str s \<and> hash_at T i = digest_string s \<and>
    (\<forall>j\<ge>first_leaf mt. j \<noteq> i \<longrightarrow> nodes T j = nodes mt j) \<and> (full_inv mt \<longrightarrow> full_inv T)"
proof -
  obtain T where T: "change_and_rebuild m mt [i] datas BUFFER_MODE = Inr (0, T)" "merkle_inv T"
    "same_leaves (- {i}) (set_data mt i (Str s)) T" "hash_at T i = digest_string s"
    using buffer_mode [where datas = datas and s = s, OF assms] by blast
  have f: "nb_nodes T = nb_nodes mt" "tree_height T = tree_height mt" "first_leaf T = first_leaf mt"
    and d: "data (nodes T i) = Str s"
    using same_leaves_simps [OF T(3)] by simp_all
  have o: "nodes T j = nodes mt j" if "first_leaf mt \<le> j" "j \<noteq> i" for j
  proof -
    have "nodes (set_data mt i (Str s)) j = nodes T j"
      using T(3) that by (simp add: same_leaves_def)
    then show ?thesis using that(2) by (simp add: set_data_def)
  qed
  have "full_inv T" if "full_inv mt"
  proof -
    have "leaf_ok T j" if "first_leaf mt \<le> j" "j < nb_nodes mt" for j
      using that T(4) d o [of j] \<open>full_inv mt\<close>
      by (cases "j = i") (auto simp: leaf_ok_def data_at_def hash_at_def full_inv_def)
    then show ?thesis using T(2) f by (simp add: full_inv_def)
  qed
  then show ?thesis using T f d o by blast
qed

theorem change_one_page_witness:
  "\<exists>T. change_and_rebuild plain_memory tree_abc [3] two_pages BUFFER_MODE = Inr (0, T) \<and> merkle_inv T \<and>
    nb_nodes T = nb_nodes tree_abc \<and> tree_height T = tree_height tree_abc \<and>
    data (nodes T 3) = Str ''abc'' \<and> hash_at T 3 = digest_string ''abc'' \<and>
    (\<forall>j\<ge>first_leaf tree_abc. j \<noteq> 3 \<longrightarrow> nodes T j = nodes tree_abc j) \<and>
    (full_inv tree_abc \<longrightarrow> full_inv T)"
  by (rule change_one_page) (simp_all add: two_pages_def fits_leaf_def size_defs full_inv_merkle)

text \<open>
  C15: file mode on consecutive leaves, with pages shorter than \<open>2 ^ 31\<close> together, when the loop over the levels
  does not run onto a first leaf without a page: \<open>change_and_rebuild\<close> returns 0, the invariant holds again, the leaves
  have the new pages and their digests, and no other leaf changes.
\<close>

theorem change_pages_in_file:
  assumes "clean m" and "merkle_inv mt" and "first_leaf mt \<le> a" and "a + length ds \<le> nb_nodes mt"
    and "ds \<noteq> []" and "chain datas 0 ds" and "first_leaf_ready mt a (length ds)"
    and "length (concat ds) < 2 ^ 31"
  shows "\<exists>T. change_and_rebuild m mt [a..<a + length ds] datas FILE_MODE = Inr (0, T) \<and> merkle_inv T \<and>
    nb_nodes T = nb_nodes mt \<and> tree_height T = tree_height mt \<and>
    (\<forall>j<length ds. data (nodes T (a + j)) = Str (ds ! j) \<and> hash_at T (a + j) = digest_string (ds ! j)) \<and>
    (\<forall>j\<ge>first_leaf mt. j \<notin> {a..<a + length ds} \<longrightarrow> nodes T j = nodes mt j)"
  by (rule file_mode [OF assms])

theorem change_pages_in_file_witness:
  "\<exists>T. change_and_rebuild plain_memory tree_blank [2..<2 + length [''abc'', '' '']] two_pages FILE_MODE =
      Inr (0, T) \<and> merkle_inv T \<and>
    nb_nodes T = nb_nodes tree_blank \<and> tree_height T = tree_height tree_blank \<and>
    (\<forall>j<length [''abc'', '' '']. data (nodes T (2 + j)) = Str ([''abc'', '' ''] ! j) \<and>
      hash_at T (2 + j) = digest_string ([''abc'', '' ''] ! j)) \<and>
    (\<forall>j\<ge>first_leaf tree_blank. j \<notin> {2..<2 + length [''abc'', '' '']} \<longrightarrow> nodes T j = nodes tree_blank j)"
  by (rule change_pages_in_file) (simp_all add: two_pages_def full_inv_merkle first_leaf_ready_def)

text \<open>
  C37: file mode fails although the pages are there and shorter than \<open>2 ^ 31\<close> together: when the pages end at the last leaf, or one
  before it, and the first leaf carries no page, as in a tree read from its string in zeroed
  memory, the loop hashes the first leaf again and returns -1.
\<close>

theorem change_pages_overshoot:
  assumes "clean m" and "merkle_inv mt" and "first_leaf mt < a" and "a + length ds \<le> nb_nodes mt"
    and "ds \<noteq> []" and "chain datas 0 ds" and "a div 2 + length ds div 2 = first_leaf mt"
    and "data (nodes mt (first_leaf mt)) = Null"
    and "length (concat ds) < 2 ^ 31"
  shows "\<exists>T. change_and_rebuild m mt [a..<a + length ds] datas FILE_MODE = Inr (-1, T)"
  by (rule file_mode_overshoot [OF assms])

definition tree_four :: merkle_tree where
  "tree_four = set_data (built plain_memory (empty_tree 3) ['' '', '' '', '' '', '' '']) 4 Null"

theorem change_pages_overshoot_witness:
  "\<exists>T. change_and_rebuild plain_memory tree_four [6..<6 + length [''abc'', '' '']] two_pages FILE_MODE = Inr (-1, T)"
  by (rule change_pages_overshoot)
     (simp_all add: two_pages_def tree_four_def full_inv_merkle built_full_inv built_first_leaf)

text \<open>
  C26: \<open>compare_trees\<close> from the root of two trees of the same height returns, within a recursion
  depth of the height, and reports exactly the nodes that differ together with all the nodes
  above them.
\<close>

theorem compare_trees_reports:
  assumes "all_hashed a" and "all_hashed b" and "tree_height a = tree_height b" and "tree_height a \<le> fuel"
  shows "\<exists>l. compare_trees fuel a b 1 = Inr l \<and> (\<forall>j. j \<in> set l \<longleftrightarrow> 0 < j \<and> j < nb_nodes a \<and>
    (\<forall>k. 0 < j div 2 ^ k \<longrightarrow> hash_at a (j div 2 ^ k) \<noteq> hash_at b (j div 2 ^ k)))"
  by (rule compare_trees_root [OF assms])

theorem compare_trees_reports_witness:
  "\<exists>l. compare_trees 2 tree_abc tree_blank 1 = Inr l \<and> (\<forall>j. j \<in> set l \<longleftrightarrow> 0 < j \<and> j < nb_nodes tree_abc \<and>
    (\<forall>k. 0 < j div 2 ^ k \<longrightarrow> hash_at tree_abc (j div 2 ^ k) \<noteq> hash_at tree_blank (j div 2 ^ k)))"
  by (rule compare_trees_reports) (simp_all add: inv_lessons)

text \<open>
  Freeing a tree with the full invariant frees every hash and every page except the page of
  the first leaf, which is lost.
\<close>

theorem free_merkle_forgets_first_leaf:
  assumes "full_inv mt"
  shows "\<exists>ds. free_merkle mt = Inr (ds, [1..<nb_nodes mt]) \<and> first_leaf mt \<notin> set ds \<and>
    set ds = {first_leaf mt<..<nb_nodes mt} \<and> data (nodes mt (first_leaf mt)) \<noteq> Null"
proof -
  have nb: "first_leaf mt < nb_nodes mt"
    using shaped_nb [of mt] first_leaf_pos [of mt] assms inv_lessons by (metis mult_2 less_add_same_cancel1)
  then have "leaf_ok mt (first_leaf mt)" using assms by (simp add: full_inv_def)
  then show ?thesis using free_merkle_full [OF assms] by (auto simp: leaf_ok_def)
qed

theorem free_merkle_forgets_first_leaf_witness:
  "\<exists>ds. free_merkle tree_abc = Inr (ds, [1..<nb_nodes tree_abc]) \<and> first_leaf tree_abc \<notin> set ds \<and>
    set ds = {first_leaf tree_abc<..<nb_nodes tree_abc} \<and> data (nodes tree_abc (first_leaf tree_abc)) \<noteq> Null"
  by (rule free_merkle_forgets_first_leaf) simp

end
