(* ===== verification/Parse.thy ===== *)
theory Parse
  imports Threads Tree_String Rebuild
begin

text \<open>
  The functions of \<^verbatim>\<open>merkle_tree/parse.c\<close> that build a tree from a file: \<open>compute_tree_size\<close>,
  \<open>is_full\<close>, \<open>compute_merkle\<close> and \<open>m_compute_merkle\<close>. A file is the list of its bytes.
\<close>

unbundle bit_operations_syntax


section \<open>The size of the tree\<close>

text \<open>Argument and value are \<open>int\<close>s, the computation is on \<open>unsigned int\<close>: the same 32 bits, which \<open>sint\<close> reads as the \<open>int\<close>.\<close>

definition compute_tree_size :: "32 word \<Rightarrow> 32 word" where
  "compute_tree_size index =
     (let v = index - 1;
          v = v OR drop_bit 1 v;
          v = v OR drop_bit 2 v;
          v = v OR drop_bit 4 v;
          v = v OR drop_bit 8 v;
          v = v OR drop_bit 16 v
      in v + 1)"

definition is_full :: "nat \<Rightarrow> nat" where
  "is_full file_size = (if file_size mod PAGE_LENGTH = 0 then 1 else 0)"


section \<open>Reading a file into an array of pages\<close>

text \<open>
  \<open>int file_size = ftell(*fp)\<close> keeps the low 32 bits, and \<open>file_size + 1\<close> bytes are allocated. For -1 these are none, and \<open>fread\<close>
  writes behind them; for other negative sizes the allocation fails and \<open>fread\<close> writes through a null pointer; for
  the largest \<open>int\<close> the sum overflows.
\<close>

definition int_file_size :: "string \<Rightarrow> fault + nat" where
  "int_file_size content =
     (let file_size = as_int (int (length content))
      in if file_size = -1 then Inl Overrun
         else if file_size < 0 then Inl Bad_pointer
         else bind_c (int_result (nat file_size + 1)) (\<lambda>_. Inr (nat file_size)))"

text \<open>
  \<open>file_string\<close>: the bytes that were read and, behind them, what \<open>malloc\<close> left in memory: at
  least one byte, to which the code writes nothing.
\<close>

definition read_file :: "string \<Rightarrow> string \<Rightarrow> nat \<Rightarrow> char list" where
  "read_file slack content file_size = take file_size content @ slack"

text \<open>\<open>strncpy(page, file_string + p, PAGE_LENGTH)\<close> into a zeroed buffer that is longer.\<close>

definition copy_page :: "char list \<Rightarrow> nat \<Rightarrow> fault + string" where
  "copy_page file_string p =
     (let b = take PAGE_LENGTH (drop p file_string)
      in if nul \<notin> set b \<and> length b < PAGE_LENGTH then Inl Unterminated
         else Inr (takeWhile (\<lambda>c. c \<noteq> nul) b))"

fun copy_pages_to :: "char list \<Rightarrow> nat \<Rightarrow> nat \<Rightarrow> (nat \<Rightarrow> c_ptr) \<Rightarrow> fault + (nat \<Rightarrow> c_ptr)" where
  "copy_pages_to file_string 0 i slots = Inr slots"
| "copy_pages_to file_string (Suc k) i slots =
     bind_c (copy_page file_string (i * PAGE_LENGTH)) (\<lambda>s.
     copy_pages_to file_string k (i + 1) (slots(i * PAGE_LENGTH := Str s)))"

text \<open>The array after its allocation: an empty buffer every \<open>PAGE_LENGTH\<close> slots, else null.\<close>

definition empty_slots :: "nat \<Rightarrow> nat \<Rightarrow> c_ptr" where
  "empty_slots tree_size p =
     (if p mod PAGE_LENGTH = 0 \<and> p div PAGE_LENGTH < tree_size then Str [] else Null)"

fun fill_slots :: "nat \<Rightarrow> nat \<Rightarrow> (nat \<Rightarrow> c_ptr) \<Rightarrow> nat \<Rightarrow> c_ptr" where
  "fill_slots 0 p slots = slots"
| "fill_slots (Suc k) p slots = fill_slots k (p + 1) (slots(p := Str '' ''))"

record parsed =
  nb_of_pages :: nat
  page_full :: nat
  tree_size :: nat
  parsed_file :: "nat \<Rightarrow> c_ptr"
  last_page :: string

text \<open>
  From the size of the file to the array; \<open>last_page\<close> is the text of a page that is not full.
  It goes into a buffer of \<open>8 * PAGE_LENGTH\<close> zero bytes without a terminator of its own. After the loop that allocates the
  buffers the pointer to the array is moved back by \<open>tree_size * PAGE_LENGTH\<close>, a product of \<open>int\<close>s.
\<close>

definition parse_file :: "string \<Rightarrow> string \<Rightarrow> nat \<Rightarrow> fault + parsed" where
  "parse_file slack content file_size =
     (let file_string = read_file slack content file_size;
          full = is_full file_size;
          nb = file_size div PAGE_LENGTH;
          size = nat (sint (compute_tree_size (word_of_nat (nb + 1 - full))))
      in bind_c (int_result (size * PAGE_LENGTH)) (\<lambda>_.
         bind_c (copy_pages_to file_string nb 0 (empty_slots size)) (\<lambda>slots.
         if full = 1 then
           Inr \<lparr>nb_of_pages = nb, page_full = full, tree_size = size,
             parsed_file = fill_slots (size - nb) (nb * PAGE_LENGTH) slots, last_page = []\<rparr>
         else
           bind_c (c_string (drop (nb * PAGE_LENGTH) file_string)) (\<lambda>s.
           if 8 * PAGE_LENGTH \<le> length s then Inl Overrun else
           Inr \<lparr>nb_of_pages = nb, page_full = full, tree_size = size,
             parsed_file = fill_slots (size - (nb + 1)) (nb * PAGE_LENGTH + length s)
               (slots(nb * PAGE_LENGTH := Str s)), last_page = s\<rparr>))))"

text \<open>
  The clean-up frees the buffer of the page that is not full through its slot. When that page
  is empty as a string the first filler has taken the slot, and a literal is freed.
\<close>

definition free_pages :: "parsed \<Rightarrow> fault + unit" where
  "free_pages p =
     (if page_full p = 0 \<and> last_page p = [] \<and> nb_of_pages p + 1 < tree_size p then Inl Bad_pointer
      else Inr ())"


section \<open>Computing the tree of a file\<close>

text \<open>
  The second component is what \<open>*result\<close> points to; it is \<open>Wild\<close> where nothing was written.
\<close>

definition compute_merkle ::
  "memory \<Rightarrow> string \<Rightarrow> string option \<Rightarrow> merkle_tree \<Rightarrow> c_ptr \<Rightarrow> fault + int \<times> merkle_tree \<times> c_ptr"
where
  "compute_merkle m slack fp mt result =
     (case fp of
        None \<Rightarrow> Inr (-1, mt, result)
      | Some content \<Rightarrow>
          bind_c (int_file_size content) (\<lambda>file_size.
          bind_c (parse_file slack content file_size) (\<lambda>p.
          bind_c (c_log2 (tree_size p)) (\<lambda>l.
          bind_c (build_tree m (mt\<lparr>tree_height := l + 1, nb_nodes := 0, nb_of_leaves := tree_size p\<rparr>)
                    (parsed_file p)) (\<lambda>(r, mt).
          if r = -1 then Inr (-1, mt, Wild) else
          bind_c (tree_to_string mt (8 * HASH_SIZE * 2 * tree_size p)) (\<lambda>s.
          bind_c (free_merkle mt) (\<lambda>_.
          bind_c (free_pages p) (\<lambda>_.
          Inr (0, mt, Str s)))))))))"

text \<open>
  With several threads an error of \<open>m_build_tree\<close> is logged and the function goes on. With
  fewer full pages than threads the single-threaded function does the work.
\<close>

definition m_compute_merkle ::
  "memory \<Rightarrow> nat list \<Rightarrow> string \<Rightarrow> string option \<Rightarrow> merkle_tree \<Rightarrow> c_ptr \<Rightarrow> nat \<Rightarrow>
   fault + int \<times> merkle_tree \<times> c_ptr"
where
  "m_compute_merkle m sched slack fp mt result nb_threads =
     (case fp of
        None \<Rightarrow> Inr (-1, mt, result)
      | Some content \<Rightarrow>
          bind_c (int_file_size content) (\<lambda>file_size.
          if file_size div PAGE_LENGTH < nb_threads then compute_merkle m slack fp mt result
          else
          bind_c (parse_file slack content file_size) (\<lambda>p.
          bind_c (c_log2 (tree_size p)) (\<lambda>l.
          bind_c (m_build_tree m sched
                    (mt\<lparr>tree_height := l + 1, nb_nodes := 0, nb_of_leaves := tree_size p\<rparr>)
                    (parsed_file p) nb_threads) (\<lambda>(r, mt).
          bind_c (tree_to_string mt (8 * HASH_SIZE * 2 * tree_size p)) (\<lambda>s.
          bind_c (free_merkle mt) (\<lambda>_.
          bind_c (free_pages p) (\<lambda>_.
          Inr (0, mt, Str s)))))))))"


section \<open>The next power of two\<close>

text \<open>Each step doubles the length of the runs of bits below a set bit.\<close>

definition smeared :: "32 word \<Rightarrow> nat \<Rightarrow> 32 word \<Rightarrow> bool" where
  "smeared w p v \<longleftrightarrow> (\<forall>i. bit v i \<longleftrightarrow> (\<exists>d<p. bit w (i + d)))"

lemma smeared_step:
  assumes "smeared w p v"
  shows "smeared w (2 * p) (v OR drop_bit p v)"
  unfolding smeared_def
proof
  fix i
  have "bit (v OR drop_bit p v) i \<longleftrightarrow> (\<exists>d<p. bit w (i + d)) \<or> (\<exists>d<p. bit w (i + (p + d)))"
    using assms by (simp add: smeared_def bit_or_iff bit_drop_bit_eq add.assoc add.left_commute)
  also have "\<dots> \<longleftrightarrow> (\<exists>d<2 * p. bit w (i + d))"
  proof
    assume "\<exists>d<2 * p. bit w (i + d)"
    then obtain d where d: "d < 2 * p" "bit w (i + d)" by blast
    show "(\<exists>d<p. bit w (i + d)) \<or> (\<exists>d<p. bit w (i + (p + d)))"
    proof (cases "d < p")
      case False
      then have "d - p < p" "p + (d - p) = d" using d(1) by simp_all
      then show ?thesis using d(2) by metis
    qed (use d in blast)
  next
    assume "(\<exists>d<p. bit w (i + d)) \<or> (\<exists>d<p. bit w (i + (p + d)))"
    moreover have "d < 2 * p" "p + d < 2 * p" if "d < p" for d using that by simp_all
    ultimately show "\<exists>d<2 * p. bit w (i + d)" by blast
  qed
  finally show "bit (v OR drop_bit p v) i \<longleftrightarrow> (\<exists>d<2 * p. bit w (i + d))" .
qed

lemma bit_nat_le: "bit (n :: nat) j \<Longrightarrow> 2 ^ j \<le> n"
  by (metis bit_iff_odd div_less even_zero not_le)

lemma bit_nat_top: "0 < n \<Longrightarrow> bit (n :: nat) (floor_log2 n)"
proof -
  assume "0 < n"
  then have "n div 2 ^ floor_log2 n = 1" using floor_log2_bounds [of n] by (intro div_nat_eqI) auto
  then show ?thesis by (simp add: bit_iff_odd)
qed

lemma bit_unat: "bit (w :: 32 word) j \<longleftrightarrow> bit (unat w) j"
  by (simp add: bit_unsigned_iff)

lemma smeared_mask:
  assumes "smeared w 32 v" and "w \<noteq> 0"
  shows "v = mask (Suc (floor_log2 (unat w)))"
proof (rule bit_word_eqI)
  fix i assume "i < LENGTH(32)"
  then have i: "i < 32" by simp
  have w: "0 < unat w" using assms(2) by (simp add: unat_gt_0)
  let ?k = "floor_log2 (unat w)"
  have "bit w ?k" using bit_nat_top [OF w] bit_unat by blast
  then have "?k < 32" using bit_imp_le_length by fastforce
  have le: "j \<le> ?k" if "bit w j" for j
  proof -
    have "2 ^ j \<le> unat w" using that bit_unat bit_nat_le by blast
    then have "(2::nat) ^ j < 2 ^ Suc ?k" using floor_log2_bounds [OF w] unfolding power_Suc by linarith
    then show ?thesis
      by (simp only: power_strict_increasing_iff one_less_numeral_iff semiring_norm less_Suc_eq_le)
  qed
  have "bit v i \<longleftrightarrow> i \<le> ?k"
  proof
    assume "bit v i"
    then obtain d where "bit w (i + d)" using assms(1) by (auto simp: smeared_def)
    then show "i \<le> ?k" using le by fastforce
  next
    assume "i \<le> ?k"
    then have "?k - i < 32" "i + (?k - i) = ?k" using \<open>?k < 32\<close> by simp_all
    then show "bit v i" using assms(1) \<open>bit w ?k\<close> unfolding smeared_def by metis
  qed
  then show "bit v i = bit (mask (Suc ?k) :: 32 word) i"
    using i by (simp add: bit_mask_iff less_Suc_eq_le)
qed

lemma smear_all:
  "smeared w 32 (let v = w; v = v OR drop_bit 1 v; v = v OR drop_bit 2 v; v = v OR drop_bit 4 v;
     v = v OR drop_bit 8 v in v OR drop_bit 16 v)"
proof -
  have 0: "smeared w 1 w" by (simp add: smeared_def)
  have 1: "smeared w 2 (v OR drop_bit 1 v)" if "smeared w 1 v" for v using smeared_step [OF that] by simp
  have 2: "smeared w 4 (v OR drop_bit 2 v)" if "smeared w 2 v" for v using smeared_step [OF that] by simp
  have 3: "smeared w 8 (v OR drop_bit 4 v)" if "smeared w 4 v" for v using smeared_step [OF that] by simp
  have 4: "smeared w 16 (v OR drop_bit 8 v)" if "smeared w 8 v" for v using smeared_step [OF that] by simp
  have 5: "smeared w 32 (v OR drop_bit 16 v)" if "smeared w 16 v" for v using smeared_step [OF that] by simp
  show ?thesis unfolding Let_def by (intro 5 4 3 2 1 0)
qed

lemma tree_size_mask:
  assumes "index \<noteq> 1"
  shows "compute_tree_size index = 2 ^ Suc (floor_log2 (unat (index - 1)))"
proof -
  have "index - 1 \<noteq> 0" using assms by simp
  from smeared_mask [OF smear_all this] show ?thesis
    by (simp add: compute_tree_size_def Let_def mask_eq_decr_exp)
qed

text \<open>The least power of two that is not below a positive number.\<close>

definition pow2_ceil :: "nat \<Rightarrow> nat" where
  "pow2_ceil n = (if n \<le> 1 then 1 else 2 ^ Suc (floor_log2 (n - 1)))"

lemma pow2_ceil_bounds:
  assumes "0 < n"
  shows "n \<le> pow2_ceil n" and "pow2_ceil n < 2 * n"
proof -
  have "n \<le> pow2_ceil n \<and> pow2_ceil n < 2 * n"
  proof (cases "n = 1")
    case False
    then have "1 < n" using assms by simp
    then have "2 ^ floor_log2 (n - 1) \<le> n - 1 \<and> n - 1 < 2 * 2 ^ floor_log2 (n - 1)"
      by (intro floor_log2_bounds) simp
    moreover have "pow2_ceil n = 2 * 2 ^ floor_log2 (n - 1)" using \<open>1 < n\<close> by (simp add: pow2_ceil_def)
    ultimately show ?thesis using \<open>1 < n\<close> by linarith
  qed (simp add: pow2_ceil_def)
  then show "n \<le> pow2_ceil n" "pow2_ceil n < 2 * n" by simp_all
qed

lemma tree_size_pow2_ceil:
  assumes "0 < n" and "n \<le> 2 ^ 31"
  shows "unat (compute_tree_size (word_of_nat n)) = pow2_ceil n"
proof (cases "n = 1")
  case True
  then show ?thesis by (simp add: compute_tree_size_def Let_def pow2_ceil_def)
next
  case False
  then have n: "1 < n" using assms(1) by simp
  have u: "unat (word_of_nat n - 1 :: 32 word) = n - 1"
  proof -
    have "(word_of_nat n - 1 :: 32 word) = word_of_nat (n - 1)" using n by (simp add: of_nat_diff)
    then show ?thesis using assms(2) by (simp add: unat_of_nat)
  qed
  have "(word_of_nat n :: 32 word) \<noteq> 1"
    using u n by auto
  from tree_size_mask [OF this] u
  have c: "compute_tree_size (word_of_nat n) = 2 ^ Suc (floor_log2 (n - 1))" by simp
  have "0 < n - 1" "n - 1 < 2 ^ 31" using n assms(2) by linarith+
  then have "(2::nat) ^ floor_log2 (n - 1) < 2 ^ 31" using floor_log2_bounds [of "n - 1"] by linarith
  then have "floor_log2 (n - 1) < 31"
    by (simp only: power_strict_increasing_iff one_less_numeral_iff semiring_norm)
  then have "unat (2 ^ Suc (floor_log2 (n - 1)) :: 32 word) = 2 ^ Suc (floor_log2 (n - 1))"
  proof -
    have "(2 :: nat) ^ Suc (floor_log2 (n - 1)) < 2 ^ 32"
      using \<open>floor_log2 (n - 1) < 31\<close> by (intro power_strict_increasing) simp_all
    moreover have "(2 ^ Suc (floor_log2 (n - 1)) :: 32 word) = word_of_nat (2 ^ Suc (floor_log2 (n - 1)))"
      by simp
    ultimately show ?thesis by (simp only: unat_of_nat) simp
  qed
  then show ?thesis using c n by (simp add: pow2_ceil_def)
qed



section \<open>The pages of a file\<close>

definition file_pages :: "string \<Rightarrow> string list" where
  "file_pages content =
     map (\<lambda>i. take PAGE_LENGTH (drop (i * PAGE_LENGTH) content))
       [0..<(length content + PAGE_LENGTH - 1) div PAGE_LENGTH]"

definition padded_pages :: "string \<Rightarrow> string list" where
  "padded_pages content =
     (let ps = file_pages content in ps @ replicate (pow2_ceil (length ps) - length ps) '' '')"

text \<open>
  What the code needs of a file: text without terminators, at least one byte, a size to which 1 can be added
  as an \<open>int\<close>, and a terminator that happens to stand behind the bytes read.
\<close>

definition good_file :: "string \<Rightarrow> string \<Rightarrow> bool" where
  "good_file slack content \<longleftrightarrow> is_c_string content \<and> content \<noteq> [] \<and> length content + 1 < 2 ^ 31 \<and>
     slack \<noteq> [] \<and> hd slack = nul"

lemma PAGE_LENGTH_pos [simp]: "0 < PAGE_LENGTH" "PAGE_LENGTH \<noteq> 0"
  by (simp_all add: PAGE_LENGTH_def)

lemma copy_pages_to_eq:
  assumes "\<forall>j\<in>{i..<i + k}. copy_page file_string (j * PAGE_LENGTH) = Inr (pg j)"
  shows "copy_pages_to file_string k i slots = Inr (\<lambda>q.
    if q mod PAGE_LENGTH = 0 \<and> i \<le> q div PAGE_LENGTH \<and> q div PAGE_LENGTH < i + k
    then Str (pg (q div PAGE_LENGTH)) else slots q)"
  using assms
proof (induction k arbitrary: i slots)
  case (Suc k)
  have s: "copy_page file_string (i * PAGE_LENGTH) = Inr (pg i)" using Suc.prems by simp
  let ?sl = "slots(i * PAGE_LENGTH := Str (pg i))"
  have at: "q = i * PAGE_LENGTH \<longleftrightarrow> q mod PAGE_LENGTH = 0 \<and> q div PAGE_LENGTH = i" for q
    using div_mult_mod_eq [of q PAGE_LENGTH] by auto
  have "copy_pages_to file_string (Suc k) i slots = copy_pages_to file_string k (i + 1) ?sl"
    using s by simp
  also have "\<dots> = Inr (\<lambda>q. if q mod PAGE_LENGTH = 0 \<and> i + 1 \<le> q div PAGE_LENGTH \<and>
      q div PAGE_LENGTH < i + 1 + k then Str (pg (q div PAGE_LENGTH)) else ?sl q)"
    using Suc.prems by (intro Suc.IH) auto
  also have "\<dots> = Inr (\<lambda>q. if q mod PAGE_LENGTH = 0 \<and> i \<le> q div PAGE_LENGTH \<and>
      q div PAGE_LENGTH < i + Suc k then Str (pg (q div PAGE_LENGTH)) else slots q)"
    by (auto simp: fun_eq_iff at)
  finally show ?case .
qed (auto simp: fun_eq_iff)

lemma fill_slots_eq: "fill_slots k p slots = (\<lambda>q. if p \<le> q \<and> q < p + k then Str '' '' else slots q)"
  by (induction k arbitrary: p slots) (auto simp: fun_eq_iff)

lemma chain_pages:
  "(\<And>i. a \<le> i \<Longrightarrow> i < a + k \<Longrightarrow> datas (i * PAGE_LENGTH) = Str (f i) \<and> length (f i) = PAGE_LENGTH) \<Longrightarrow>
   chain datas (a * PAGE_LENGTH) (map f [a..<a + k])"
proof (induction k arbitrary: a)
  case (Suc k)
  have l: "[a..<a + Suc k] = a # [Suc a..<Suc a + k]" by (simp add: upt_rec)
  have "datas (a * PAGE_LENGTH) = Str (f a) \<and> length (f a) = PAGE_LENGTH" by (rule Suc.prems) simp_all
  moreover have "chain datas (Suc a * PAGE_LENGTH) (map f [Suc a..<Suc a + k])"
    by (rule Suc.IH) (rule Suc.prems, simp_all)
  ultimately show ?case unfolding l by (simp add: add.commute)
qed simp

lemma chain_fillers:
  "(\<And>q. p \<le> q \<Longrightarrow> q < p + k \<Longrightarrow> datas q = Str '' '') \<Longrightarrow> chain datas p (replicate k '' '')"
  by (induction k arbitrary: p) auto

lemma length_pages: "(\<And>i. i \<in> set is \<Longrightarrow> length (f i) = n) \<Longrightarrow> length (concat (map f is)) = n * length is"
  by (induction "is") auto

lemma copy_page_full:
  assumes "is_c_string content" and "(i + 1) * PAGE_LENGTH \<le> length content"
  shows "copy_page (content @ slack) (i * PAGE_LENGTH) =
      Inr (take PAGE_LENGTH (drop (i * PAGE_LENGTH) content))"
    and "length (take PAGE_LENGTH (drop (i * PAGE_LENGTH) content)) = PAGE_LENGTH"
proof -
  let ?b = "take PAGE_LENGTH (drop (i * PAGE_LENGTH) content)"
  have le: "i * PAGE_LENGTH + PAGE_LENGTH \<le> length content" using assms(2) by simp
  then show l: "length ?b = PAGE_LENGTH" by simp
  have "take PAGE_LENGTH (drop (i * PAGE_LENGTH) (content @ slack)) = ?b" using le by simp
  moreover have "nul \<notin> set ?b"
    using assms(1) by (auto simp: is_c_string_def dest: in_set_takeD in_set_dropD)
  moreover from this have "takeWhile (\<lambda>c. c \<noteq> nul) ?b = ?b" by (intro takeWhile_eq_all_conv [THEN iffD2]) auto
  ultimately show "copy_page (content @ slack) (i * PAGE_LENGTH) = Inr ?b"
    using l unfolding copy_page_def Let_def by simp
qed

lemma int_file_size_ok: "length content + 1 < 2 ^ 31 \<Longrightarrow> int_file_size content = Inr (length content)"
  by (simp add: int_file_size_def Let_def fits_int_def)

text \<open>The number of pages, for a file that ends with a full page and for one that does not.\<close>

lemma page_number:
  assumes "0 < n"
  shows "(n + PAGE_LENGTH - 1) div PAGE_LENGTH = n div PAGE_LENGTH + 1 - is_full n"
    and "n div PAGE_LENGTH + 1 - is_full n \<noteq> 0"
proof -
  let ?q = "n div PAGE_LENGTH" and ?r = "n mod PAGE_LENGTH"
  have n: "n = ?q * PAGE_LENGTH + ?r" by simp
  have r: "?r < PAGE_LENGTH" by simp
  show "(n + PAGE_LENGTH - 1) div PAGE_LENGTH = ?q + 1 - is_full n"
  proof (cases "?r = 0")
    case True
    then have "n = ?q * PAGE_LENGTH" using n by simp
    moreover have "n + PAGE_LENGTH - 1 = n + (PAGE_LENGTH - 1)" using PAGE_LENGTH_pos by linarith
    ultimately have "n + PAGE_LENGTH - 1 = ?q * PAGE_LENGTH + (PAGE_LENGTH - 1)" by metis
    also have "\<dots> div PAGE_LENGTH = ?q" by (intro div_nat_eqI) (simp_all add: PAGE_LENGTH_def)
    finally show ?thesis using True by (simp add: is_full_def)
  next
    case False
    then have "n + PAGE_LENGTH - 1 = (?q + 1) * PAGE_LENGTH + (?r - 1)" using n by simp
    also have "\<dots> div PAGE_LENGTH = ?q + 1"
    proof -
      have "?r - 1 < PAGE_LENGTH" using r by linarith
      then show ?thesis by (intro div_nat_eqI) auto
    qed
    finally show ?thesis using False by (simp add: is_full_def)
  qed
  show "?q + 1 - is_full n \<noteq> 0" using assms by (auto simp: is_full_def)
qed



section \<open>What parsing a good file gives\<close>

text \<open>The array holds the padded pages.\<close>

lemma is_full_cases: "is_full n = 1 \<or> is_full n = 0"
  by (simp add: is_full_def)

lemma file_pages_split:
  assumes "content \<noteq> []"
  shows "file_pages content = map (\<lambda>i. take PAGE_LENGTH (drop (i * PAGE_LENGTH) content))
      [0..<length content div PAGE_LENGTH] @
    (if is_full (length content) = 1 then []
     else [drop (length content div PAGE_LENGTH * PAGE_LENGTH) content])"
proof -
  let ?q = "length content div PAGE_LENGTH"
  have c: "0 < length content" using assms by simp
  show ?thesis
  proof (cases "is_full (length content) = 1")
    case True
    then show ?thesis unfolding file_pages_def page_number(1) [OF c] by simp
  next
    case False
    then have f: "is_full (length content) = 0" using is_full_cases by blast
    have "length content < ?q * PAGE_LENGTH + PAGE_LENGTH"
      using dividend_less_div_times [of PAGE_LENGTH "length content"] by (simp add: add.commute)
    then have "take PAGE_LENGTH (drop (?q * PAGE_LENGTH) content) = drop (?q * PAGE_LENGTH) content"
      by (intro take_all) simp
    then show ?thesis unfolding file_pages_def page_number(1) [OF c] using f by simp
  qed
qed

lemma length_file_pages:
  "content \<noteq> [] \<Longrightarrow>
   length (file_pages content) = length content div PAGE_LENGTH + 1 - is_full (length content)"
  using page_number(1) [of "length content"] by (simp add: file_pages_def)

lemma sint_small: "unat w < 2 ^ 31 \<Longrightarrow> sint (w :: 32 word) = int (unat w)"
  using sint_of_nat_small [of "unat w"] by simp

lemma pow2_ceil_pow2: "\<exists>k. pow2_ceil n = 2 ^ k"
  by (auto simp: pow2_ceil_def simp del: power_Suc intro: exI [of _ 0])

lemma pow2_ceil_le:
  assumes "0 < n" and "n \<le> 2 ^ k"
  shows "pow2_ceil n \<le> 2 ^ k"
proof -
  obtain j where j: "pow2_ceil n = 2 ^ j" using pow2_ceil_pow2 by blast
  then have "(2::nat) ^ j < 2 ^ Suc k" using pow2_ceil_bounds(2) [OF assms(1)] assms(2) by simp
  then have "j < Suc k" by (simp only: power_strict_increasing_iff one_less_numeral_iff semiring_norm)
  then show ?thesis unfolding j by (intro power_increasing) simp_all
qed

lemma file_pages_small:
  assumes "good_file slack content"
  shows "0 < length (file_pages content)" and "length (file_pages content) \<le> 32768"
proof -
  have c: "0 < length content" "length content < 2 ^ 31" using assms by (auto simp: good_file_def)
  have "(length content + PAGE_LENGTH - 1) div PAGE_LENGTH \<le> (2 ^ 31 + PAGE_LENGTH - 1) div PAGE_LENGTH"
    using c by (intro div_le_mono) simp
  then show "length (file_pages content) \<le> 32768" by (simp add: file_pages_def PAGE_LENGTH_def)
  show "0 < length (file_pages content)"
    using page_number [OF c(1)] by (simp add: file_pages_def)
qed

text \<open>A file of \<open>2 ^ 30\<close> bytes has 16384 pages; a longer one needs a tree of 32768 leaves.\<close>

lemma tree_size_fits:
  assumes "content \<noteq> []" and "length content \<le> 2 ^ 30"
  shows "pow2_ceil (length (file_pages content)) \<le> 16384"
proof -
  have "(length content + PAGE_LENGTH - 1) div PAGE_LENGTH \<le> (2 ^ 30 + PAGE_LENGTH - 1) div PAGE_LENGTH"
    using assms(2) by (intro div_le_mono) simp
  then have "length (file_pages content) \<le> 2 ^ 14" by (simp add: file_pages_def PAGE_LENGTH_def)
  moreover have "0 < length (file_pages content)"
    using page_number [of "length content"] assms(1) by (simp add: file_pages_def)
  ultimately have "pow2_ceil (length (file_pages content)) \<le> 2 ^ 14" by (intro pow2_ceil_le)
  then show ?thesis by simp
qed

lemma tree_size_overflows:
  assumes "2 ^ 30 < length content"
  shows "2 ^ 31 \<le> pow2_ceil (length (file_pages content)) * PAGE_LENGTH"
proof -
  have "(2 ^ 30 + 1 + PAGE_LENGTH - 1) div PAGE_LENGTH \<le> (length content + PAGE_LENGTH - 1) div PAGE_LENGTH"
    using assms by (intro div_le_mono) simp
  then have n: "16385 \<le> length (file_pages content)" by (simp add: file_pages_def PAGE_LENGTH_def)
  obtain j where j: "pow2_ceil (length (file_pages content)) = 2 ^ j" using pow2_ceil_pow2 by blast
  have "length (file_pages content) \<le> 2 ^ j" unfolding j [symmetric] using n by (intro pow2_ceil_bounds(1)) linarith
  then have "(2::nat) ^ 14 < 2 ^ j" using n by simp
  then have "15 \<le> j" by (simp only: power_strict_increasing_iff one_less_numeral_iff semiring_norm)
  then have "(2::nat) ^ 15 \<le> 2 ^ j" by (rule power_increasing) simp
  then show ?thesis unfolding j by (simp add: PAGE_LENGTH_def)
qed

lemma good_tree_size:
  assumes "good_file slack content"
  shows "nat (sint (compute_tree_size (word_of_nat (length content div PAGE_LENGTH + 1 - is_full (length content))))) =
    pow2_ceil (length (file_pages content))"
proof -
  let ?n = "length content div PAGE_LENGTH + 1 - is_full (length content)"
  have ne: "content \<noteq> []" using assms by (auto simp: good_file_def)
  note n = length_file_pages [OF ne, symmetric] file_pages_small [OF assms]
  have u: "unat (compute_tree_size (word_of_nat ?n)) = pow2_ceil (length (file_pages content))"
    unfolding n(1) using n(2,3) by (intro tree_size_pow2_ceil) simp_all
  have "pow2_ceil (length (file_pages content)) < 2 ^ 31" using pow2_ceil_bounds(2) [OF n(2)] n(3) by simp
  then have "unat (compute_tree_size (word_of_nat ?n)) < 2 ^ 31" unfolding u .
  from sint_small [OF this] show ?thesis unfolding u by simp
qed

lemma good_chain:
  assumes "content \<noteq> []" and "is_c_string content"
    and "\<And>i. i < length content div PAGE_LENGTH \<Longrightarrow>
      datas (i * PAGE_LENGTH) = Str (take PAGE_LENGTH (drop (i * PAGE_LENGTH) content))"
    and "is_full (length content) = 0 \<Longrightarrow>
      datas (length content div PAGE_LENGTH * PAGE_LENGTH) = Str (drop (length content div PAGE_LENGTH * PAGE_LENGTH) content)"
    and "\<And>q. length content \<le> q \<Longrightarrow> q < length content + k \<Longrightarrow> datas q = Str '' ''"
  shows "chain datas 0 (file_pages content @ replicate k '' '')"
proof -
  let ?q = "length content div PAGE_LENGTH" and ?f = "\<lambda>i. take PAGE_LENGTH (drop (i * PAGE_LENGTH) content)"
  have le: "(i + 1) * PAGE_LENGTH \<le> length content" if "i < ?q" for i
  proof -
    have "(i + 1) * PAGE_LENGTH \<le> ?q * PAGE_LENGTH" using that by (intro mult_right_mono) simp_all
    also have "\<dots> \<le> length content" by simp
    finally show ?thesis .
  qed
  have full: "length (?f i) = PAGE_LENGTH" if "i < ?q" for i
    using copy_page_full(2) [OF assms(2) le [OF that]] .
  have "chain datas (0 * PAGE_LENGTH) (map ?f [0..<0 + ?q])"
    using assms(3) full by (intro chain_pages) auto
  then have c1: "chain datas 0 (map ?f [0..<?q])" by simp
  have len: "length (concat (map ?f [0..<?q])) = ?q * PAGE_LENGTH"
    using length_pages [of "[0..<?q]" ?f PAGE_LENGTH] full by simp
  have c3: "chain datas (length content) (replicate k '' '')" using assms(5) by (intro chain_fillers) auto
  show ?thesis
  proof (cases "is_full (length content) = 1")
    case True
    then have "?q * PAGE_LENGTH = length content" by (auto simp: is_full_def split: if_splits)
    then show ?thesis
      using c1 c3 len True unfolding file_pages_split [OF assms(1)] by (simp add: chain_append)
  next
    case False
    then have "is_full (length content) = 0" using is_full_cases by blast
    moreover have "?q * PAGE_LENGTH + length (drop (?q * PAGE_LENGTH) content) = length content" by simp
    ultimately show ?thesis
      using c1 c3 len assms(4) False unfolding file_pages_split [OF assms(1)] by (simp add: chain_append)
  qed
qed

lemma parse_good_file:
  assumes "good_file slack content" and "length content \<le> 2 ^ 30"
  shows "\<exists>p. parse_file slack content (length content) = Inr p \<and>
    tree_size p = pow2_ceil (length (file_pages content)) \<and>
    chain (parsed_file p) 0 (padded_pages content) \<and> free_pages p = Inr ()"
proof -
  let ?q = "length content div PAGE_LENGTH" and ?f = "\<lambda>i. take PAGE_LENGTH (drop (i * PAGE_LENGTH) content)"
  let ?size = "pow2_ceil (length (file_pages content))"
  have c: "content \<noteq> []" "is_c_string content" "0 < length content" using assms(1) by (auto simp: good_file_def)
  have fit: "?size * PAGE_LENGTH < 2 ^ 31" using tree_size_fits [OF c(1) assms(2)] by (simp add: PAGE_LENGTH_def)
  obtain t where t: "slack = nul # t" using assms(1) by (cases slack) (auto simp: good_file_def)
  have rf: "read_file slack content (length content) = content @ slack" by (simp add: read_file_def)
  have le: "(i + 1) * PAGE_LENGTH \<le> length content" if "i < ?q" for i
  proof -
    have "(i + 1) * PAGE_LENGTH \<le> ?q * PAGE_LENGTH" using that by (intro mult_right_mono) simp_all
    also have "\<dots> \<le> length content" by simp
    finally show ?thesis .
  qed
  have lt: "i * PAGE_LENGTH < length content" if "i < ?q" for i
    using le [OF that] PAGE_LENGTH_pos unfolding distrib_right by linarith
  let ?slots = "\<lambda>x. if x mod PAGE_LENGTH = 0 \<and> 0 \<le> x div PAGE_LENGTH \<and> x div PAGE_LENGTH < 0 + ?q
    then Str (?f (x div PAGE_LENGTH)) else empty_slots ?size x"
  have cp: "copy_pages_to (content @ slack) ?q 0 (empty_slots ?size) = Inr ?slots"
    using copy_page_full(1) [OF c(2) le] by (intro copy_pages_to_eq) auto
  have n: "length (file_pages content) = ?q + 1 - is_full (length content)" using length_file_pages [OF c(1)] .
  have pp: "padded_pages content = file_pages content @ replicate (?size - length (file_pages content)) '' ''"
    by (simp add: padded_pages_def Let_def)
  show ?thesis
  proof (cases "is_full (length content) = 1")
    case True
    then have q: "?q * PAGE_LENGTH = length content" by (auto simp: is_full_def split: if_splits)
    have nq: "length (file_pages content) = ?q" using n True by simp
    let ?D = "fill_slots (?size - ?q) (?q * PAGE_LENGTH) ?slots"
    let ?p = "\<lparr>nb_of_pages = ?q, page_full = 1, tree_size = ?size, parsed_file = ?D, last_page = []\<rparr>"
    have "parse_file slack content (length content) = Inr ?p"
      using cp good_tree_size [OF assms(1)] fit True unfolding parse_file_def Let_def rf by simp
    moreover have "chain ?D 0 (padded_pages content)"
      unfolding pp
    proof (rule good_chain [OF c(1,2)])
      show "?D (i * PAGE_LENGTH) = Str (?f i)" if "i < ?q" for i
        using that lt [OF that] q by (simp add: fill_slots_eq)
      show "?D x = Str '' ''" if "length content \<le> x" "x < length content + (?size - length (file_pages content))" for x
      proof -
        have "length content \<le> x \<and> x < length content + (?size - ?q)" using that unfolding nq by blast
        then show ?thesis by (simp only: fill_slots_eq q if_True simp_thms)
      qed
    qed (use True in simp)
    ultimately show ?thesis by (intro exI [of _ ?p]) (simp add: free_pages_def)
  next
    case False
    then have f0: "is_full (length content) = 0" using is_full_cases by blast
    let ?l = "drop (?q * PAGE_LENGTH) content"
    have "length content mod PAGE_LENGTH \<noteq> 0" using f0 by (auto simp: is_full_def split: if_splits)
    then have lt': "?q * PAGE_LENGTH < length content"
      by (metis div_mult_mod_eq less_add_same_cancel1 not_gr_zero)
    then have q: "?q * PAGE_LENGTH + length ?l = length content" by simp
    have "length content < ?q * PAGE_LENGTH + PAGE_LENGTH"
      using dividend_less_div_times [of PAGE_LENGTH "length content"] by (simp add: add.commute)
    then have l: "length ?l < PAGE_LENGTH" using q by linarith
    have "is_c_string ?l" using c(2) by (auto simp: is_c_string_def dest: in_set_dropD)
    then have cs: "c_string (drop (?q * PAGE_LENGTH) (content @ slack)) = Inr ?l"
      unfolding t using lt' by simp
    have nq: "length (file_pages content) = ?q + 1" using n f0 by simp
    let ?S = "?slots(?q * PAGE_LENGTH := Str ?l)"
    let ?D = "fill_slots (?size - (?q + 1)) (?q * PAGE_LENGTH + length ?l) ?S"
    let ?p = "\<lparr>nb_of_pages = ?q, page_full = 0, tree_size = ?size, parsed_file = ?D, last_page = ?l\<rparr>"
    have "\<not> 8 * PAGE_LENGTH \<le> length ?l" using l by linarith
    then have "parse_file slack content (length content) = Inr ?p"
      using cp good_tree_size [OF assms(1)] fit f0 cs unfolding parse_file_def Let_def rf by simp
    moreover have "chain ?D 0 (padded_pages content)"
      unfolding pp
    proof (rule good_chain [OF c(1,2)])
      show "?D (i * PAGE_LENGTH) = Str (?f i)" if "i < ?q" for i
        using that lt [OF that] q by (simp add: fill_slots_eq)
      show "?D (?q * PAGE_LENGTH) = Str ?l" using lt' q by (simp add: fill_slots_eq)
      show "?D x = Str '' ''" if "length content \<le> x" "x < length content + (?size - length (file_pages content))" for x
      proof -
        have "length content \<le> x \<and> x < length content + (?size - (?q + 1))" using that unfolding nq by blast
        then show ?thesis by (simp only: fill_slots_eq q if_True simp_thms)
      qed
    qed
    moreover have "?l \<noteq> []" using lt' by simp
    ultimately show ?thesis by (intro exI [of _ ?p]) (simp add: free_pages_def)
  qed
qed



section \<open>The tree of a good file\<close>

lemma length_padded: 
  assumes "good_file slack content"
  shows "length (padded_pages content) = pow2_ceil (length (file_pages content))"
  using pow2_ceil_bounds(1) [OF file_pages_small(1) [OF assms]] by (simp add: padded_pages_def Let_def)

text \<open>The height the code computes.\<close>

definition file_height :: "string \<Rightarrow> nat" where
  "file_height content = floor_log2 (pow2_ceil (length (file_pages content))) + 1"

lemma file_page_count:
  assumes "good_file slack content"
  shows "page_count (file_height content) (padded_pages content)" and "file_height content \<le> 17"
    and "c_log2 (pow2_ceil (length (file_pages content))) = Inr (file_height content - 1)"
proof -
  let ?n = "length (file_pages content)"
  obtain k where k: "pow2_ceil ?n = 2 ^ k" using pow2_ceil_pow2 by blast
  have "pow2_ceil ?n < 2 * ?n" using pow2_ceil_bounds(2) file_pages_small(1) [OF assms] by blast
  then have "(2::nat) ^ k < 2 ^ 17" using file_pages_small(2) [OF assms] k by simp
  then have "k < 17" by (simp only: power_strict_increasing_iff one_less_numeral_iff semiring_norm)
  then show "file_height content \<le> 17" using k by (simp add: file_height_def)
  show "page_count (file_height content) (padded_pages content)"
    using \<open>k < 17\<close> k length_padded [OF assms] by (simp add: page_count_def valid_height_def file_height_def)
  show "c_log2 (pow2_ceil ?n) = Inr (file_height content - 1)"
    using k by (simp add: file_height_def)
qed

lemma padded_fit: "\<forall>d\<in>set (padded_pages content). fits_leaf d"
  by (auto simp: padded_pages_def Let_def file_pages_def fits_leaf_def size_defs)

text \<open>The sum of the lengths of the pages is an \<open>int\<close>.\<close>

lemma padded_total:
  assumes "good_file slack content" and "length content \<le> 2 ^ 30"
  shows "length (concat (padded_pages content)) < 2 ^ 31"
proof -
  have ne: "content \<noteq> []" using assms(1) by (simp add: good_file_def)
  have "length (concat (padded_pages content)) \<le> PAGE_LENGTH * length (padded_pages content)"
    by (intro length_concat_le) (auto simp: padded_pages_def Let_def file_pages_def size_defs)
  also have "\<dots> \<le> PAGE_LENGTH * 16384"
    using tree_size_fits [OF ne assms(2)] length_padded [OF assms(1)] by simp
  finally show ?thesis by (simp add: PAGE_LENGTH_def)
qed

definition file_tree :: "memory \<Rightarrow> merkle_tree \<Rightarrow> string \<Rightarrow> merkle_tree" where
  "file_tree m mt content =
     built m (mt\<lparr>tree_height := file_height content, nb_nodes := 0,
       nb_of_leaves := pow2_ceil (length (file_pages content))\<rparr>) (padded_pages content)"

lemma file_tree_simps [simp]: "tree_height (file_tree m mt content) = file_height content"
  by (simp add: file_tree_def)

lemma file_tree_full:
  "good_file slack content \<Longrightarrow> full_inv (file_tree m mt content)"
  unfolding file_tree_def by (intro built_full_inv) (simp add: file_page_count(1))

lemma file_tree_printable:
  assumes "good_file slack content"
  shows "printable_tree (file_tree m mt content)"
  using file_tree_full [OF assms] inv_lessons file_page_count(2) [OF assms] by (simp add: printable_tree_def)

lemma file_tree_text:
  assumes "good_file slack content"
  shows "tree_to_string (file_tree m mt content) (8 * HASH_SIZE * 2 * pow2_ceil (length (file_pages content))) =
    Inr (tree_text (file_tree m mt content))"
  using tree_to_string_text [OF file_tree_printable [OF assms]] length_padded [OF assms]
  by (simp add: file_tree_def size_defs)

lemma file_tree_free:
  assumes "good_file slack content"
  shows "\<exists>x. free_merkle (file_tree m mt content) = Inr x"
  using free_merkle_full [OF file_tree_full [OF assms]] by blast

lemma compute_merkle_good:
  assumes "clean m" and "good_file slack content" and "length content \<le> 2 ^ 30"
  shows "compute_merkle m slack (Some content) mt result =
    Inr (0, file_tree m mt content, Str (tree_text (file_tree m mt content)))"
proof -
  obtain p where p: "parse_file slack content (length content) = Inr p"
    "tree_size p = pow2_ceil (length (file_pages content))"
    "chain (parsed_file p) 0 (padded_pages content)" "free_pages p = Inr ()"
    using parse_good_file [OF assms(2,3)] by blast
  obtain x where x: "free_merkle (file_tree m mt content) = Inr x" using file_tree_free [OF assms(2)] by blast
  have h: "file_height content - 1 + 1 = file_height content" by (simp add: file_height_def)
  have f: "int_file_size content = Inr (length content)"
    using assms(2) by (simp add: int_file_size_ok good_file_def)
  note total = padded_total [OF assms(2,3)]
  have "build_tree m (mt\<lparr>tree_height := file_height content, nb_nodes := 0, nb_of_leaves := tree_size p\<rparr>)
      (parsed_file p) = Inr (0, file_tree m mt content)"
    unfolding file_tree_def p(2) using file_page_count(1) [OF assms(2)] assms(1) p(3) padded_fit total
    by (intro build_tree_built) (auto simp: page_count_def)
  then show ?thesis
    using p(1,4) x f file_page_count(3) [OF assms(2)] file_tree_text [OF assms(2)] h
    by (simp add: compute_merkle_def p(2))
qed

lemma m_compute_merkle_good:
  assumes "clean m" and "good_file slack content" and "length content \<le> 2 ^ 30" and "\<forall>i<2 ^ b. spawns m i"
    and "2 ^ b * PAGE_LENGTH < length content"
  shows "m_compute_merkle m sched slack (Some content) mt result (2 ^ b) =
    Inr (0, file_tree m mt content, Str (tree_text (file_tree m mt content)))"
proof -
  obtain p where p: "parse_file slack content (length content) = Inr p"
    "tree_size p = pow2_ceil (length (file_pages content))"
    "chain (parsed_file p) 0 (padded_pages content)" "free_pages p = Inr ()"
    using parse_good_file [OF assms(2,3)] by blast
  obtain x where x: "free_merkle (file_tree m mt content) = Inr x" using file_tree_free [OF assms(2)] by blast
  have h: "file_height content - 1 + 1 = file_height content" by (simp add: file_height_def)
  have f: "int_file_size content = Inr (length content)"
    using assms(2) by (simp add: int_file_size_ok good_file_def)
  let ?n = "length (file_pages content)"
  have "2 ^ b * PAGE_LENGTH div PAGE_LENGTH \<le> length content div PAGE_LENGTH"
    using assms(5) by (intro div_le_mono) simp
  then have nb: "\<not> length content div PAGE_LENGTH < 2 ^ b" by simp
  have "2 ^ b < ?n"
  proof -
    have "(2 ^ b + 1) * PAGE_LENGTH \<le> length content + PAGE_LENGTH - 1"
      using assms(5) unfolding distrib_right by linarith
    then have "(2 ^ b + 1) * PAGE_LENGTH div PAGE_LENGTH \<le> (length content + PAGE_LENGTH - 1) div PAGE_LENGTH"
      by (rule div_le_mono)
    then show ?thesis by (simp add: file_pages_def)
  qed
  obtain k where k: "pow2_ceil ?n = 2 ^ k" using pow2_ceil_pow2 by blast
  have "(2::nat) ^ b < 2 ^ k"
    using pow2_ceil_bounds(1) [OF file_pages_small(1) [OF assms(2)]] \<open>2 ^ b < ?n\<close> k by linarith
  then have "b < k" by (simp only: power_strict_increasing_iff one_less_numeral_iff semiring_norm)
  then have "(2::nat) * 2 ^ b \<le> 2 ^ k" using power_increasing [of "Suc b" k "2::nat"] by simp
  then have two: "2 * 2 ^ b \<le> length (padded_pages content)" using k length_padded [OF assms(2)] by simp
  have "m_build_tree m sched (mt\<lparr>tree_height := file_height content, nb_nodes := 0, nb_of_leaves := tree_size p\<rparr>)
      (parsed_file p) (2 ^ b) = Inr (0, file_tree m mt content)"
    unfolding file_tree_def p(2) using file_page_count(1) [OF assms(2)] assms(1,4) p(3) padded_fit two padded_total [OF assms(2,3)]
    by (intro m_build_tree_built) auto
  then show ?thesis
    using p(1,4) x f file_page_count(3) [OF assms(2)] file_tree_text [OF assms(2)] h nb
    by (simp add: m_compute_merkle_def p(2))
qed



text \<open>As many full pages as threads.\<close>

lemma m_compute_one_page_each:
  assumes "good_file slack content" and "length content = 2 ^ b * PAGE_LENGTH" and "length content \<le> 2 ^ 30"
  shows "m_compute_merkle m sched slack (Some content) mt result (2 ^ b) = Inl Bad_shift"
proof -
  obtain p where p: "parse_file slack content (length content) = Inr p"
    "tree_size p = pow2_ceil (length (file_pages content))"
    "chain (parsed_file p) 0 (padded_pages content)"
    using parse_good_file [OF assms(1,3)] by blast
  have h: "file_height content - 1 + 1 = file_height content" by (simp add: file_height_def)
  have f: "int_file_size content = Inr (length content)"
    using assms(1) by (simp add: int_file_size_ok good_file_def)
  have q: "length content div PAGE_LENGTH = 2 ^ b" using assms(2) by simp
  have ne: "content \<noteq> []" using assms(1) by (simp add: good_file_def)
  have "length (file_pages content) = 2 ^ b"
    using length_file_pages [OF ne] q assms(2) by (simp add: is_full_def)
  moreover have "pow2_ceil (2 ^ b) = 2 ^ b"
  proof -
    obtain k where k: "pow2_ceil (2 ^ b) = 2 ^ k" using pow2_ceil_pow2 by blast
    have "(2::nat) ^ b \<le> 2 ^ k" "(2::nat) ^ k < 2 ^ Suc b" using pow2_ceil_bounds [of "2 ^ b"] k by simp_all
    then have "b \<le> k" "k < Suc b"
      by (simp_all only: power_increasing_iff power_strict_increasing_iff one_less_numeral_iff semiring_norm)
    then show ?thesis using k by simp
  qed
  ultimately have two: "length (padded_pages content) = 2 ^ b" using length_padded [OF assms(1)] by simp
  let ?mt = "mt\<lparr>tree_height := file_height content, nb_nodes := 0, nb_of_leaves := tree_size p\<rparr>"
  have pc: "page_count (tree_height ?mt) (padded_pages content)" using file_page_count(1) [OF assms(1)] by simp
  have "leaf_start ?mt = Inr (2 ^ b)"
    using pc two leaf_start_height [of ?mt] by (simp add: page_count_def)
  then have "m_build_tree m sched ?mt (parsed_file p) (2 ^ b) = Inl Bad_shift"
    using set_tree_datas_paint [OF pc p(3) padded_fit padded_total [OF assms(1,3)]]
    by (simp add: m_build_tree_def Let_def c_log2_def shl_one_def floor_log2.simps)
  then show ?thesis
    using p(1) f q file_page_count(3) [OF assms(1)] h
    by (simp add: m_compute_merkle_def p(2))
qed

text \<open>Longer files: the product of the tree size and the length of a page is no \<open>int\<close>.\<close>

lemma compute_merkle_large:
  assumes "2 ^ 30 < length content" and "length content + 1 < 2 ^ 31"
  shows "compute_merkle m slack (Some content) mt result = Inl Int_overflow"
    and "m_compute_merkle m sched slack (Some content) mt result t = Inl Int_overflow"
proof -
  let ?n = "length content div PAGE_LENGTH + 1 - is_full (length content)"
  have ne: "content \<noteq> []" using assms(1) by auto
  have n: "0 < length (file_pages content)" "length (file_pages content) \<le> 32768"
  proof -
    have "(length content + PAGE_LENGTH - 1) div PAGE_LENGTH \<le> (2 ^ 31 + PAGE_LENGTH - 1) div PAGE_LENGTH"
      using assms(2) by (intro div_le_mono) simp
    then show "length (file_pages content) \<le> 32768" by (simp add: file_pages_def PAGE_LENGTH_def)
    show "0 < length (file_pages content)" using page_number [of "length content"] ne by (simp add: file_pages_def)
  qed
  have u: "unat (compute_tree_size (word_of_nat ?n)) = pow2_ceil (length (file_pages content))"
    unfolding length_file_pages [OF ne, symmetric] using n by (intro tree_size_pow2_ceil) simp_all
  have "pow2_ceil (length (file_pages content)) < 2 ^ 31" using pow2_ceil_bounds(2) [OF n(1)] n(2) by simp
  then have "unat (compute_tree_size (word_of_nat ?n)) < 2 ^ 31" unfolding u .
  from sint_small [OF this] have "nat (sint (compute_tree_size (word_of_nat ?n))) = pow2_ceil (length (file_pages content))"
    unfolding u by simp
  then have p: "parse_file slack content (length content) = Inl Int_overflow"
    unfolding parse_file_def Let_def using tree_size_overflows [OF assms(1)] by simp
  have f: "int_file_size content = Inr (length content)" using assms(2) by (rule int_file_size_ok)
  show c: "compute_merkle m slack (Some content) mt result = Inl Int_overflow" by (simp add: compute_merkle_def f p)
  show "m_compute_merkle m sched slack (Some content) mt result t = Inl Int_overflow"
    using c by (simp add: m_compute_merkle_def f p)
qed


section \<open>Properties\<close>

text \<open>
  C30: \<open>compute_tree_size\<close> on 32 bit words, for every number from 1 to \<open>2 ^ 31\<close>: a power of two, not
  below the number and less than twice the number, which the \<open>int\<close> that is returned is for numbers up to \<open>2 ^ 30\<close>, while
  it is negative for larger ones; on 0 it wraps around to 0.
\<close>

theorem compute_tree_size_next_power:
  assumes "1 \<le> index" and "index \<le> 2 ^ 31"
  shows "(\<exists>k. compute_tree_size index = 2 ^ k \<and> k < 32) \<and> index \<le> compute_tree_size index \<and>
    unat (compute_tree_size index) < 2 * unat index \<and> compute_tree_size 0 = 0 \<and>
    sint (compute_tree_size index) = (if index \<le> 2 ^ 30 then int (unat (compute_tree_size index)) else - (2 ^ 31))"
proof -
  have n: "0 < unat index" using assms(1) by (simp add: word_le_nat_alt)
  have le: "unat index \<le> 2 ^ 31" using assms(2) by (simp add: word_le_nat_alt)
  have u: "unat (compute_tree_size index) = pow2_ceil (unat index)"
    using tree_size_pow2_ceil [OF n le] by simp
  obtain k where k: "pow2_ceil (unat index) = 2 ^ k" using pow2_ceil_pow2 by blast
  have "(2::nat) ^ k < 2 ^ 32" using u k unsigned_less [of "compute_tree_size index", where ?'a = nat] by simp
  then have "k < 32" by (simp only: power_strict_increasing_iff one_less_numeral_iff semiring_norm)
  moreover have "compute_tree_size index = 2 ^ k"
  proof -
    have "word_of_nat (unat (compute_tree_size index)) = compute_tree_size index" by simp
    then show ?thesis unfolding u k by simp
  qed
  moreover have "index \<le> compute_tree_size index"
    using u pow2_ceil_bounds(1) [OF n] by (simp add: word_le_nat_alt)
  moreover have "compute_tree_size 0 = 0" by (simp add: compute_tree_size_def Let_def)
  moreover have "sint (compute_tree_size index) =
      (if index \<le> 2 ^ 30 then int (unat (compute_tree_size index)) else - (2 ^ 31))"
  proof (cases "index \<le> 2 ^ 30")
    case True
    then have "unat index \<le> 2 ^ 30" by (simp add: word_le_nat_alt)
    then have "unat (compute_tree_size index) < 2 ^ 31" unfolding u using pow2_ceil_bounds(2) [OF n] by simp
    then show ?thesis using True sint_small by simp
  next
    case False
    then have "2 ^ 30 < unat index" by (simp add: word_le_nat_alt)
    then have "(2::nat) ^ 30 < 2 ^ k" using pow2_ceil_bounds(1) [OF n] k by linarith
    then have "30 < k" by (simp only: power_strict_increasing_iff one_less_numeral_iff semiring_norm)
    then have "k = 31" using \<open>k < 32\<close> by simp
    then show ?thesis using False \<open>compute_tree_size index = 2 ^ k\<close> by simp
  qed
  ultimately show ?thesis using u pow2_ceil_bounds(2) [OF n] by auto
qed

theorem compute_tree_size_next_power_witness:
  "(\<exists>k. compute_tree_size 5 = 2 ^ k \<and> k < 32) \<and> 5 \<le> compute_tree_size 5 \<and>
    unat (compute_tree_size 5) < 2 * unat (5 :: 32 word) \<and> compute_tree_size 0 = 0 \<and>
    sint (compute_tree_size 5) = (if (5 :: 32 word) \<le> 2 ^ 30 then int (unat (compute_tree_size 5)) else - (2 ^ 31))"
  by (rule compute_tree_size_next_power) simp_all

text \<open>
  C6: \<open>compute_merkle\<close> on a good file of at most \<open>2 ^ 30\<close> bytes returns 0 and a string: reading it gives a tree with the
  invariant whose leaves are the digests of the pages of the file, filled up with pages of one
  space to the next power of two, and whose root is the recursive specification of these pages.
\<close>

theorem compute_merkle_correct:
  assumes "clean m" and "good_file slack content" and "length content \<le> 2 ^ 30"
  shows "\<exists>T s R. compute_merkle m slack (Some content) mt result = Inr (0, T, Str s) \<and>
    string_to_tree m' mt' s = Inr R \<and> merkle_inv R \<and>
    map (hash_at R) [first_leaf R..<nb_nodes R] = map digest_string (padded_pages content) \<and>
    hash_at R 1 = root_hash (map digest_string (padded_pages content))"
proof -
  let ?T = "file_tree m mt content" and ?n = "length (padded_pages content)"
  note full = file_tree_full [OF assms(2), of m mt]
  have R: "string_to_tree m' mt' (tree_text ?T) = Inr (reread m' mt' ?T)"
    by (rule string_to_tree_text [OF file_tree_printable [OF assms(2)]])
  have inv: "merkle_inv (reread m' mt' ?T)" using full inv_lessons reread_inv by blast
  have n: "0 < ?n" "nb_nodes ?T = 2 * ?n" "first_leaf ?T = ?n"
    using file_page_count(1) [OF assms(2)] unfolding file_tree_def
    by (simp_all add: page_count_def built_first_leaf)
  have "hash_at (reread m' mt' ?T) (?n + j) = digest_string (padded_pages content ! j)" if "j < ?n" for j
  proof -
    have "hash_at (reread m' mt' ?T) (?n + j) = hash_at ?T (?n + j)"
      using n that by (intro reread_hash) simp_all
    also have "\<dots> = digest_string (node_input ?T (?n + j))"
      using n that by (intro full_inv_input [OF full]) simp_all
    also have "node_input ?T (?n + j) = padded_pages content ! j"
      using n that by (simp add: node_input_def) (simp add: file_tree_def built_data_at)
    finally show ?thesis .
  qed
  then have leaves: "map (hash_at (reread m' mt' ?T)) [first_leaf (reread m' mt' ?T)..<nb_nodes (reread m' mt' ?T)] =
    map digest_string (padded_pages content)"
    using n by (intro nth_equalityI) simp_all
  have "1 < 2 * ?n" using n(1) by linarith
  then have "hash_at (reread m' mt' ?T) 1 = hash_at ?T 1"
    using n(2) by (intro reread_hash) simp_all
  also have "\<dots> = root_hash (map digest_string (padded_pages content))"
    unfolding file_tree_def using file_page_count(1) [OF assms(2)] by (intro root_of_built) simp
  finally show ?thesis
    using compute_merkle_good [OF assms] R inv leaves by blast
qed

lemma good_abc: "good_file [nul] ''abc''"
  by (simp add: good_file_def)

theorem compute_merkle_correct_witness:
  "\<exists>T s R. compute_merkle plain_memory [nul] (Some ''abc'') (empty_tree 0) Null = Inr (0, T, Str s) \<and>
    string_to_tree plain_memory (empty_tree 0) s = Inr R \<and> merkle_inv R \<and>
    map (hash_at R) [first_leaf R..<nb_nodes R] = map digest_string (padded_pages ''abc'') \<and>
    hash_at R 1 = root_hash (map digest_string (padded_pages ''abc''))"
  by (rule compute_merkle_correct) (simp_all add: good_abc)


definition long_file :: string where
  "long_file = replicate 131073 CHR ''a''"

lemma length_long: "length long_file = 131073"
  by (simp add: long_file_def)

lemma good_long: "good_file [nul] long_file"
  by (simp add: good_file_def long_file_def is_c_string_def)


text \<open>
  On a good file of exactly as many full pages as there are threads, a power of two of them,
  the threaded function runs into the shift by -1.
\<close>

theorem m_compute_merkle_one_page_per_thread:
  assumes "good_file slack content" and "length content = 2 ^ b * PAGE_LENGTH" and "length content \<le> 2 ^ 30"
  shows "m_compute_merkle m sched slack (Some content) mt result (2 ^ b) = Inl Bad_shift"
  by (rule m_compute_one_page_each [OF assms])

definition one_page :: string where
  "one_page = replicate 65536 CHR ''a''"

lemma length_one_page: "length one_page = 65536"
  by (simp add: one_page_def)

lemma good_one_page: "good_file [nul] one_page"
  by (simp add: good_file_def one_page_def is_c_string_def)

theorem m_compute_merkle_one_page_per_thread_witness:
  "m_compute_merkle plain_memory [] [nul] (Some one_page) (empty_tree 0) Null (2 ^ 0) = Inl Bad_shift"
  by (rule m_compute_merkle_one_page_per_thread) (simp_all add: good_one_page length_one_page size_defs)

text \<open>
  C39: a file of more than \<open>2 ^ 30\<close> bytes, whose length still is an \<open>int\<close>. Neither function gets to the tree, whatever the content, the memory
  and the number of threads are: the tree has 32768 leaves, and moving the pointer to the array back by
  \<open>tree_size * PAGE_LENGTH\<close> overflows.
\<close>

theorem compute_merkle_large_files:
  assumes "2 ^ 30 < length content" and "length content + 1 < 2 ^ 31"
  shows "compute_merkle m slack (Some content) mt result = Inl Int_overflow \<and>
    m_compute_merkle m sched slack (Some content) mt result t = Inl Int_overflow"
  using compute_merkle_large [OF assms] by blast

theorem compute_merkle_large_files_witness:
  "\<exists>content. length content = 2 ^ 30 + 1 \<and>
    compute_merkle plain_memory [nul] (Some content) (empty_tree 0) Null = Inl Int_overflow \<and>
    m_compute_merkle plain_memory [] [nul] (Some content) (empty_tree 0) Null 8 = Inl Int_overflow"
proof (intro exI conjI)
  let ?c = "replicate (2 ^ 30 + 1) CHR ''a''"
  show l: "length ?c = 2 ^ 30 + 1" by (rule length_replicate)
  have "2 ^ 30 < length ?c" "length ?c + 1 < 2 ^ 31" unfolding l by simp_all
  from compute_merkle_large_files [OF this]
  show "compute_merkle plain_memory [nul] (Some ?c) (empty_tree 0) Null = Inl Int_overflow"
    "m_compute_merkle plain_memory [] [nul] (Some ?c) (empty_tree 0) Null 8 = Inl Int_overflow" by blast+
qed

text \<open>
  What else can happen: without a file both functions return -1 and touch nothing; on an
  empty file the tree size wraps around to 0 and the height is the logarithm of 0.
\<close>

theorem compute_merkle_bad_files:
  "compute_merkle m slack None mt result = Inr (-1, mt, result) \<and>
   m_compute_merkle m sched slack None mt result t = Inr (-1, mt, result) \<and>
   compute_merkle m slack (Some []) mt result = Inl Bad_conversion"
proof (intro conjI)
  have z: "compute_tree_size 0 = 0" by (simp add: compute_tree_size_def Let_def)
  show "compute_merkle m slack (Some []) mt result = Inl Bad_conversion"
    by (simp add: compute_merkle_def int_file_size_ok parse_file_def Let_def is_full_def z c_log2_def)
qed (simp_all add: compute_merkle_def m_compute_merkle_def)

end
