(* ===== verification/System.thy ===== *)
theory System
  imports Parse
begin

text \<open>
  The file system program and what it runs on: the calls it makes to the operating system and
  to FUSE, \<open>errno\<close>, and the functions of \<^verbatim>\<open>log.c\<close>. What a call answers is a parameter of the
  model.
\<close>


section \<open>Calls and the state of a process\<close>

text \<open>
  The functions of the system that the program calls, by what they work on: a path, two paths,
  a file descriptor or directory stream (a number, 0 is the null stream). \<open>Log\<close> is the
  \<open>vfprintf\<close> of a log message and carries its label, not the values that are printed. \<open>Filler\<close> is
  the callback FUSE passes to \<open>bb_readdir\<close>; \<open>Fclose\<close> closes the stream opened last. \<open>Strtok\<close> is a call of \<open>strtok\<close> with a
  string or a null pointer: its static variable is shared by all threads, and so a part of the outside world.
\<close>

datatype open_mode = Creat_excl_wronly int | Flags int

datatype path_op =
    Lstat
  | Readlink nat
  | Open open_mode
  | Mkfifo int
  | Mknod int int
  | Mkdir int
  | Unlink
  | Rmdir
  | Chmod int
  | Chown int int
  | Truncate int
  | Utime
  | Statvfs
  | Setxattr string string
  | Getxattr string nat
  | Listxattr nat
  | Removexattr string
  | Opendir
  | Access int
  | Fopen

datatype paths_op = Symlink | Rename | Link

datatype fd_op =
    Close
  | Pread nat int
  | Pwrite string int
  | Fdatasync
  | Fsync
  | Ftruncate int
  | Fstat
  | Readdir
  | Closedir

datatype sys_call =
    Log string
  | On_path path_op string
  | On_paths paths_op string string
  | On_fd fd_op int
  | Filler string
  | Fclose
  | Mutex_lock
  | Mutex_unlock
  | Strtok "string option" char

text \<open>
  The value of a call, and the bytes it delivers: of a link, an attribute, a directory entry, a token, or
  of the file behind a stream; none is a null pointer.
\<close>

record reply =
  ret :: int
  payload :: "string option"

text \<open>
  The system answers a call in a state \<open>'w\<close> of the outside world and may change this state and
  \<open>errno\<close>. A process remembers the calls it has made.
\<close>

type_synonym 'w system = "'w \<Rightarrow> int \<Rightarrow> sys_call \<Rightarrow> reply \<times> int \<times> 'w"

record 'w process =
  world :: 'w
  errno :: int
  calls :: "sys_call list"

type_synonym ('w, 'a) io = "'w process \<Rightarrow> fault + 'a \<times> 'w process"

definition return_io :: "'a \<Rightarrow> ('w, 'a) io" where
  "return_io x p = Inr (x, p)"

definition seq_io :: "('w, 'a) io \<Rightarrow> ('a \<Rightarrow> ('w, 'b) io) \<Rightarrow> ('w, 'b) io" where
  "seq_io f g p = bind_c (f p) (\<lambda>(x, p). g x p)"

definition fail_io :: "fault \<Rightarrow> ('w, 'a) io" where
  "fail_io e p = Inl e"

definition lift_io :: "fault + 'a \<Rightarrow> ('w, 'a) io" where
  "lift_io r p = bind_c r (\<lambda>x. Inr (x, p))"

definition get_errno :: "('w, int) io" where
  "get_errno p = Inr (errno p, p)"

definition put_errno :: "int \<Rightarrow> ('w, unit) io" where
  "put_errno e p = Inr ((), p\<lparr>errno := e\<rparr>)"

definition perform :: "'w system \<Rightarrow> sys_call \<Rightarrow> ('w, reply) io" where
  "perform sys c p = (case sys (world p) (errno p) c of
     (r, e, w) \<Rightarrow> Inr (r, p\<lparr>world := w, errno := e, calls := calls p @ [c]\<rparr>))"

lemmas io_defs = return_io_def seq_io_def fail_io_def lift_io_def get_errno_def put_errno_def


section \<open>The log\<close>

definition log_msg :: "'w system \<Rightarrow> string \<Rightarrow> ('w, unit) io" where
  "log_msg sys s = seq_io (perform sys (Log s)) (\<lambda>_. return_io ())"

text \<open>The message is formatted from \<open>errno\<close> after the result has been taken from it.\<close>

definition log_error :: "'w system \<Rightarrow> string \<Rightarrow> ('w, int) io" where
  "log_error sys func = seq_io get_errno (\<lambda>e. seq_io (log_msg sys func) (\<lambda>_. return_io (- e)))"

definition log_retstat :: "'w system \<Rightarrow> string \<Rightarrow> int \<Rightarrow> ('w, unit) io" where
  "log_retstat sys func retstat =
     seq_io get_errno (\<lambda>errsave. seq_io (log_msg sys func) (\<lambda>_. put_errno errsave))"

text \<open>The value of \<open>log_error\<close> is dropped and \<open>errno\<close> is read again.\<close>

definition log_syscall :: "'w system \<Rightarrow> string \<Rightarrow> int \<Rightarrow> int \<Rightarrow> ('w, int) io" where
  "log_syscall sys func retstat min_ret =
     seq_io (log_retstat sys func retstat) (\<lambda>_.
     if retstat < min_ret then seq_io (log_error sys func) (\<lambda>_. seq_io get_errno (\<lambda>e. return_io (- e)))
     else return_io retstat)"

text \<open>
  \<open>log_syscall("f", f(...), 0)\<close>, the way almost every call of the program is made. The parameter is an
  \<open>int\<close>, also for the calls that return a \<open>ssize_t\<close>.
\<close>

definition checked_call :: "'w system \<Rightarrow> string \<Rightarrow> sys_call \<Rightarrow> ('w, int) io" where
  "checked_call sys func c = seq_io (perform sys c) (\<lambda>r. log_syscall sys func (as_int (ret r)) 0)"

text \<open>The same with the bytes the call delivers.\<close>

definition checked_reply :: "'w system \<Rightarrow> string \<Rightarrow> sys_call \<Rightarrow> ('w, int \<times> string option) io" where
  "checked_reply sys func c = seq_io (perform sys c) (\<lambda>r.
     seq_io (log_syscall sys func (as_int (ret r)) 0) (\<lambda>retstat. return_io (retstat, payload r)))"

text \<open>\<open>retstat = f(...); if (retstat < 0) retstat = log_error("f");\<close>\<close>

definition failing_call :: "'w system \<Rightarrow> string \<Rightarrow> sys_call \<Rightarrow> ('w, int) io" where
  "failing_call sys func c =
     seq_io (perform sys c) (\<lambda>r.
     let retstat = as_int (ret r) in if retstat < 0 then log_error sys func else return_io retstat)"

text \<open>The functions that print a struct: a title, then one message per field.\<close>

fun log_lines :: "'w system \<Rightarrow> string list \<Rightarrow> ('w, unit) io" where
  "log_lines sys [] = return_io ()"
| "log_lines sys (s # ss) = seq_io (log_msg sys s) (\<lambda>_. log_lines sys ss)"

definition log_fuse_context :: "'w system \<Rightarrow> ('w, unit) io" where
  "log_fuse_context sys = log_lines sys [''context'', ''fuse'', ''uid'', ''gid'', ''pid'',
     ''private_data'', ''logfile'', ''rootdir'', ''umask'']"

definition log_conn :: "'w system \<Rightarrow> ('w, unit) io" where
  "log_conn sys = log_lines sys [''conn'', ''proto_major'', ''proto_minor'', ''async_read'',
     ''max_write'', ''max_readahead'', ''capable'', ''want'', ''max_background'',
     ''congestion_threshold'']"

definition log_fi :: "'w system \<Rightarrow> ('w, unit) io" where
  "log_fi sys = log_lines sys [''fi'', ''flags'', ''fh_old'', ''writepage'', ''direct_io'',
     ''keep_cache'', ''fh'', ''lock_owner'']"

definition log_stat :: "'w system \<Rightarrow> ('w, unit) io" where
  "log_stat sys = log_lines sys [''si'', ''st_dev'', ''st_ino'', ''st_mode'', ''st_nlink'',
     ''st_uid'', ''st_gid'', ''st_rdev'', ''st_size'', ''st_blksize'', ''st_blocks'', ''st_atime'',
     ''st_mtime'', ''st_ctime'']"

definition log_statvfs :: "'w system \<Rightarrow> ('w, unit) io" where
  "log_statvfs sys = log_lines sys [''sv'', ''f_bsize'', ''f_frsize'', ''f_blocks'', ''f_bfree'',
     ''f_bavail'', ''f_files'', ''f_ffree'', ''f_favail'', ''f_fsid'', ''f_flag'', ''f_namemax'']"

text \<open>Nothing calls this one.\<close>

definition log_utime :: "'w system \<Rightarrow> ('w, unit) io" where
  "log_utime sys = log_lines sys [''buf'', ''actime'', ''modtime'']"


section \<open>The steps of a computation\<close>

text \<open>
  A process goes from one state to another by calls of the set \<open>C\<close>, which the system answers, and
  by setting \<open>errno\<close>.
\<close>

inductive steps :: "'w system \<Rightarrow> sys_call set \<Rightarrow> 'w process \<Rightarrow> 'w process \<Rightarrow> bool"
  for sys C
where
  steps_refl [intro, simp]: "steps sys C p p"
| steps_errno: "steps sys C p q \<Longrightarrow> steps sys C p (q\<lparr>errno := e\<rparr>)"
| steps_call: "steps sys C p q \<Longrightarrow> c \<in> C \<Longrightarrow> sys (world q) (errno q) c = (r, e, w) \<Longrightarrow>
    steps sys C p (q\<lparr>world := w, errno := e, calls := calls q @ [c]\<rparr>)"

lemma steps_trans [trans]:
  assumes "steps sys C p q" and "steps sys C q r"
  shows "steps sys C p r"
  using assms(2,1) by (induction rule: steps.induct) (auto intro: steps.intros)

text \<open>The calls are remembered in their order, and an invariant of the calls is one of the process.\<close>

lemma steps_calls:
  assumes "steps sys C p q"
  shows "\<exists>cs. calls q = calls p @ cs \<and> set cs \<subseteq> C"
  using assms
proof (induction rule: steps.induct)
  case (steps_call p q c r e w)
  then obtain cs where "calls q = calls p @ cs" "set cs \<subseteq> C" by blast
  then show ?case using steps_call(2) by (intro exI [of _ "cs @ [c]"]) simp
qed simp_all

lemma steps_invariant:
  assumes "steps sys C p q" and "I (world p)"
    and "\<And>w e c. c \<in> C \<Longrightarrow> I w \<Longrightarrow> I (snd (snd (sys w e c)))"
  shows "I (world q)"
  using assms(1,2)
proof (induction rule: steps.induct)
  case (steps_call p q c r e w)
  then show ?case using assms(3) [OF steps_call(2), of "world q" "errno q"] by simp
qed simp_all

text \<open>Whenever \<open>f\<close> comes back it has gone such steps.\<close>

named_theorems io_rules

definition only_calls :: "'w system \<Rightarrow> sys_call set \<Rightarrow> ('w, 'a) io \<Rightarrow> bool" where
  "only_calls sys C f \<longleftrightarrow> (\<forall>p r q. f p = Inr (r, q) \<longrightarrow> steps sys C p q)"

lemma only_callsD: "only_calls sys C f \<Longrightarrow> f p = Inr (r, q) \<Longrightarrow> steps sys C p q"
  unfolding only_calls_def by blast

lemma only_calls_basic [io_rules]:
  "only_calls sys C (return_io x)" "only_calls sys C (fail_io e)" "only_calls sys C (lift_io r)"
  "only_calls sys C get_errno" "only_calls sys C (put_errno k)"
  by (auto simp: only_calls_def io_defs intro: steps_errno)

lemma only_calls_perform [io_rules]: "c \<in> C \<Longrightarrow> only_calls sys C (perform sys c)"
  by (auto simp: only_calls_def perform_def intro: steps_call split: prod.splits)

lemma only_calls_seq [io_rules]:
  assumes "only_calls sys C f" and "\<And>x. only_calls sys C (g x)"
  shows "only_calls sys C (seq_io f g)"
  unfolding only_calls_def
proof (intro allI impI)
  fix p r q assume "seq_io f g p = Inr (r, q)"
  then obtain x p' where "f p = Inr (x, p')" "g x p' = Inr (r, q)" by (auto simp: seq_io_def)
  then show "steps sys C p q" using assms only_callsD steps_trans by metis
qed

lemma only_calls_if [io_rules]:
  "only_calls sys C f \<Longrightarrow> only_calls sys C g \<Longrightarrow> only_calls sys C (if b then f else g)"
  by simp

lemma only_calls_option [io_rules]:
  "only_calls sys C f \<Longrightarrow> (\<And>x. only_calls sys C (g x)) \<Longrightarrow> only_calls sys C (case v of None \<Rightarrow> f | Some x \<Rightarrow> g x)"
  by (cases v) simp_all

lemma only_calls_prod [io_rules]:
  "(\<And>x y. only_calls sys C (f x y)) \<Longrightarrow> only_calls sys C (case v of (x, y) \<Rightarrow> f x y)"
  by (cases v) simp

lemma only_calls_lines:
  assumes "\<And>s. Log s \<in> C"
  shows "only_calls sys C (log_lines sys ss)"
  by (induction ss) (simp_all add: io_rules assms log_msg_def)

lemma only_calls_log [io_rules]:
  assumes "\<And>s. Log s \<in> C"
  shows "only_calls sys C (log_msg sys s)" "only_calls sys C (log_error sys s)" "only_calls sys C (log_retstat sys s r)"
    "only_calls sys C (log_syscall sys s r k)" "only_calls sys C (log_fuse_context sys)" "only_calls sys C (log_conn sys)"
    "only_calls sys C (log_fi sys)" "only_calls sys C (log_stat sys)" "only_calls sys C (log_statvfs sys)"
  unfolding log_msg_def log_error_def log_retstat_def log_syscall_def log_fuse_context_def log_conn_def
    log_fi_def log_stat_def log_statvfs_def
  by (intro io_rules only_calls_lines assms)+

lemma only_calls_checked [io_rules]:
  assumes "\<And>s. Log s \<in> C" and "c \<in> C"
  shows "only_calls sys C (checked_call sys func c)" "only_calls sys C (checked_reply sys func c)"
    "only_calls sys C (failing_call sys func c)"
  unfolding checked_call_def checked_reply_def failing_call_def Let_def by (intro io_rules assms)+


section \<open>A system that keeps its promises\<close>

text \<open>
  The documented behaviour the handlers rely on: what a call answers and does depends on the
  world, not on \<open>errno\<close>; a call that fails has set \<open>errno\<close> to a positive number; the status of a call, which
  for a transfer is at most \<open>0x7ffff000\<close> bytes, is an \<open>int\<close>; printing a message leaves the world alone, and
  no function sets \<open>errno\<close> to zero.
\<close>

definition answer :: "'w system \<Rightarrow> 'w \<Rightarrow> sys_call \<Rightarrow> reply" where
  "answer sys w c = fst (sys w 0 c)"

definition effect :: "'w system \<Rightarrow> 'w \<Rightarrow> sys_call \<Rightarrow> 'w" where
  "effect sys w c = snd (snd (sys w 0 c))"

text \<open>A call that fails returns a negative number, \<open>opendir\<close> a null pointer.\<close>

fun failed :: "sys_call \<Rightarrow> reply \<Rightarrow> bool" where
  "failed (On_path Opendir f) r \<longleftrightarrow> ret r = 0"
| "failed c r \<longleftrightarrow> ret r < 0"

text \<open>All calls but \<open>opendir\<close> fail with a negative number.\<close>

definition returns_status :: "sys_call \<Rightarrow> bool" where
  "returns_status c \<longleftrightarrow> (\<forall>r. failed c r \<longleftrightarrow> ret r < 0)"

lemma returns_status_simps [simp]:
  "returns_status (On_path q f) \<longleftrightarrow> q \<noteq> Opendir" "returns_status (On_paths l f g)" "returns_status (On_fd d n)"
proof -
  show "returns_status (On_path q f) \<longleftrightarrow> q \<noteq> Opendir"
  proof (cases "q = Opendir")
    case True
    then show ?thesis
      by (auto simp: returns_status_def intro: exI [of _ "\<lparr>ret = 0, payload = None\<rparr>"])
  next
    case False
    then show ?thesis by (cases q) (simp_all add: returns_status_def)
  qed
qed (simp_all add: returns_status_def)

definition posix :: "'w system \<Rightarrow> bool" where
  "posix sys \<longleftrightarrow>
     (\<forall>w e c. fst (sys w e c) = answer sys w c \<and> snd (snd (sys w e c)) = effect sys w c) \<and>
     (\<forall>w e c. failed c (answer sys w c) \<longrightarrow> 0 < fst (snd (sys w e c))) \<and>
     (\<forall>w c. returns_status c \<longrightarrow> fits_int (ret (answer sys w c))) \<and>
     (\<forall>w e s. effect sys w (Log s) = w \<and> (0 < e \<longrightarrow> 0 < fst (snd (sys w e (Log s)))))"

lemma posix_int: "posix sys \<Longrightarrow> returns_status c \<Longrightarrow> as_int (ret (answer sys w c)) = ret (answer sys w c)"
  by (simp add: posix_def)

lemma posix_perform:
  assumes "posix sys"
  obtains e where "perform sys c p =
    Inr (answer sys (world p) c, p\<lparr>world := effect sys (world p) c, errno := e, calls := calls p @ [c]\<rparr>)"
    and "failed c (answer sys (world p) c) \<Longrightarrow> 0 < e"
proof -
  obtain r e w where s: "sys (world p) (errno p) c = (r, e, w)" by (metis prod_cases3)
  then have "r = answer sys (world p) c" "w = effect sys (world p) c" "failed c r \<Longrightarrow> 0 < e"
    using assms unfolding posix_def by (metis fst_conv snd_conv)+
  then show ?thesis using s that by (simp add: perform_def)
qed

lemma posix_log_msg:
  assumes "posix sys"
  obtains e where "log_msg sys s p = Inr ((), p\<lparr>errno := e, calls := calls p @ [Log s]\<rparr>)"
    and "0 < errno p \<Longrightarrow> 0 < e"
proof -
  obtain r e w where s: "sys (world p) (errno p) (Log s) = (r, e, w)" by (metis prod_cases3)
  then have "w = world p" "0 < errno p \<Longrightarrow> 0 < e"
    using assms unfolding posix_def by (metis fst_conv snd_conv)+
  then show ?thesis using s that by (simp add: log_msg_def perform_def seq_io_def return_io_def)
qed


text \<open>A step from \<open>p\<close> to \<open>q\<close> that only prints.\<close>

definition logged :: "'w process \<Rightarrow> 'w process \<Rightarrow> bool" where
  "logged p q \<longleftrightarrow> world q = world p \<and> (\<exists>ss. calls q = calls p @ map Log ss) \<and> (0 < errno p \<longrightarrow> 0 < errno q)"

lemma logged_refl [simp]: "logged p p"
  by (auto simp: logged_def)

lemma logged_trans [trans]: "logged p q \<Longrightarrow> logged q r \<Longrightarrow> logged p r"
  unfolding logged_def by (metis append.assoc map_append)

lemma logged_world: "logged p q \<Longrightarrow> world q = world p"
  by (simp add: logged_def)

lemma logs_msg:
  assumes "posix sys"
  shows "\<exists>q. log_msg sys s p = Inr ((), q) \<and> logged p q"
proof -
  obtain e where "log_msg sys s p = Inr ((), p\<lparr>errno := e, calls := calls p @ [Log s]\<rparr>)" "0 < errno p \<Longrightarrow> 0 < e"
    using posix_log_msg [OF assms, of s p] by blast
  then show ?thesis by (auto simp: logged_def intro: exI [of _ "[s]"])
qed

lemma logs_lines:
  assumes "posix sys"
  shows "\<exists>q. log_lines sys ss p = Inr ((), q) \<and> logged p q"
proof (induction ss arbitrary: p)
  case (Cons s ss)
  obtain q where q: "log_msg sys s p = Inr ((), q)" "logged p q" using logs_msg [OF assms] by blast
  obtain r where "log_lines sys ss q = Inr ((), r)" "logged q r" using Cons by blast
  then show ?case using q logged_trans [OF q(2)] by (auto simp: seq_io_def)
qed (simp add: return_io_def)

lemma logs_retstat:
  assumes "posix sys"
  shows "\<exists>q. log_retstat sys func r p = Inr ((), q) \<and> logged p q \<and> errno q = errno p"
  using logs_msg [OF assms, of func p] by (auto simp: log_retstat_def io_defs logged_def)

lemma logs_error:
  assumes "posix sys"
  shows "\<exists>q. log_error sys func p = Inr (- errno p, q) \<and> logged p q"
  using logs_msg [OF assms, of func p] by (auto simp: log_error_def io_defs)

text \<open>What comes out of \<open>log_syscall\<close>: the value of the call or a negative number.\<close>

lemma logs_syscall:
  assumes "posix sys" and "r < k \<Longrightarrow> 0 < errno p"
  shows "\<exists>s q. log_syscall sys func r k p = Inr (s, q) \<and> logged p q \<and> (if k \<le> r then s = r else s < 0)"
proof -
  obtain q where q: "log_retstat sys func r p = Inr ((), q)" "logged p q" "errno q = errno p"
    using logs_retstat [OF assms(1)] by blast
  obtain q' where q': "log_error sys func q = Inr (- errno q, q')" "logged q q'"
    using logs_error [OF assms(1)] by blast
  have "r < k \<Longrightarrow> 0 < errno q'" using assms(2) q(3) q'(2) by (simp add: logged_def)
  then show ?thesis
    using q q' logged_trans [OF q(2) q'(2)] by (auto simp: log_syscall_def io_defs)
qed



section \<open>Total correctness\<close>

text \<open>
  Started in the world \<open>w\<close>, whatever \<open>errno\<close> and the calls before, \<open>f\<close> does not fault and comes
  back with a value and a world that satisfy \<open>P\<close>.
\<close>

definition runs :: "('w, 'a) io \<Rightarrow> 'w \<Rightarrow> ('a \<Rightarrow> 'w \<Rightarrow> bool) \<Rightarrow> bool" where
  "runs f w P \<longleftrightarrow> (\<forall>p. world p = w \<longrightarrow> (\<exists>x q. f p = Inr (x, q) \<and> P x (world q)))"

named_theorems run_rules

lemma runs_mono: "runs f w P \<Longrightarrow> (\<And>x w'. P x w' \<Longrightarrow> Q x w') \<Longrightarrow> runs f w Q"
  unfolding runs_def by blast

lemma runs_return [run_rules]: "P x w \<Longrightarrow> runs (return_io x) w P"
  by (simp add: runs_def return_io_def)

lemma runs_lift [simp]: "runs (lift_io (Inr x)) w P \<longleftrightarrow> P x w"
proof
  assume "runs (lift_io (Inr x)) w P"
  from this [unfolded runs_def, rule_format, of "\<lparr>world = w, errno = 0, calls = []\<rparr>"]
  show "P x w" by (simp add: lift_io_def)
qed (simp add: runs_def lift_io_def)

lemma runs_seq [run_rules]:
  assumes "runs f w (\<lambda>x w'. runs (g x) w' P)"
  shows "runs (seq_io f g) w P"
  unfolding runs_def
proof (intro allI impI)
  fix p :: "'a process" assume "world p = w"
  then obtain x q where "f p = Inr (x, q)" "runs (g x) (world q) P"
    using assms unfolding runs_def by blast
  then show "\<exists>x q. seq_io f g p = Inr (x, q) \<and> P x (world q)" by (simp add: runs_def seq_io_def)
qed

lemma runs_perform [run_rules]:
  assumes "posix sys" and "P (answer sys w c) (effect sys w c)"
  shows "runs (perform sys c) w P"
  unfolding runs_def
proof (intro allI impI)
  fix p :: "'a process" assume w: "world p = w"
  obtain e where "perform sys c p =
    Inr (answer sys (world p) c, p\<lparr>world := effect sys (world p) c, errno := e, calls := calls p @ [c]\<rparr>)"
    using posix_perform [OF assms(1)] by metis
  then show "\<exists>x q. perform sys c p = Inr (x, q) \<and> P x (world q)" using w assms(2) by simp
qed

lemma runs_logged:
  assumes "\<And>p. \<exists>q. f p = Inr ((), q) \<and> logged p q" and "P () w"
  shows "runs f w P"
  using assms unfolding runs_def by (metis logged_world)

lemma runs_log [run_rules]:
  assumes "posix sys" and "P () w"
  shows "runs (log_msg sys s) w P" "runs (log_lines sys ss) w P" "runs (log_fuse_context sys) w P"
    "runs (log_conn sys) w P" "runs (log_fi sys) w P" "runs (log_stat sys) w P" "runs (log_statvfs sys) w P"
  using assms unfolding log_fuse_context_def log_conn_def log_fi_def log_stat_def log_statvfs_def
  by (blast intro: runs_logged logs_msg logs_lines)+

text \<open>A call whose status is checked: the value of the call, or a negative number when that is negative.\<close>

definition status_of :: "int \<Rightarrow> int \<Rightarrow> bool" where
  "status_of r s \<longleftrightarrow> (if 0 \<le> r then s = r else s < 0)"

lemma status_of_nonneg [simp]: "0 \<le> r \<Longrightarrow> status_of r s \<longleftrightarrow> s = r"
  and status_of_neg [simp]: "r < 0 \<Longrightarrow> status_of r s \<longleftrightarrow> s < 0"
  by (simp_all add: status_of_def)

lemma runs_call_then:
  assumes "posix sys"
    and "\<And>p. world p = effect sys w c \<Longrightarrow> (failed c (answer sys w c) \<Longrightarrow> 0 < errno p) \<Longrightarrow>
      \<exists>x q. g (answer sys w c) p = Inr (x, q) \<and> P x (world q)"
  shows "runs (seq_io (perform sys c) g) w P"
  unfolding runs_def
proof (intro allI impI)
  fix p :: "'a process" assume w: "world p = w"
  obtain e where e: "perform sys c p =
    Inr (answer sys w c, p\<lparr>world := effect sys w c, errno := e, calls := calls p @ [c]\<rparr>)"
    "failed c (answer sys w c) \<Longrightarrow> 0 < e"
    using posix_perform [OF assms(1)] w by metis
  then show "\<exists>x q. seq_io (perform sys c) g p = Inr (x, q) \<and> P x (world q)"
    using assms(2) [of "p\<lparr>world := effect sys w c, errno := e, calls := calls p @ [c]\<rparr>"]
    by (simp add: seq_io_def)
qed

lemma runs_reply [run_rules]:
  assumes "posix sys" and "returns_status c"
    and "\<And>s. status_of (ret (answer sys w c)) s \<Longrightarrow> P (s, payload (answer sys w c)) (effect sys w c)"
  shows "runs (checked_reply sys func c) w P"
  unfolding checked_reply_def
proof (rule runs_call_then [OF assms(1)])
  let ?r = "answer sys w c"
  fix p :: "'a process" assume p: "world p = effect sys w c" "failed c ?r \<Longrightarrow> 0 < errno p"
  have "ret ?r < 0 \<Longrightarrow> 0 < errno p" using p(2) assms(2) by (simp add: returns_status_def)
  then obtain s q where q: "log_syscall sys func (ret ?r) 0 p = Inr (s, q)" "logged p q"
    "if 0 \<le> ret ?r then s = ret ?r else s < 0"
    using logs_syscall [OF assms(1), of "ret ?r" 0 p func] by blast
  have "status_of (ret ?r) s" using q(3) by (simp add: status_of_def)
  then show "\<exists>x q. seq_io (log_syscall sys func (as_int (ret ?r)) 0) (\<lambda>s. return_io (s, payload ?r)) p = Inr (x, q) \<and> P x (world q)"
    unfolding posix_int [OF assms(1,2)] using assms(3) p(1) q(1,2) by (auto simp: seq_io_def return_io_def logged_world)
qed

lemma runs_checked [run_rules]:
  assumes "posix sys" and "returns_status c" and "\<And>s. status_of (ret (answer sys w c)) s \<Longrightarrow> P s (effect sys w c)"
  shows "runs (checked_call sys func c) w P"
proof -
  have "runs (checked_reply sys func c) w (\<lambda>x w'. P (fst x) w')"
    using assms by (intro runs_reply) simp_all
  then show ?thesis
    unfolding runs_def checked_reply_def checked_call_def seq_io_def return_io_def
    by (fastforce simp del: sum.inject split: prod.splits)
qed

lemma runs_failing [run_rules]:
  assumes "posix sys" and "returns_status c" and "\<And>s. status_of (ret (answer sys w c)) s \<Longrightarrow> P s (effect sys w c)"
  shows "runs (failing_call sys func c) w P"
  unfolding failing_call_def
proof (rule runs_call_then [OF assms(1)])
  fix p :: "'a process" assume p: "world p = effect sys w c" "failed c (answer sys w c) \<Longrightarrow> 0 < errno p"
  obtain q where "log_error sys func p = Inr (- errno p, q)" "logged p q"
    using logs_error [OF assms(1)] by blast
  moreover have "ret (answer sys w c) < 0 \<Longrightarrow> 0 < errno p" using p(2) assms(2) by (simp add: returns_status_def)
  ultimately show "\<exists>x q. (let retstat = as_int (ret (answer sys w c)) in
      if retstat < 0 then log_error sys func else return_io retstat) p = Inr (x, q) \<and> P x (world q)"
    unfolding posix_int [OF assms(1,2)] Let_def using assms(3) p(1) by (auto simp: logged_world return_io_def status_of_def)
qed


text \<open>Every run from the world \<open>w\<close> ends in the fault \<open>e\<close>.\<close>

definition faults :: "('w, 'a) io \<Rightarrow> 'w \<Rightarrow> fault \<Rightarrow> bool" where
  "faults f w e \<longleftrightarrow> (\<forall>p. world p = w \<longrightarrow> f p = Inl e)"

lemma faults_fail [simp]: "faults (fail_io e) w e"
  by (simp add: faults_def fail_io_def)

lemma faults_lift [simp]: "faults (lift_io (Inl e)) w e"
  by (simp add: faults_def lift_io_def)

lemma faults_seq: "faults f w e \<Longrightarrow> faults (seq_io f g) w e"
  by (simp add: faults_def seq_io_def)

lemma faults_after:
  assumes "runs f w (\<lambda>x w'. faults (g x) w' e)"
  shows "faults (seq_io f g) w e"
  unfolding faults_def
proof (intro allI impI)
  fix p :: "'a process" assume "world p = w"
  then obtain x q where "f p = Inr (x, q)" "faults (g x) (world q) e"
    using assms unfolding runs_def by blast
  then show "seq_io f g p = Inl e" by (simp add: faults_def seq_io_def)
qed

lemmas fault_rules = faults_after [OF runs_log(1)] faults_after [OF runs_log(5)]
  faults_after [OF runs_perform] faults_after [OF runs_checked]

end
