(* ===== verification/Handlers.thy ===== *)
theory Handlers
  imports System
begin

text \<open>
  The FUSE operations of \<^verbatim>\<open>bbfs.c\<close> except \<open>bb_write\<close>. Each one logs, builds the path of the
  underlying file, makes its system call and turns an error into \<open>-errno\<close>.
\<close>

unbundle bit_operations_syntax


section \<open>The mounted directory\<close>

text \<open>
  \<open>BB_DATA->rootdir\<close>, the size of a path buffer, and the system. Structs that a system call
  fills for the caller (\<open>stat\<close>, \<open>statvfs\<close>, the buffer of a read) are passed through and left out, and
  so are arguments of a request that only the system looks at (the times of \<open>utime\<close>, the flags of
  \<open>setxattr\<close>).
\<close>

record 'w mount =
  rootdir :: string
  path_max :: nat
  sys :: "'w system"

record file_info =
  flags :: int
  fh :: int

definition bb_fullpath :: "'w mount \<Rightarrow> string \<Rightarrow> ('w, string) io" where
  "bb_fullpath env path =
     (if path_max env \<le> length (rootdir env) then fail_io Overrun else
      let fpath = rootdir env @ take (path_max env) path in
      if path_max env \<le> length fpath then fail_io Overrun else
      seq_io (log_msg (sys env) ''bb_fullpath'') (\<lambda>_. return_io fpath))"

text \<open>The first lines of most operations.\<close>

definition with_path :: "'w mount \<Rightarrow> string \<Rightarrow> string \<Rightarrow> (string \<Rightarrow> ('w, 'a) io) \<Rightarrow> ('w, 'a) io" where
  "with_path env name path f =
     seq_io (log_msg (sys env) name) (\<lambda>_. seq_io (bb_fullpath env path) f)"


section \<open>Operations on paths\<close>

definition bb_getattr :: "'w mount \<Rightarrow> string \<Rightarrow> ('w, int) io" where
  "bb_getattr env path = with_path env ''bb_getattr'' path (\<lambda>fpath.
     seq_io (checked_call (sys env) ''lstat'' (On_path Lstat fpath)) (\<lambda>retstat.
     seq_io (log_stat (sys env)) (\<lambda>_. return_io retstat)))"

text \<open>\<open>size - 1\<close> is computed on \<open>size_t\<close>; the second value is the terminated link.\<close>

definition bb_readlink :: "'w mount \<Rightarrow> string \<Rightarrow> 64 word \<Rightarrow> ('w, int \<times> string option) io" where
  "bb_readlink env path bufsize = with_path env ''bb_readlink'' path (\<lambda>fpath.
     seq_io (checked_reply (sys env) ''readlink'' (On_path (Readlink (unat (bufsize - 1))) fpath)) (\<lambda>(retstat, link).
     if 0 \<le> retstat then
       seq_io (log_msg (sys env) ''link'') (\<lambda>_.
       return_io (0, map_option (take (nat retstat)) link))
     else return_io (retstat, None)))"

abbreviation S_ISREG :: "int \<Rightarrow> bool" where
  "S_ISREG mode \<equiv> mode AND 0xF000 = 0x8000"

abbreviation S_ISFIFO :: "int \<Rightarrow> bool" where
  "S_ISFIFO mode \<equiv> mode AND 0xF000 = 0x1000"

definition bb_mknod :: "'w mount \<Rightarrow> string \<Rightarrow> int \<Rightarrow> int \<Rightarrow> ('w, int) io" where
  "bb_mknod env path mode dev = with_path env ''bb_mknod'' path (\<lambda>fpath.
     if S_ISREG mode then
       seq_io (checked_call (sys env) ''open'' (On_path (Open (Creat_excl_wronly mode)) fpath)) (\<lambda>retstat.
       if 0 \<le> retstat then checked_call (sys env) ''close'' (On_fd Close retstat)
       else return_io retstat)
     else if S_ISFIFO mode then checked_call (sys env) ''mkfifo'' (On_path (Mkfifo mode) fpath)
     else checked_call (sys env) ''mknod'' (On_path (Mknod mode dev) fpath))"

definition bb_mkdir :: "'w mount \<Rightarrow> string \<Rightarrow> int \<Rightarrow> ('w, int) io" where
  "bb_mkdir env path mode = with_path env ''bb_mkdir'' path (\<lambda>fpath.
     checked_call (sys env) ''mkdir'' (On_path (Mkdir mode) fpath))"

definition bb_unlink :: "'w mount \<Rightarrow> string \<Rightarrow> ('w, int) io" where
  "bb_unlink env path = with_path env ''bb_unlink'' path (\<lambda>fpath.
     checked_call (sys env) ''unlink'' (On_path Unlink fpath))"

definition bb_rmdir :: "'w mount \<Rightarrow> string \<Rightarrow> ('w, int) io" where
  "bb_rmdir env path = with_path env ''bb_rmdir'' path (\<lambda>fpath.
     checked_call (sys env) ''rmdir'' (On_path Rmdir fpath))"

text \<open>\<open>path\<close> is where the link points, \<open>link\<close> is the link itself.\<close>

definition bb_symlink :: "'w mount \<Rightarrow> string \<Rightarrow> string \<Rightarrow> ('w, int) io" where
  "bb_symlink env path link = with_path env ''bb_symlink'' link (\<lambda>flink.
     checked_call (sys env) ''symlink'' (On_paths Symlink path flink))"

definition bb_rename :: "'w mount \<Rightarrow> string \<Rightarrow> string \<Rightarrow> ('w, int) io" where
  "bb_rename env path newpath = with_path env ''bb_rename'' path (\<lambda>fpath.
     seq_io (bb_fullpath env newpath) (\<lambda>fnewpath.
     checked_call (sys env) ''rename'' (On_paths Rename fpath fnewpath)))"

definition bb_link :: "'w mount \<Rightarrow> string \<Rightarrow> string \<Rightarrow> ('w, int) io" where
  "bb_link env path newpath = with_path env ''bb_link'' path (\<lambda>fpath.
     seq_io (bb_fullpath env newpath) (\<lambda>fnewpath.
     checked_call (sys env) ''link'' (On_paths Link fpath fnewpath)))"

definition bb_chmod :: "'w mount \<Rightarrow> string \<Rightarrow> int \<Rightarrow> ('w, int) io" where
  "bb_chmod env path mode = with_path env ''bb_chmod'' path (\<lambda>fpath.
     checked_call (sys env) ''chmod'' (On_path (Chmod mode) fpath))"

definition bb_chown :: "'w mount \<Rightarrow> string \<Rightarrow> int \<Rightarrow> int \<Rightarrow> ('w, int) io" where
  "bb_chown env path uid gid = with_path env ''bb_chown'' path (\<lambda>fpath.
     checked_call (sys env) ''chown'' (On_path (Chown uid gid) fpath))"

definition bb_truncate :: "'w mount \<Rightarrow> string \<Rightarrow> int \<Rightarrow> ('w, int) io" where
  "bb_truncate env path newsize = with_path env ''bb_truncate'' path (\<lambda>fpath.
     checked_call (sys env) ''truncate'' (On_path (Truncate newsize) fpath))"

definition bb_utime :: "'w mount \<Rightarrow> string \<Rightarrow> ('w, int) io" where
  "bb_utime env path = with_path env ''bb_utime'' path (\<lambda>fpath.
     checked_call (sys env) ''utime'' (On_path Utime fpath))"

definition bb_statfs :: "'w mount \<Rightarrow> string \<Rightarrow> ('w, int) io" where
  "bb_statfs env path = with_path env ''bb_statfs'' path (\<lambda>fpath.
     seq_io (checked_call (sys env) ''statvfs'' (On_path Statvfs fpath)) (\<lambda>retstat.
     seq_io (log_statvfs (sys env)) (\<lambda>_. return_io retstat)))"

definition bb_access :: "'w mount \<Rightarrow> string \<Rightarrow> int \<Rightarrow> ('w, int) io" where
  "bb_access env path amode = with_path env ''bb_access'' path (\<lambda>fpath.
     failing_call (sys env) ''bb_access access'' (On_path (Access amode) fpath))"


section \<open>Open files\<close>

definition bb_open :: "'w mount \<Rightarrow> string \<Rightarrow> file_info \<Rightarrow> ('w, int \<times> file_info) io" where
  "bb_open env path fi = with_path env ''bb_open'' path (\<lambda>fpath.
     seq_io (checked_call (sys env) ''open'' (On_path (Open (Flags (flags fi))) fpath)) (\<lambda>fd.
     seq_io (if fd < 0 then log_error (sys env) ''open'' else return_io 0) (\<lambda>retstat.
     seq_io (log_fi (sys env)) (\<lambda>_. return_io (retstat, fi\<lparr>fh := fd\<rparr>)))))"

text \<open>An operation that works on \<open>fi->fh\<close> logs its arguments and the struct first.\<close>

definition with_file :: "'w mount \<Rightarrow> string \<Rightarrow> ('w, 'a) io \<Rightarrow> ('w, 'a) io" where
  "with_file env name f =
     seq_io (log_msg (sys env) name) (\<lambda>_. seq_io (log_fi (sys env)) (\<lambda>_. f))"

definition bb_read :: "'w mount \<Rightarrow> string \<Rightarrow> nat \<Rightarrow> int \<Rightarrow> file_info \<Rightarrow> ('w, int) io" where
  "bb_read env path bufsize offset fi = with_file env ''bb_read''
     (checked_call (sys env) ''pread'' (On_fd (Pread bufsize offset) (fh fi)))"

definition bb_flush :: "'w mount \<Rightarrow> string \<Rightarrow> file_info \<Rightarrow> ('w, int) io" where
  "bb_flush env path fi = with_file env ''bb_flush'' (return_io 0)"

definition bb_release :: "'w mount \<Rightarrow> string \<Rightarrow> file_info \<Rightarrow> ('w, int) io" where
  "bb_release env path fi = with_file env ''bb_release''
     (checked_call (sys env) ''close'' (On_fd Close (fh fi)))"

definition bb_fsync :: "'w mount \<Rightarrow> string \<Rightarrow> int \<Rightarrow> file_info \<Rightarrow> ('w, int) io" where
  "bb_fsync env path datasync fi = with_file env ''bb_fsync''
     (if datasync \<noteq> 0 then checked_call (sys env) ''fdatasync'' (On_fd Fdatasync (fh fi))
      else checked_call (sys env) ''fsync'' (On_fd Fsync (fh fi)))"

definition bb_ftruncate :: "'w mount \<Rightarrow> string \<Rightarrow> int \<Rightarrow> file_info \<Rightarrow> ('w, int) io" where
  "bb_ftruncate env path offset fi = with_file env ''bb_ftruncate''
     (failing_call (sys env) ''bb_ftruncate ftruncate'' (On_fd (Ftruncate offset) (fh fi)))"

definition bb_fgetattr :: "'w mount \<Rightarrow> string \<Rightarrow> file_info \<Rightarrow> ('w, int) io" where
  "bb_fgetattr env path fi = with_file env ''bb_fgetattr''
     (if path = ''/'' then bb_getattr env path else
      seq_io (failing_call (sys env) ''bb_fgetattr fstat'' (On_fd Fstat (fh fi))) (\<lambda>retstat.
      seq_io (log_stat (sys env)) (\<lambda>_. return_io retstat)))"


section \<open>Extended attributes\<close>

definition bb_setxattr :: "'w mount \<Rightarrow> string \<Rightarrow> string \<Rightarrow> string \<Rightarrow> nat \<Rightarrow> ('w, int) io" where
  "bb_setxattr env path name value valsize = with_path env ''bb_setxattr'' path (\<lambda>fpath.
     checked_call (sys env) ''lsetxattr'' (On_path (Setxattr name (take valsize value)) fpath))"

definition bb_getxattr :: "'w mount \<Rightarrow> string \<Rightarrow> string \<Rightarrow> nat \<Rightarrow> ('w, int) io" where
  "bb_getxattr env path name valsize = with_path env ''bb_getxattr'' path (\<lambda>fpath.
     seq_io (checked_call (sys env) ''lgetxattr'' (On_path (Getxattr name valsize) fpath)) (\<lambda>retstat.
     seq_io (if 0 \<le> retstat then log_msg (sys env) ''value'' else return_io ()) (\<lambda>_.
     return_io retstat)))"

text \<open>The loop over the names in the buffer, from a position with \<open>n\<close> bytes left.\<close>

function attr_names :: "char list \<Rightarrow> nat \<Rightarrow> fault + string list" where
  "attr_names buf n =
     (if n = 0 then Inr []
      else bind_c (c_string buf) (\<lambda>s.
           bind_c (attr_names (drop (length s + 1) buf) (n - (length s + 1))) (\<lambda>names.
           Inr (s # names))))"
  by pat_completeness auto
termination
  by (relation "measure snd") auto

declare attr_names.simps [simp del]

definition bb_listxattr :: "'w mount \<Rightarrow> string \<Rightarrow> bool \<Rightarrow> nat \<Rightarrow> ('w, int) io" where
  "bb_listxattr env path list_given bufsize = with_path env ''bb_listxattr'' path (\<lambda>fpath.
     seq_io (checked_reply (sys env) ''llistxattr'' (On_path (Listxattr bufsize) fpath)) (\<lambda>(retstat, names).
     if 0 \<le> retstat then
       seq_io (log_msg (sys env) ''returned attributes'') (\<lambda>_.
       seq_io (if list_given then
                 (case names of
                    None \<Rightarrow> fail_io Bad_pointer
                  | Some buf \<Rightarrow> seq_io (lift_io (attr_names buf (nat retstat))) (log_lines (sys env)))
               else log_msg (sys env) ''(null)'') (\<lambda>_.
       return_io retstat))
     else return_io retstat))"

definition bb_removexattr :: "'w mount \<Rightarrow> string \<Rightarrow> string \<Rightarrow> ('w, int) io" where
  "bb_removexattr env path name = with_path env ''bb_removexattr'' path (\<lambda>fpath.
     checked_call (sys env) ''lremovexattr'' (On_path (Removexattr name) fpath))"


section \<open>Directories\<close>

definition ENOMEM :: int where "ENOMEM = 12"

definition bb_opendir :: "'w mount \<Rightarrow> string \<Rightarrow> file_info \<Rightarrow> ('w, int \<times> file_info) io" where
  "bb_opendir env path fi = with_path env ''bb_opendir'' path (\<lambda>fpath.
     seq_io (perform (sys env) (On_path Opendir fpath)) (\<lambda>dp.
     seq_io (log_msg (sys env) ''opendir returned'') (\<lambda>_.
     seq_io (if ret dp = 0 then log_error (sys env) ''bb_opendir opendir'' else return_io 0) (\<lambda>retstat.
     seq_io (log_fi (sys env)) (\<lambda>_. return_io (retstat, fi\<lparr>fh := ret dp\<rparr>))))))"

text \<open>The loop of \<open>bb_readdir\<close>: whether it ended at the end of the directory.\<close>

fun fill_dir :: "'w mount \<Rightarrow> nat \<Rightarrow> int \<Rightarrow> string \<Rightarrow> ('w, bool) io" where
  "fill_dir env 0 dp de = fail_io Stack_exhausted"
| "fill_dir env (Suc fuel) dp de =
     seq_io (log_msg (sys env) ''calling filler with name'') (\<lambda>_.
     seq_io (perform (sys env) (Filler de)) (\<lambda>r.
     if ret r \<noteq> 0 then
       seq_io (log_msg (sys env) ''ERROR bb_readdir filler:  buffer full'') (\<lambda>_. return_io False)
     else seq_io (perform (sys env) (On_fd Readdir dp)) (\<lambda>next.
       case payload next of
         None \<Rightarrow> return_io True
       | Some de \<Rightarrow> fill_dir env fuel dp de)))"

definition bb_readdir :: "'w mount \<Rightarrow> nat \<Rightarrow> string \<Rightarrow> file_info \<Rightarrow> ('w, int) io" where
  "bb_readdir env fuel path fi =
     seq_io (log_msg (sys env) ''bb_readdir'') (\<lambda>_.
     seq_io (perform (sys env) (On_fd Readdir (fh fi))) (\<lambda>first.
     seq_io (log_msg (sys env) ''readdir returned'') (\<lambda>_.
     case payload first of
       None \<Rightarrow> log_error (sys env) ''bb_readdir readdir''
     | Some de \<Rightarrow> seq_io (fill_dir env fuel (fh fi) de) (\<lambda>at_end.
         if at_end then seq_io (log_fi (sys env)) (\<lambda>_. return_io 0)
         else return_io (- ENOMEM)))))"

definition bb_releasedir :: "'w mount \<Rightarrow> string \<Rightarrow> file_info \<Rightarrow> ('w, int) io" where
  "bb_releasedir env path fi = with_file env ''bb_releasedir''
     (seq_io (perform (sys env) (On_fd Closedir (fh fi))) (\<lambda>_. return_io 0))"

definition bb_fsyncdir :: "'w mount \<Rightarrow> string \<Rightarrow> int \<Rightarrow> file_info \<Rightarrow> ('w, int) io" where
  "bb_fsyncdir env path datasync fi = with_file env ''bb_fsyncdir'' (return_io 0)"


section \<open>Start and end\<close>

definition bb_init :: "'w mount \<Rightarrow> ('w, unit) io" where
  "bb_init env = seq_io (log_msg (sys env) ''bb_init'') (\<lambda>_.
     seq_io (log_conn (sys env)) (\<lambda>_. log_fuse_context (sys env)))"

definition bb_destroy :: "'w mount \<Rightarrow> ('w, unit) io" where
  "bb_destroy env = log_msg (sys env) ''bb_destroy''"


section \<open>The calls of an operation\<close>

lemma only_calls_fullpath:
  assumes "\<And>s. Log s \<in> C" and "only_calls (sys env) C (f (rootdir env @ path))"
  shows "only_calls (sys env) C (seq_io (bb_fullpath env path) f)"
proof (cases "length (rootdir env) + length path < path_max env")
  case True
  have "seq_io (bb_fullpath env path) f = seq_io (log_msg (sys env) ''bb_fullpath'') (\<lambda>_. f (rootdir env @ path))"
    using True by (simp add: bb_fullpath_def Let_def fun_eq_iff io_defs bind_c_assoc split_def)
  then show ?thesis using assms by (simp add: io_rules)
next
  case False
  then show ?thesis by (simp add: bb_fullpath_def Let_def only_calls_def io_defs min_def)
qed

lemma only_calls_with_path [io_rules]:
  "(\<And>s. Log s \<in> C) \<Longrightarrow> only_calls (sys env) C (f (rootdir env @ path)) \<Longrightarrow>
   only_calls (sys env) C (with_path env name path f)"
  unfolding with_path_def by (intro io_rules only_calls_fullpath)

lemma only_calls_with_file [io_rules]:
  "(\<And>s. Log s \<in> C) \<Longrightarrow> only_calls (sys env) C f \<Longrightarrow> only_calls (sys env) C (with_file env name f)"
  unfolding with_file_def by (intro io_rules)

end
