(* ===== verification/Tokenizer.thy ===== *)
theory Tokenizer
  imports Handlers
begin

text \<open>
  \<open>str_split\<close> and \<open>string_to_tree\<close> of \<^verbatim>\<open>merkle_tree/merkletree.c\<close> once more, as a thread among
  others runs them: every \<open>strtok\<close> is a call of its own, between two of which others can move the static
  variable of \<open>strtok\<close>. While nobody does they give what the functions of the theory Tree_String give.
\<close>


section \<open>The code\<close>

fun token_loop_io :: "'w system \<Rightarrow> char \<Rightarrow> nat \<Rightarrow> string option \<Rightarrow> ('w, string list) io" where
  "token_loop_io os d room None = (if room = 1 then return_io [] else fail_io Assertion_failed)"
| "token_loop_io os d 0 (Some token) = fail_io Assertion_failed"
| "token_loop_io os d (Suc room) (Some token) =
     seq_io (perform os (Strtok None d)) (\<lambda>r.
     seq_io (token_loop_io os d room (payload r)) (\<lambda>result. return_io (token # result)))"

definition str_split_io :: "'w system \<Rightarrow> string \<Rightarrow> char \<Rightarrow> ('w, string list) io" where
  "str_split_io os a_str a_delim =
     seq_io (perform os (Strtok (Some a_str) a_delim)) (\<lambda>r.
     token_loop_io os a_delim (split_count a_str a_delim) (payload r))"

fun read_hashes_io :: "'w system \<Rightarrow> string list \<Rightarrow> nat \<Rightarrow> merkle_tree \<Rightarrow> ('w, merkle_tree) io" where
  "read_hashes_io os [] i mt = return_io mt"
| "read_hashes_io os (t # ts) i mt =
     seq_io (str_split_io os t CHR '':'') (\<lambda>thing.
     seq_io (lift_io (second_token thing)) (\<lambda>hash_string.
     if 8 * 2 * HASH_SIZE div BYTE_SIZE \<le> length hash_string then fail_io Overrun
     else read_hashes_io os ts (i + 1) (set_hash mt (i + 1) (Str hash_string))))"

definition string_to_tree_io :: "'w system \<Rightarrow> memory \<Rightarrow> merkle_tree \<Rightarrow> string \<Rightarrow> ('w, merkle_tree) io" where
  "string_to_tree_io os m mt tree_string =
     seq_io (str_split_io os tree_string CHR '','') (\<lambda>tokens.
     seq_io (lift_io (c_log2 (length tokens + 1))) (\<lambda>h.
     read_hashes_io os tokens 0 (new_nodes m (mt\<lparr>tree_height := h\<rparr>) (length tokens + 1))))"

lemma only_calls_tokens [io_rules]:
  assumes "\<And>s d. Strtok s d \<in> C"
  shows "only_calls os C (string_to_tree_io os m mt s)"
proof -
  have loop: "only_calls os C (token_loop_io os d room token)" for d room token
    by (induction room arbitrary: token; case_tac token) (simp_all add: io_rules assms)
  have split: "only_calls os C (str_split_io os t d)" for t d
    unfolding str_split_io_def by (intro io_rules loop assms)
  have hashes: "only_calls os C (read_hashes_io os ts i T)" for ts i T
    by (induction ts arbitrary: i T) (simp_all add: io_rules split)
  show ?thesis unfolding string_to_tree_io_def by (intro io_rules split hashes)
qed


section \<open>The static variable\<close>

text \<open>From one world to another by calls of \<open>strtok\<close>.\<close>

inductive by_strtok :: "'w system \<Rightarrow> 'w \<Rightarrow> 'w \<Rightarrow> bool" for os where
  by_strtok_refl [intro, simp]: "by_strtok os w w"
| by_strtok_call: "by_strtok os (effect os w (Strtok s d)) u \<Longrightarrow> by_strtok os w u"

lemma by_strtok_trans: "by_strtok os w u \<Longrightarrow> by_strtok os u v \<Longrightarrow> by_strtok os w v"
  by (induction rule: by_strtok.induct) (auto intro: by_strtok_call)

lemma by_strtok_invariant:
  "by_strtok os w u \<Longrightarrow> (\<And>x s d. I x \<Longrightarrow> I (effect os x (Strtok s d))) \<Longrightarrow> I w \<Longrightarrow> I u"
  by (induction rule: by_strtok.induct) auto


section \<open>Undisturbed\<close>

text \<open>
  What a thread relies on. \<open>cursor w\<close> is the string that the static variable of \<open>strtok\<close> points to; in the worlds
  that satisfy \<open>locked\<close> nobody else calls \<open>strtok\<close>, and the mutex leads into such a world.
\<close>

locale tokenizer =
  fixes os :: "'w system" and cursor :: "'w \<Rightarrow> string" and locked :: "'w \<Rightarrow> bool"
  assumes os: "posix os"
    and lock: "locked (effect os w Mutex_lock)"
    and token: "locked w \<Longrightarrow> payload (answer os w (Strtok s d)) = fst (strtok s d (cursor w))"
    and rest: "locked w \<Longrightarrow> cursor (effect os w (Strtok s d)) = snd (strtok s d (cursor w))"
    and still_locked: "locked w \<Longrightarrow> locked (effect os w (Strtok s d))"
begin

lemma runs_token_loop:
  assumes "locked w" and "token_loop d room token (cursor w) = Inr ts"
  shows "runs (token_loop_io os d room token) w (\<lambda>x w'. x = ts \<and> locked w' \<and> by_strtok os w w')"
  using assms
proof (induction room arbitrary: token w ts)
  case 0
  then show ?case by (cases token) (simp_all split: if_splits)
next
  case (Suc room)
  show ?case
  proof (cases token)
    case None
    then show ?thesis using Suc.prems by (auto intro!: run_rules split: if_splits)
  next
    case (Some t)
    let ?w = "effect os w (Strtok None d)"
    note c = token [OF Suc.prems(1), of None d] rest [OF Suc.prems(1), of None d] still_locked [OF Suc.prems(1), of None d]
    obtain ts' where ts: "token_loop d room (fst (strtok None d (cursor w))) (cursor ?w) = Inr ts'" "ts = t # ts'"
      using Suc.prems(2) Some c(2) by (auto simp: split_def)
    have "runs (token_loop_io os d room (payload (answer os w (Strtok None d)))) ?w
        (\<lambda>x w'. x = ts' \<and> locked w' \<and> by_strtok os ?w w')"
      using Suc.IH [OF c(3)] ts(1) c(1) by simp
    then show ?thesis
      unfolding Some token_loop_io.simps
      by (auto intro!: run_rules os elim!: runs_mono simp: ts(2) intro: by_strtok_call)
  qed
qed

lemma runs_str_split:
  assumes "locked w" and "str_split s d = Inr ts"
  shows "runs (str_split_io os s d) w (\<lambda>x w'. x = ts \<and> locked w' \<and> by_strtok os w w')"
proof -
  let ?w = "effect os w (Strtok (Some s) d)"
  have start: "strtok (Some s) d r = strtok (Some s) d []" for r by (simp add: strtok_def)
  note c = token [OF assms(1), of "Some s" d, unfolded start [of "cursor w"]] rest [OF assms(1), of "Some s" d, unfolded start [of "cursor w"]]
    still_locked [OF assms(1), of "Some s" d]
  have "token_loop d (split_count s d) (payload (answer os w (Strtok (Some s) d))) (cursor ?w) = Inr ts"
    using assms(2) c by (simp add: str_split_def split_def)
  from runs_token_loop [OF c(3) this] show ?thesis
    unfolding str_split_io_def by (auto intro!: run_rules os elim!: runs_mono intro: by_strtok_call)
qed

lemma runs_read_hashes:
  assumes "locked w" and "read_hashes ts i mt = Inr T"
  shows "runs (read_hashes_io os ts i mt) w (\<lambda>x w'. x = T \<and> locked w' \<and> by_strtok os w w')"
  using assms
proof (induction ts arbitrary: i mt w)
  case Nil
  then show ?case by (auto intro!: run_rules)
next
  case (Cons t ts)
  obtain thing h where s: "str_split t CHR '':'' = Inr thing" "second_token thing = Inr h"
    "\<not> 8 * 2 * HASH_SIZE div BYTE_SIZE \<le> length h" "read_hashes ts (i + 1) (set_hash mt (i + 1) (Str h)) = Inr T"
    using Cons.prems(2) by (auto split: if_splits)
  from runs_str_split [OF Cons.prems(1) s(1)]
  have "runs (str_split_io os t CHR '':'') w (\<lambda>x w'. x = thing \<and>
    runs (read_hashes_io os ts (i + 1) (set_hash mt (i + 1) (Str h))) w' (\<lambda>x w''. x = T \<and> locked w'' \<and> by_strtok os w w''))"
  proof (rule runs_mono)
    fix x w' assume x: "x = thing \<and> locked w' \<and> by_strtok os w w'"
    then show "x = thing \<and> runs (read_hashes_io os ts (i + 1) (set_hash mt (i + 1) (Str h))) w'
        (\<lambda>x w''. x = T \<and> locked w'' \<and> by_strtok os w w'')"
      using runs_mono [OF Cons.IH [OF _ s(4)]] by_strtok_trans by (metis (mono_tags, lifting))
  qed
  then show ?case
    using s(2,3) by (auto intro!: run_rules elim!: runs_mono)
qed

lemma runs_string_to_tree:
  assumes "locked w" and "string_to_tree m mt s = Inr T"
  shows "runs (string_to_tree_io os m mt s) w (\<lambda>x w'. x = T \<and> locked w' \<and> by_strtok os w w')"
proof -
  obtain tokens h where s: "str_split s CHR '','' = Inr tokens" "c_log2 (length tokens + 1) = Inr h"
    "read_hashes tokens 0 (new_nodes m (mt\<lparr>tree_height := h\<rparr>) (length tokens + 1)) = Inr T"
    using assms(2) unfolding string_to_tree_def by (auto)
  from runs_str_split [OF assms(1) s(1)]
  have "runs (str_split_io os s CHR '','') w (\<lambda>x w'. x = tokens \<and>
    runs (read_hashes_io os tokens 0 (new_nodes m (mt\<lparr>tree_height := h\<rparr>) (length tokens + 1))) w'
      (\<lambda>x w''. x = T \<and> locked w'' \<and> by_strtok os w w''))"
  proof (rule runs_mono)
    fix x w' assume x: "x = tokens \<and> locked w' \<and> by_strtok os w w'"
    then show "x = tokens \<and> runs (read_hashes_io os tokens 0 (new_nodes m (mt\<lparr>tree_height := h\<rparr>) (length tokens + 1))) w'
        (\<lambda>x w''. x = T \<and> locked w'' \<and> by_strtok os w w'')"
      using runs_mono [OF runs_read_hashes [OF _ s(3)]] by_strtok_trans by (metis (mono_tags, lifting))
  qed
  then show ?thesis
    unfolding string_to_tree_io_def using s(2) by (auto intro!: run_rules elim!: runs_mono)
qed

lemma runs_read:
  assumes "locked w" and "string_to_tree m mt s = Inr T" and "\<And>u. by_strtok os w u \<Longrightarrow> P T u"
  shows "runs (string_to_tree_io os m mt s) w P"
  using runs_string_to_tree [OF assms(1,2)] by (rule runs_mono) (use assms(3) in blast)

end

end
