(* ===== verification/Update.thy ===== *)
theory Update
  imports Parse
begin

text \<open>
  The functions of \<^verbatim>\<open>merkle_tree/parse.c\<close> that bring the tree of a file up to date after a
  write: \<open>pages_in_need\<close> reads the changed pages from the file, \<open>quick_change\<close> takes one page from
  the buffer of the write, \<open>get_bigger_tree\<close> doubles a tree, \<open>root_calculation\<close> hashes its inner
  nodes.
\<close>


section \<open>The code\<close>

text \<open>The full pages before the last changed one.\<close>

fun copy_new_pages :: "char list \<Rightarrow> nat \<Rightarrow> nat \<Rightarrow> nat \<Rightarrow> (nat \<Rightarrow> c_ptr) \<Rightarrow> fault + (nat \<Rightarrow> c_ptr)" where
  "copy_new_pages file_string 0 src dst slots = Inr slots"
| "copy_new_pages file_string (Suc k) src dst slots =
     bind_c (copy_page file_string (src * PAGE_LENGTH)) (\<lambda>s.
     copy_new_pages file_string k (src + 1) (dst + 1) (slots(dst * PAGE_LENGTH := Str s)))"

text \<open>
  \<open>strlcpy(*new_datas, file_string, PAGE_LENGTH)\<close> on the last changed page: at most
  \<open>PAGE_LENGTH - 1\<close> characters, and the source is read up to its terminator.
\<close>

definition copy_last_page :: "char list \<Rightarrow> nat \<Rightarrow> fault + string" where
  "copy_last_page file_string p =
     bind_c (c_string (drop p file_string)) (\<lambda>s. Inr (take (PAGE_LENGTH - 1) s))"

text \<open>
  After the loop that allocates the pages the pointer to the array is moved back by \<open>number * PAGE_LENGTH\<close>, a product of
  \<open>int\<close>s.
\<close>

definition new_datas :: "char list \<Rightarrow> nat \<Rightarrow> nat \<Rightarrow> fault + (nat \<Rightarrow> c_ptr)" where
  "new_datas file_string first_page number =
     bind_c (int_result (number * PAGE_LENGTH)) (\<lambda>_.
     bind_c (copy_new_pages file_string (number - 1) first_page 0 (empty_slots number)) (\<lambda>slots.
     bind_c (copy_last_page file_string ((first_page + number - 1) * PAGE_LENGTH)) (\<lambda>s.
     Inr (slots((number - 1) * PAGE_LENGTH := Str s)))))"

text \<open>
  \<open>size\<close> and \<open>offset\<close> are ints that are not negative; their sum must be one. The number of pages
  is computed on ints: it is not positive for an empty write on a page boundary, and the code
  then writes into an array of no elements. The size of the buffer of the text is a product of \<open>int\<close>s too.
\<close>

definition pages_in_need ::
  "memory \<Rightarrow> string \<Rightarrow> nat \<Rightarrow> nat \<Rightarrow> merkle_tree \<Rightarrow> string option \<Rightarrow> c_ptr \<Rightarrow>
   fault + int \<times> merkle_tree \<times> c_ptr"
where
  "pages_in_need m slack wsize offset mt fp result =
     (case fp of
        None \<Rightarrow> Inr (-1, mt, result)
      | Some content \<Rightarrow>
          bind_c (int_file_size content) (\<lambda>file_size.
          if nb_nodes mt div 2 < file_size div PAGE_LENGTH then compute_merkle m slack fp mt result
          else
          bind_c (int_result (offset + wsize)) (\<lambda>_.
          let file_string = read_file slack content file_size;
              first_page = offset div PAGE_LENGTH;
              last_changed = int ((offset + wsize) div PAGE_LENGTH) - int (is_full (offset + wsize));
              number = last_changed - int first_page + 1
          in bind_c (leaf_start mt) (\<lambda>leaf_start_index.
          if number \<le> 0 then Inl Overrun else
          bind_c (new_datas file_string first_page (nat number)) (\<lambda>datas.
          bind_c (change_and_rebuild m mt
                    [leaf_start_index + first_page..<leaf_start_index + first_page + nat number]
                    datas FILE_MODE) (\<lambda>(r, mt).
          if r = -1 then Inr (-1, mt, result) else
          bind_c (int_result (HASH_SIZE * nb_nodes mt)) (\<lambda>cap.
          bind_c (tree_to_string mt cap) (\<lambda>s.
          bind_c (free_merkle mt) (\<lambda>_.
          Inr (0, mt, Str s))))))))))"

text \<open>
  Doubling a tree. The hash of a leaf goes into a buffer of 8 bytes per character, which has no
  room for the terminator when the hash is empty.
\<close>

fun copy_leaf_hashes :: "merkle_tree \<Rightarrow> nat \<Rightarrow> nat \<Rightarrow> nat \<Rightarrow> merkle_tree \<Rightarrow> fault + merkle_tree" where
  "copy_leaf_hashes old 0 s t new = Inr new"
| "copy_leaf_hashes old (Suc k) s t new =
     bind_c (deref (hash (nodes old s))) (\<lambda>h.
     if h = [] then Inl Overrun
     else copy_leaf_hashes old k (s + 1) (t + 1) (set_hash new t (Str h)))"

fun filler_leaves :: "memory \<Rightarrow> nat \<Rightarrow> nat \<Rightarrow> merkle_tree \<Rightarrow> fault + int \<times> merkle_tree" where
  "filler_leaves m 0 i new = Inr (0, new)"
| "filler_leaves m (Suc k) i new =
     bind_c (hash_node m (set_hash (set_data new i (Str '' '')) i Null) i) (\<lambda>(r, new).
     if r = -1 then Inr (-1, new) else filler_leaves m k (i + 1) new)"

text \<open>The number of leaves of the new tree is never written; nothing reads it.\<close>

definition get_bigger_tree :: "memory \<Rightarrow> merkle_tree \<Rightarrow> fault + int \<times> merkle_tree" where
  "get_bigger_tree m old_mt =
     bind_c (shl_one (int (1 + tree_height old_mt))) (\<lambda>n.
     bind_c (leaf_start old_mt) (\<lambda>old_start_index.
     bind_c (shl_one (int (tree_height old_mt))) (\<lambda>new_start_index.
     let new = \<lparr>nb_nodes = n, tree_height = 1 + tree_height old_mt, nb_of_leaves = 0,
                nodes = fresh_node m\<rparr>;
         olds = nb_nodes old_mt - old_start_index
     in bind_c (copy_leaf_hashes old_mt olds old_start_index new_start_index new) (\<lambda>new.
        bind_c (filler_leaves m (n - (new_start_index + olds)) (new_start_index + olds) new) (\<lambda>(r, new).
        if r = -1 then Inr (-1, new) else hash_down m (new_start_index - 1) new)))))"

text \<open>The value of \<open>get_bigger_tree\<close> is not looked at, and \<open>size\<close> is not used.\<close>

definition quick_change ::
  "memory \<Rightarrow> nat \<Rightarrow> nat \<Rightarrow> c_ptr \<Rightarrow> merkle_tree \<Rightarrow> c_ptr \<Rightarrow> fault + int \<times> merkle_tree \<times> c_ptr"
where
  "quick_change m wsize offset buf mt result =
     (if is_full offset = 1 then
        let page_to_change = offset div PAGE_LENGTH;
            datas = (\<lambda>p. if p = 0 then buf else Wild)
        in bind_c (leaf_start mt) (\<lambda>leaf_start_index.
        if nb_nodes mt div 2 < page_to_change + 1 then
          bind_c (get_bigger_tree m mt) (\<lambda>(_, new_mt).
          bind_c (leaf_start new_mt) (\<lambda>new_leaf_start_index.
          bind_c (change_and_rebuild m new_mt [new_leaf_start_index + page_to_change] datas BUFFER_MODE)
            (\<lambda>(r, new_mt).
          if r = -1 then Inr (-1, mt, result) else
          bind_c (tree_to_string new_mt (8 * HASH_SIZE * 2 * nb_nodes new_mt)) (\<lambda>s.
          bind_c (free_merkle mt) (\<lambda>_.
          bind_c (free_merkle new_mt) (\<lambda>_.
          Inr (0, mt, Str s)))))))
        else
          bind_c (change_and_rebuild m mt [leaf_start_index + page_to_change] datas BUFFER_MODE)
            (\<lambda>(r, mt).
          if r = -1 then Inr (-1, mt, result) else
          bind_c (tree_to_string mt (8 * HASH_SIZE * 2 * nb_nodes mt)) (\<lambda>s.
          bind_c (free_merkle mt) (\<lambda>_.
          Inr (0, mt, Str s)))))
      else Inr (-2, mt, result))"

definition root_calculation ::
  "memory \<Rightarrow> merkle_tree \<Rightarrow> c_ptr \<Rightarrow> fault + int \<times> merkle_tree \<times> c_ptr"
where
  "root_calculation m mt result =
     bind_c (leaf_start mt) (\<lambda>leaf_start_index.
     bind_c (hash_down m (leaf_start_index - 1) mt) (\<lambda>(r, mt).
     if r = -1 then Inr (-1, mt, result) else
     bind_c (tree_to_string mt (8 * HASH_SIZE * 2 * leaf_start_index)) (\<lambda>s.
     bind_c (free_merkle mt) (\<lambda>_.
     Inr (0, mt, Str s)))))"


section \<open>Hashing the inner nodes above leaves that are hashed\<close>

definition hashed_above :: "merkle_tree \<Rightarrow> nat \<Rightarrow> bool" where
  "hashed_above T i \<longleftrightarrow> shaped T \<and> (\<forall>j\<in>{i<..<nb_nodes T}. has_hash T j) \<and>
     (\<forall>j\<in>{i<..<first_leaf T}. consistent_at T j)"

lemma hashed_above_0: "hashed_above T 0 \<longleftrightarrow> merkle_inv T"
  by (auto simp: hashed_above_def merkle_inv_def all_hashed_def)

lemma has_hash_set_hash:
  "has_hash (set_hash T i (Str s)) j \<longleftrightarrow> (if j = i then is_hash s else has_hash T j)"
  by (simp add: has_hash_def)

lemma hash_down_hashed:
  assumes "clean m" and "i < first_leaf T" and "hashed_above T i"
  shows "\<exists>T'. hash_down m i T = Inr (0, T') \<and> merkle_inv T' \<and> same_leaves UNIV T T'"
  using assms(2,3)
proof (induction i arbitrary: T)
  case 0
  then show ?case by (simp add: hashed_above_0)
next
  case (Suc i)
  let ?i = "Suc i"
  have s: "shaped T" using Suc.prems(2) by (simp add: hashed_above_def)
  have nb: "nb_nodes T = 2 * first_leaf T" using s by (rule shaped_nb)
  have c: "has_hash T (2 * ?i)" "has_hash T (2 * ?i + 1)"
    using Suc.prems nb by (simp_all add: hashed_above_def)
  let ?s = "inner_hash (hash_at T (2 * ?i)) (hash_at T (2 * ?i + 1))"
  let ?T = "set_hash T ?i (Str ?s)"
  have "hash_node m (set_hash T ?i Null) ?i = Inr (0, set_hash (set_hash T ?i Null) ?i (Str ?s))"
    using Suc.prems(1) nb c shaped_leaf_start [OF s] assms(1)
    by (intro hash_node_inner) (simp_all add: has_hash_def)
  then have h: "hash_node m (set_hash T ?i Null) ?i = Inr (0, ?T)" by simp
  have "hashed_above ?T i"
    unfolding hashed_above_def
  proof (intro conjI ballI)
    show "shaped ?T" using s by simp
    show "has_hash ?T j" if "j \<in> {i<..<nb_nodes ?T}" for j
    proof (cases "j = ?i")
      case False
      then have "j \<in> {?i<..<nb_nodes T}" using that by simp
      then show ?thesis using False Suc.prems(2) unfolding has_hash_set_hash by (simp add: hashed_above_def)
    qed (simp add: has_hash_set_hash)
    show "consistent_at ?T j" if "j \<in> {i<..<first_leaf ?T}" for j
    proof (cases "j = ?i")
      case True
      then show ?thesis by (simp add: consistent_at_def)
    next
      case False
      then have "consistent_at T j" using that Suc.prems(2) by (simp add: hashed_above_def)
      then show ?thesis using False that by (simp add: consistent_at_def)
    qed
  qed
  then obtain T' where "hash_down m i ?T = Inr (0, T')" "merkle_inv T'" "same_leaves UNIV ?T T'"
    using Suc.IH [of ?T] Suc.prems(1) by auto
  then show ?case
    using h same_leaves_trans [OF same_leaves_set_hash [of ?i T UNIV]] Suc.prems(1) by auto
qed

lemma rehash_from_leaves:
  assumes "clean m" and "shaped T" and "\<And>j. first_leaf T \<le> j \<Longrightarrow> j < nb_nodes T \<Longrightarrow> has_hash T j"
  shows "\<exists>T'. hash_down m (first_leaf T - 1) T = Inr (0, T') \<and> merkle_inv T' \<and> same_leaves UNIV T T'"
proof (rule hash_down_hashed [OF assms(1)])
  show "first_leaf T - 1 < first_leaf T" using first_leaf_pos [of T] by linarith
  show "hashed_above T (first_leaf T - 1)" using assms(2,3) by (auto simp: hashed_above_def)
qed


section \<open>The hashes of the leaves\<close>

definition leaf_hashes :: "merkle_tree \<Rightarrow> string list" where
  "leaf_hashes T = map (hash_at T) [first_leaf T..<nb_nodes T]"

lemma length_leaf_hashes: "shaped T \<Longrightarrow> length (leaf_hashes T) = first_leaf T"
  using shaped_nb [of T] by (simp add: leaf_hashes_def)

lemma leaf_hashes_nth: "shaped T \<Longrightarrow> j < first_leaf T \<Longrightarrow> leaf_hashes T ! j = hash_at T (first_leaf T + j)"
  using shaped_nb [of T] by (simp add: leaf_hashes_def)

lemma same_leaves_hashes: "same_leaves UNIV S T \<Longrightarrow> leaf_hashes T = leaf_hashes S"
  using same_leaves_simps [of UNIV S T] same_leaves_hash_at [of UNIV S T]
  by (auto simp: leaf_hashes_def)

text \<open>The root is the recursive specification over the leaf hashes.\<close>

lemma root_of_leaves:
  assumes "merkle_inv T"
  shows "hash_at T 1 = root_hash (leaf_hashes T)"
proof -
  let ?p = "tree_height T - 1"
  have s: "shaped T" using assms inv_lessons by blast
  have nb: "nb_nodes T = 2 * 2 ^ ?p" and f: "first_leaf T = 2 ^ ?p"
    using shaped_nb [OF s] by (simp_all add: first_leaf_def)
  have "1 < nb_nodes T" unfolding nb using one_le_power [of "2::nat" ?p] by linarith
  then have "hash_at T 1 = node_hash (2 ^ ?p) (hash_at T) 1"
    using merkle_inv_node_hash [OF assms, of 1] unfolding f by simp
  also have "\<dots> = root_hash (map (hash_at T) [1 * 2 ^ ?p..<(1 + 1) * 2 ^ ?p])"
    by (rule node_hash_subtree) simp_all
  also have "\<dots> = root_hash (leaf_hashes T)" unfolding leaf_hashes_def nb f by (simp add: mult_2)
  finally show ?thesis .
qed


section \<open>Doubling a tree\<close>

lemma copy_leaf_hashes_eq:
  assumes "\<forall>j<k. has_hash old (s + j)"
  shows "\<exists>T. copy_leaf_hashes old k s t new = Inr T \<and> nb_nodes T = nb_nodes new \<and>
    tree_height T = tree_height new \<and> (\<forall>i. data (nodes T i) = data (nodes new i)) \<and>
    (\<forall>j<k. hash (nodes T (t + j)) = Str (hash_at old (s + j))) \<and>
    (\<forall>i. i \<notin> {t..<t + k} \<longrightarrow> nodes T i = nodes new i)"
  using assms
proof (induction k arbitrary: s t new)
  case 0
  then show ?case by simp
next
  case (Suc k)
  have h: "hash (nodes old s) = Str (hash_at old s)" "hash_at old s \<noteq> []"
    using Suc.prems by (auto simp: has_hash_def is_hash_def)
  let ?new = "set_hash new t (Str (hash_at old s))"
  have "\<forall>j<k. has_hash old (s + 1 + j)" using Suc.prems by auto
  from Suc.IH [OF this, of "t + 1" ?new] obtain T where
    T: "copy_leaf_hashes old k (s + 1) (t + 1) ?new = Inr T" "nb_nodes T = nb_nodes ?new"
    "tree_height T = tree_height ?new" "\<forall>i. data (nodes T i) = data (nodes ?new i)"
    "\<forall>j<k. hash (nodes T (t + 1 + j)) = Str (hash_at old (s + 1 + j))"
    "\<forall>i. i \<notin> {t + 1..<t + 1 + k} \<longrightarrow> nodes T i = nodes ?new i" by blast
  have "hash (nodes T (t + j)) = Str (hash_at old (s + j))" if "j < Suc k" for j
  proof (cases j)
    case 0
    have "nodes T t = nodes ?new t" using T(6) by simp
    then show ?thesis using 0 by simp
  next
    case (Suc j')
    then show ?thesis using T(5) that by (metis Suc_less_SucD add.commute add_Suc_shift plus_1_eq_Suc)
  qed
  moreover have "nodes T i = nodes new i" if "i \<notin> {t..<t + Suc k}" for i
  proof -
    have "i \<notin> {t + 1..<t + 1 + k}" "i \<noteq> t" using that by auto
    then show ?thesis using T(6) by (simp add: set_hash_def)
  qed
  ultimately show ?case using h T(1-4) by (intro exI [of _ T]) simp
qed

lemma filler_leaves_eq:
  assumes "shaped new" and "first_leaf new \<le> i" and "i + k \<le> nb_nodes new"
  shows "\<exists>T. filler_leaves m k i new = Inr (0, T) \<and> nb_nodes T = nb_nodes new \<and>
    tree_height T = tree_height new \<and>
    (\<forall>j\<in>{i..<i + k}. hash (nodes T j) = Str space_hash \<and> data (nodes T j) = Str '' '') \<and>
    (\<forall>j. j \<notin> {i..<i + k} \<longrightarrow> nodes T j = nodes new j)"
  using assms
proof (induction k arbitrary: i new)
  case 0
  then show ?case by simp
next
  case (Suc k)
  let ?d = "set_data new i (Str '' '')"
  let ?new = "set_hash ?d i (Str space_hash)"
  have "hash_node m (set_hash ?d i Null) i = Inr (0, set_hash ?d i (Str (digest_string '' '')))"
    using Suc.prems by (intro rehash_leaf) simp_all
  then have h: "hash_node m (set_hash ?d i Null) i = Inr (0, ?new)" by (simp add: space_hash_eq)
  obtain T where T: "filler_leaves m k (i + 1) ?new = Inr (0, T)" "nb_nodes T = nb_nodes ?new"
    "tree_height T = tree_height ?new"
    "\<forall>j\<in>{i + 1..<i + 1 + k}. hash (nodes T j) = Str space_hash \<and> data (nodes T j) = Str '' ''"
    "\<forall>j. j \<notin> {i + 1..<i + 1 + k} \<longrightarrow> nodes T j = nodes ?new j"
    using Suc.IH [of ?new "i + 1"] Suc.prems by auto
  have "nodes T i = nodes ?new i" using T(5) by simp
  then have "hash (nodes T j) = Str space_hash \<and> data (nodes T j) = Str '' ''" if "j \<in> {i..<i + Suc k}" for j
    using T(4) that by (cases "j = i") auto
  moreover have "nodes T j = nodes new j" if "j \<notin> {i..<i + Suc k}" for j
  proof -
    have "j \<notin> {i + 1..<i + 1 + k}" "j \<noteq> i" using that by auto
    then show ?thesis using T(5) by (simp add: set_hash_def set_data_def)
  qed
  ultimately show ?case using h T(1-3) by (intro exI [of _ T]) simp
qed


section \<open>The text of a list of leaf hashes\<close>

text \<open>
  The abstract state behind the string of a tree is the list of its leaf hashes; the string is a
  function of it.
\<close>

definition text_of :: "string list \<Rightarrow> string" where
  "text_of hs = join CHR '','' (map (\<lambda>i. decimal i @ CHR '':'' #
     node_hash (length hs) (\<lambda>j. hs ! (j - length hs)) i) [1..<2 * length hs])"

lemma tree_text_leaves:
  assumes "merkle_inv T"
  shows "tree_text T = text_of (leaf_hashes T)"
proof -
  have sh: "shaped T" using assms inv_lessons by blast
  have nb: "nb_nodes T = 2 * first_leaf T" using sh by (rule shaped_nb)
  have "hash_at T i = node_hash (first_leaf T) (\<lambda>j. leaf_hashes T ! (j - first_leaf T)) i"
    if "1 \<le> i" "i < nb_nodes T" for i
  proof -
    have "hash_at T i = node_hash (first_leaf T) (hash_at T) i"
      using that by (intro merkle_inv_node_hash [OF assms]) simp_all
    also have "\<dots> = node_hash (first_leaf T) (\<lambda>j. leaf_hashes T ! (j - first_leaf T)) i"
      using that nb by (intro node_hash_cong) (simp_all add: leaf_hashes_nth sh)
    finally show ?thesis .
  qed
  then show ?thesis
    unfolding tree_text_def text_of_def length_leaf_hashes [OF sh] nb [symmetric] entry_def
    by (intro arg_cong [of _ _ "join CHR '',''"] map_cong) simp_all
qed

definition tree_of :: "string list \<Rightarrow> merkle_tree" where
  "tree_of hs = \<lparr>nb_nodes = 2 * length hs, tree_height = floor_log2 (length hs) + 1, nb_of_leaves = 0,
     nodes = (\<lambda>i. \<lparr>data = Null, hash = Str (node_hash (length hs) (\<lambda>j. hs ! (j - length hs)) i)\<rparr>)\<rparr>"

lemma tree_of_inv:
  assumes "\<forall>h\<in>set hs. is_hash h" and "length hs = 2 ^ k" and "k < 23"
  shows "merkle_inv (tree_of hs)" and "tree_height (tree_of hs) < 24" and "leaf_hashes (tree_of hs) = hs"
proof -
  let ?T = "tree_of hs" and ?L = "\<lambda>j. hs ! (j - length hs)"
  have h: "tree_height ?T = k + 1" using assms(2) by (simp add: tree_of_def)
  then have f: "first_leaf ?T = length hs" using assms(2) by (simp add: first_leaf_def)
  have at: "hash_at ?T i = node_hash (length hs) ?L i" for i by (simp add: tree_of_def hash_at_def)
  have nb: "nb_nodes ?T = 2 * length hs" by (simp add: tree_of_def)
  have ish: "is_hash (node_hash (length hs) ?L i)" if "0 < i" "i < 2 * length hs" for i
  proof (cases "i < length hs")
    case True
    then show ?thesis using that by (simp add: node_hash_inner inner_hash_def)
  next
    case False
    then show ?thesis using that assms(1) by simp
  qed
  have "has_hash ?T i" if "i \<in> {1..<nb_nodes ?T}" for i
    using that ish [of i] unfolding has_hash_def at nb by (simp add: tree_of_def)
  moreover have "consistent_at ?T i" if "i \<in> {1..<first_leaf ?T}" for i
    using that unfolding consistent_at_def at f by (simp add: node_hash_inner)
  moreover have "shaped ?T" using h assms(2,3) nb by (simp add: shaped_def valid_height_def)
  ultimately show "merkle_inv ?T" by (simp add: merkle_inv_def all_hashed_def)
  show "tree_height ?T < 24" using h assms(3) by simp
  show "leaf_hashes ?T = hs"
    unfolding leaf_hashes_def f nb by (intro nth_equalityI) (simp_all add: at)
qed

lemma reread_leaf_hashes:
  assumes "shaped T"
  shows "leaf_hashes (reread m mt T) = leaf_hashes T"
  using first_leaf_pos [of T] by (auto simp: leaf_hashes_def simp del: first_leaf_pos intro!: reread_hash)

text \<open>What \<open>string_to_tree\<close> makes of the text.\<close>

lemma read_text_of:
  assumes "\<forall>h\<in>set hs. is_hash h" and "length hs = 2 ^ k" and "k < 23"
  obtains R where "string_to_tree m mt (text_of hs) = Inr R" and "merkle_inv R" and "tree_height R = k + 1"
    and "leaf_hashes R = hs" and "\<And>i. data (nodes R i) = data (fresh_node m i)"
proof
  note T = tree_of_inv [OF assms]
  have p: "printable_tree (tree_of hs)" using T inv_lessons by (simp add: printable_tree_def)
  show "string_to_tree m mt (text_of hs) = Inr (reread m mt (tree_of hs))"
    using string_to_tree_text [OF p] tree_text_leaves [OF T(1)] T(3) by simp
  show "leaf_hashes (reread m mt (tree_of hs)) = hs"
    using reread_leaf_hashes T inv_lessons by metis
  show "tree_height (reread m mt (tree_of hs)) = k + 1" using assms(2) by (simp add: tree_of_def)
qed (simp_all add: reread_inv tree_of_inv [OF assms] reread_hash)

text \<open>So the string is a text form of the list of leaf hashes.\<close>

definition leaf_list :: "string list \<Rightarrow> bool" where
  "leaf_list hs \<longleftrightarrow> (\<forall>h\<in>set hs. is_hash h) \<and> (\<exists>k<23. length hs = 2 ^ k)"

interpretation leaf_text: codec text_of
    "\<lambda>s. bind_c (string_to_tree m mt s) (\<lambda>R. Inr (leaf_hashes R))" leaf_list for m mt
proof
  fix hs assume "leaf_list hs"
  then obtain k where "\<forall>h\<in>set hs. is_hash h" "length hs = 2 ^ k" "k < 23" by (auto simp: leaf_list_def)
  then show "bind_c (string_to_tree m mt (text_of hs)) (\<lambda>R. Inr (leaf_hashes R)) = Inr hs"
    by (rule read_text_of [of hs k m mt]) simp
qed

lemma leaf_hashes_hash: "all_hashed T \<Longrightarrow> \<forall>h\<in>set (leaf_hashes T). is_hash h"
  using first_leaf_pos [of T] by (auto simp: leaf_hashes_def simp del: first_leaf_pos intro: all_hashedD(2))

lemma file_tree_leaf_hashes:
  assumes "good_file slack content"
  shows "leaf_hashes (file_tree m mt content) = map digest_string (padded_pages content)"
proof -
  let ?T = "file_tree m mt content" and ?n = "length (padded_pages content)"
  note full = file_tree_full [OF assms, of m mt]
  have n: "first_leaf ?T = ?n" "nb_nodes ?T = 2 * ?n" "0 < ?n"
    using file_page_count(1) [OF assms] unfolding file_tree_def by (simp_all add: page_count_def built_first_leaf)
  have "hash_at ?T (?n + j) = digest_string (padded_pages content ! j)" if "j < ?n" for j
  proof -
    have "hash_at ?T (?n + j) = digest_string (node_input ?T (?n + j))"
      using n that by (intro full_inv_input [OF full]) simp_all
    also have "node_input ?T (?n + j) = padded_pages content ! j"
      using n that by (simp add: node_input_def) (simp add: file_tree_def built_data_at)
    finally show ?thesis .
  qed
  then show ?thesis using n by (intro nth_equalityI) (simp_all add: leaf_hashes_def)
qed

lemma compute_merkle_text:
  assumes "clean m" and "good_file slack content" and "length content \<le> 2 ^ 30"
  shows "compute_merkle m slack (Some content) mt result =
    Inr (0, file_tree m mt content, Str (text_of (map digest_string (padded_pages content))))"
  unfolding compute_merkle_good [OF assms] tree_text_leaves [OF full_inv_merkle [OF file_tree_full [OF assms(2)]]]
    file_tree_leaf_hashes [OF assms(2)] ..

text \<open>Freeing a tree needs page pointers that were written.\<close>

definition freeable :: "merkle_tree \<Rightarrow> bool" where
  "freeable T \<longleftrightarrow> (\<forall>j\<in>{first_leaf T<..<nb_nodes T}. data (nodes T j) \<noteq> Wild)"

lemma free_merkle_freeable:
  assumes "all_hashed T" and "freeable T"
  shows "\<exists>x. free_merkle T = Inr x"
proof -
  have nb: "nb_nodes T = 2 * first_leaf T" using assms(1) all_hashed_shaped shaped_nb by blast
  have "1 + (nb_nodes T - 1) = nb_nodes T" using nb first_leaf_pos [of T] by linarith
  then have "\<forall>j\<in>{1..<1 + (nb_nodes T - 1)}. (\<exists>s. hash (nodes T j) = Str s) \<and>
      (nb_nodes T div 2 < j \<longrightarrow> data (nodes T j) \<noteq> Wild)"
    using assms nb by (auto simp: freeable_def Suc_le_eq dest: all_hashedD(1))
  from free_nodes_spec [OF this] show ?thesis unfolding free_merkle_def by blast
qed

lemma same_leaves_freeable: "same_leaves A S T \<Longrightarrow> freeable T = freeable S"
  by (simp add: freeable_def same_leaves_simps)

lemma store_tree:
  assumes "merkle_inv T" and "tree_height T < 24" and "freeable T" and "75 * nb_nodes T \<le> cap"
  shows "tree_to_string T cap = Inr (text_of (leaf_hashes T))" and "\<exists>x. free_merkle T = Inr x"
proof -
  have a: "all_hashed T" using assms(1) inv_lessons by blast
  show "tree_to_string T cap = Inr (text_of (leaf_hashes T))"
    unfolding tree_text_leaves [OF assms(1), symmetric]
    using a assms(2,4) by (intro tree_to_string_text) (simp_all add: printable_tree_def)
  show "\<exists>x. free_merkle T = Inr x" using free_merkle_freeable [OF a assms(3)] .
qed



section \<open>One page in place\<close>

lemma change_leaf:
  assumes "clean m" and "merkle_inv mt" and "p < first_leaf mt" and "datas 0 = Str s" and "fits_leaf s"
  shows "\<exists>T. change_and_rebuild m mt [first_leaf mt + p] datas BUFFER_MODE = Inr (0, T) \<and> merkle_inv T \<and>
    nb_nodes T = nb_nodes mt \<and> tree_height T = tree_height mt \<and>
    leaf_hashes T = (leaf_hashes mt)[p := digest_string s] \<and> (freeable mt \<longrightarrow> freeable T)"
proof -
  let ?n = "first_leaf mt"
  have sh: "shaped mt" using assms(2) inv_lessons by blast
  have "?n + p < nb_nodes mt" using shaped_nb [OF sh] assms(3) by simp
  then obtain T where T: "change_and_rebuild m mt [?n + p] datas BUFFER_MODE = Inr (0, T)" "merkle_inv T"
    "same_leaves (- {?n + p}) (set_data mt (?n + p) (Str s)) T" "hash_at T (?n + p) = digest_string s"
    using buffer_mode [OF assms(1,2), of "?n + p" datas s] assms(4,5) by auto
  note q = same_leaves_simps [OF T(3)]
  have shT: "shaped T" using T(2) inv_lessons by blast
  have "freeable (set_data mt (?n + p) (Str s))" if "freeable mt" using that by (simp add: freeable_def)
  then have fr: "freeable mt \<longrightarrow> freeable T" using same_leaves_freeable [OF T(3)] by blast
  have "leaf_hashes T = (leaf_hashes mt)[p := digest_string s]"
  proof (rule nth_equalityI)
    show "length (leaf_hashes T) = length ((leaf_hashes mt)[p := digest_string s])"
      using q(3) by (simp add: length_leaf_hashes sh shT)
    fix j assume "j < length (leaf_hashes T)"
    then have j: "j < ?n" using q(3) by (simp add: length_leaf_hashes shT)
    then show "leaf_hashes T ! j = (leaf_hashes mt)[p := digest_string s] ! j"
      using same_leaves_hash_at [OF T(3), of "?n + j"] T(4) q(3)
      by (cases "j = p") (simp_all add: leaf_hashes_nth length_leaf_hashes sh shT)
  qed
  then show ?thesis using T(1,2) q(1,2) fr by auto
qed

lemma quick_change_place:
  assumes "clean m" and "merkle_inv mt" and "tree_height mt < 24" and "freeable mt"
    and "p < first_leaf mt" and "fits_leaf s"
  shows "\<exists>T. quick_change m wsize (p * PAGE_LENGTH) (Str s) mt result =
    Inr (0, T, Str (text_of ((leaf_hashes mt)[p := digest_string s])))"
proof -
  let ?datas = "\<lambda>q::nat. if q = 0 then Str s else Wild"
  have sh: "shaped mt" using assms(2) inv_lessons by blast
  obtain T where T: "change_and_rebuild m mt [first_leaf mt + p] ?datas BUFFER_MODE = Inr (0, T)"
    "merkle_inv T" "tree_height T < 24" "leaf_hashes T = (leaf_hashes mt)[p := digest_string s]" "freeable T"
    using change_leaf [OF assms(1,2,5), of ?datas s] assms(3,4,6) by auto
  have "75 * nb_nodes T \<le> 8 * HASH_SIZE * 2 * nb_nodes T" by (simp add: size_defs)
  note st = store_tree [OF T(2,3,5) this]
  then show ?thesis
    using shaped_nb [OF sh] assms(5) T(1,4) by (auto simp: quick_change_def is_full_def shaped_leaf_start [OF sh])
qed


section \<open>One page behind the tree\<close>

lemma get_bigger_tree_doubles:
  assumes "clean m" and "all_hashed old" and "tree_height old < 30"
  shows "\<exists>T. get_bigger_tree m old = Inr (0, T) \<and> merkle_inv T \<and> tree_height T = 1 + tree_height old \<and>
    leaf_hashes T = leaf_hashes old @ replicate (first_leaf old) space_hash \<and>
    (\<forall>i. data (nodes T i) =
      (if 3 * first_leaf old \<le> i \<and> i < 4 * first_leaf old then Str '' '' else data (fresh_node m i)))"
proof -
  let ?n = "first_leaf old" and ?h = "1 + tree_height old"
  have sh: "shaped old" using assms(2) inv_lessons by blast
  have v: "1 \<le> tree_height old" using sh by (simp add: shaped_def valid_height_def)
  have nb: "nb_nodes old = 2 * ?n" using sh by (rule shaped_nb)
  have h: "2 ^ tree_height old = 2 * ?n" using nb sh by (simp add: shaped_def)
  let ?new = "\<lparr>nb_nodes = 2 * (2 * ?n), tree_height = ?h, nb_of_leaves = 0, nodes = fresh_node m\<rparr>"
  have s1: "shl_one (int ?h) = Inr (2 * (2 * ?n))"
    using assms(3) h by (simp add: shl_one_def nat_add_distrib)
  have s2: "shl_one (int (tree_height old)) = Inr (2 * ?n)"
    using assms(3) h by (simp add: shl_one_def)
  have fl: "first_leaf ?new = 2 * ?n" using h by (simp add: first_leaf_def)
  have "\<forall>j<?n. has_hash old (?n + j)" using assms(2) nb first_leaf_pos [of old] by (auto simp: all_hashed_def)
  from copy_leaf_hashes_eq [OF this, of "2 * ?n" ?new] obtain A where
    A: "copy_leaf_hashes old ?n ?n (2 * ?n) ?new = Inr A" "nb_nodes A = nb_nodes ?new"
    "tree_height A = ?h" "\<forall>i. data (nodes A i) = data (fresh_node m i)"
    "\<forall>j<?n. hash (nodes A (2 * ?n + j)) = Str (hash_at old (?n + j))" by auto
  have shA: "shaped A"
    using A(2,3) h v assms(3) by (simp add: shaped_def valid_height_def)
  have fA: "first_leaf A = 2 * ?n" using A(3) h by (simp add: first_leaf_def)
  have nbA: "nb_nodes A = 4 * ?n" using A(2) by simp
  obtain B where B: "filler_leaves m ?n (3 * ?n) A = Inr (0, B)" "nb_nodes B = nb_nodes A"
    "tree_height B = tree_height A"
    "\<forall>j\<in>{3 * ?n..<3 * ?n + ?n}. hash (nodes B j) = Str space_hash \<and> data (nodes B j) = Str '' ''"
    "\<forall>j. j \<notin> {3 * ?n..<3 * ?n + ?n} \<longrightarrow> nodes B j = nodes A j"
    using filler_leaves_eq [OF shA, of "3 * ?n" ?n m] fA nbA by auto
  have shB: "shaped B" using shA B(2,3) by (simp add: shaped_def)
  have fB: "first_leaf B = 2 * ?n" using B(3) fA by (simp add: first_leaf_def)
  have nbB: "nb_nodes B = 4 * ?n" using B(2) nbA by simp
  have low: "hash (nodes B (2 * ?n + j)) = Str (hash_at old (?n + j))" if "j < ?n" for j
    using A(5) B(5) that by auto
  have high: "hash (nodes B (2 * ?n + (?n + j))) = Str space_hash" if "j < ?n" for j
    using B(4) that by auto
  have hB: "has_hash B j" if "first_leaf B \<le> j" "j < nb_nodes B" for j
  proof (cases "j < 3 * ?n")
    case True
    have "2 * ?n \<le> j" using that(1) fB by simp
    then obtain k where k: "j = 2 * ?n + k" using le_Suc_ex by blast
    with True have "k < ?n" by simp
    note k = this k
    then have "has_hash old (?n + k)" using assms(2) nb first_leaf_pos [of old] by (auto simp: all_hashed_def)
    then show ?thesis using low [OF k(1)] k(2) by (simp add: has_hash_def hash_at_def)
  next
    case False
    then have "hash (nodes B j) = Str space_hash" using that nbB B(4) by auto
    then show ?thesis by (simp add: has_hash_def hash_at_def flip: space_hash_eq)
  qed
  obtain T where T: "hash_down m (first_leaf B - 1) B = Inr (0, T)" "merkle_inv T" "same_leaves UNIV B T"
    using rehash_from_leaves [OF assms(1) shB hB] by blast
  have "leaf_hashes B = leaf_hashes old @ replicate ?n space_hash"
  proof (rule nth_equalityI)
    show "length (leaf_hashes B) = length (leaf_hashes old @ replicate ?n space_hash)"
      by (simp add: length_leaf_hashes sh shB fB)
    fix j assume "j < length (leaf_hashes B)"
    then have j: "j < 2 * ?n" by (simp add: length_leaf_hashes shB fB)
    have b: "leaf_hashes B ! j = hash_at B (2 * ?n + j)" using j fB by (simp add: leaf_hashes_nth shB)
    show "leaf_hashes B ! j = (leaf_hashes old @ replicate ?n space_hash) ! j"
    proof (cases "j < ?n")
      case True
      then show ?thesis
        unfolding b using low [OF True] by (simp add: nth_append length_leaf_hashes leaf_hashes_nth sh hash_at_def)
    next
      case False
      then have "hash (nodes B (2 * ?n + j)) = Str space_hash" using high [of "j - ?n"] j by simp
      then show ?thesis
        unfolding b using False j by (simp add: nth_append length_leaf_hashes sh hash_at_def)
    qed
  qed
  then have leaves: "leaf_hashes T = leaf_hashes old @ replicate ?n space_hash"
    using same_leaves_hashes [OF T(3)] by simp
  have "get_bigger_tree m old = Inr (0, T)"
  proof -
    have "nb_nodes old - ?n = ?n" "2 * (2 * ?n) - (2 * ?n + ?n) = ?n" "2 * ?n + ?n = 3 * ?n" using nb by simp_all
    then show ?thesis
      unfolding get_bigger_tree_def s1 s2 shaped_leaf_start [OF sh] Let_def bind_c.simps
      using A(1) B(1) T(1) fB by simp
  qed
  moreover have "data (nodes T i) =
      (if 3 * ?n \<le> i \<and> i < 4 * ?n then Str '' '' else data (fresh_node m i))" for i
    using same_leaves_simps(4) [OF T(3), of i] B(4,5) A(4) by auto
  moreover have "tree_height T = ?h" using same_leaves_simps(2) [OF T(3)] B(3) A(3) by simp
  ultimately show ?thesis using T(2) leaves by blast
qed

text \<open>The bigger tree is freed although nothing wrote the page pointers of the copied leaves.\<close>

definition pages_written :: "memory \<Rightarrow> bool" where
  "pages_written m \<longleftrightarrow> (\<forall>i. data (fresh_node m i) \<noteq> Wild)"

lemma quick_change_grow:
  assumes "clean m" and "pages_written m" and "merkle_inv mt" and "tree_height mt < 23" and "freeable mt"
    and "first_leaf mt \<le> p" and "p < 2 * first_leaf mt" and "fits_leaf s"
  shows "quick_change m wsize (p * PAGE_LENGTH) (Str s) mt result = Inr (0, mt, Str (text_of
    ((leaf_hashes mt @ replicate (first_leaf mt) space_hash)[p := digest_string s])))"
proof -
  let ?datas = "\<lambda>q::nat. if q = 0 then Str s else Wild"
  have a: "all_hashed mt" using assms(3) inv_lessons by blast
  then have sh: "shaped mt" by (rule all_hashed_shaped)
  have nb: "nb_nodes mt = 2 * first_leaf mt" using sh by (rule shaped_nb)
  obtain B where B: "get_bigger_tree m mt = Inr (0, B)" "merkle_inv B" "tree_height B = 1 + tree_height mt"
    "leaf_hashes B = leaf_hashes mt @ replicate (first_leaf mt) space_hash"
    "\<forall>i. data (nodes B i) = (if 3 * first_leaf mt \<le> i \<and> i < 4 * first_leaf mt then Str '' ''
      else data (fresh_node m i))"
    using get_bigger_tree_doubles [OF assms(1) a] assms(4) by auto
  have shB: "shaped B" using B(2) inv_lessons by blast
  have "2 * first_leaf mt = first_leaf B"
    using B(4) length_leaf_hashes [OF shB] length_leaf_hashes [OF sh] by simp
  then have p: "p < first_leaf B" using assms(7) by simp
  have "freeable B" using B(5) assms(2) by (simp add: freeable_def pages_written_def)
  then obtain T where T: "change_and_rebuild m B [first_leaf B + p] ?datas BUFFER_MODE = Inr (0, T)"
    "merkle_inv T" "tree_height T < 24" "leaf_hashes T = (leaf_hashes B)[p := digest_string s]" "freeable T"
    using change_leaf [OF assms(1) B(2) p, of ?datas s] B(3) assms(4,8) by auto
  have "75 * nb_nodes T \<le> 8 * HASH_SIZE * 2 * nb_nodes T" by (simp add: size_defs)
  note st = store_tree [OF T(2,3,5) this]
  obtain x where "free_merkle mt = Inr x" using free_merkle_freeable [OF a assms(5)] by blast
  then show ?thesis
    using st nb assms(6) T(1,4) B(1,4)
    by (auto simp: quick_change_def is_full_def shaped_leaf_start [OF sh] shaped_leaf_start [OF shB])
qed

lemma quick_change_behind:
  assumes "clean m" and "merkle_inv mt" and "tree_height mt < 30" and "2 * first_leaf mt \<le> p" and "fits_leaf s"
  shows "quick_change m wsize (p * PAGE_LENGTH) (Str s) mt result = Inr (-1, mt, result)"
proof -
  have a: "all_hashed mt" using assms(2) inv_lessons by blast
  then have sh: "shaped mt" by (rule all_hashed_shaped)
  have nb: "nb_nodes mt = 2 * first_leaf mt" using sh by (rule shaped_nb)
  obtain B where B: "get_bigger_tree m mt = Inr (0, B)" "merkle_inv B"
    "leaf_hashes B = leaf_hashes mt @ replicate (first_leaf mt) space_hash"
    using get_bigger_tree_doubles [OF assms(1) a assms(3)] by auto
  have shB: "shaped B" using B(2) inv_lessons by blast
  have "2 * first_leaf mt = first_leaf B"
    using B(3) length_leaf_hashes [OF shB] length_leaf_hashes [OF sh] by simp
  then have o: "nb_nodes B \<le> first_leaf B + p" "0 < first_leaf B + p"
    using assms(4) shaped_nb [OF shB] first_leaf_pos [of B] by linarith+
  let ?i = "first_leaf B + p" and ?D = "set_data B (first_leaf B + p) (Str s)"
  have "climb m ?i ?D = Inr (-1, set_hash ?D ?i Null)"
    using o by (simp add: climb.simps [of m ?i] hash_node_out_of_range)
  then have c: "change_and_rebuild m B [?i] (\<lambda>q. if q = 0 then Str s else Wild) BUFFER_MODE =
      Inr (-1, set_hash ?D ?i Null)"
    using assms(5) by (simp add: change_and_rebuild_def BUFFER_MODE_def FILE_MODE_def fits_leaf_def)
  have "nb_nodes mt div 2 < p + 1" using nb assms(4) by simp
  then show ?thesis
    using B(1) c by (simp add: quick_change_def is_full_def shaped_leaf_start [OF sh] shaped_leaf_start [OF shB])
qed



section \<open>Several pages from the file\<close>

abbreviation page_at :: "string \<Rightarrow> nat \<Rightarrow> string" where
  "page_at content i \<equiv> take PAGE_LENGTH (drop (i * PAGE_LENGTH) content)"

text \<open>What goes into the leaves: whole pages, and of the last page all but the last byte.\<close>

definition changed_pages :: "string \<Rightarrow> nat \<Rightarrow> nat \<Rightarrow> string list" where
  "changed_pages content f k =
     map (page_at content) [f..<f + (k - 1)] @ [take (PAGE_LENGTH - 1) (drop ((f + k - 1) * PAGE_LENGTH) content)]"

lemma length_changed_pages: "0 < k \<Longrightarrow> length (changed_pages content f k) = k"
  by (simp add: changed_pages_def)

lemma length_concat_changed: "0 < k \<Longrightarrow> length (concat (changed_pages content f k)) \<le> k * PAGE_LENGTH"
proof -
  assume k: "0 < k"
  have "\<forall>d\<in>set (changed_pages content f k). length d \<le> PAGE_LENGTH" by (auto simp: changed_pages_def)
  from length_concat_le [OF this] show ?thesis by (simp add: length_changed_pages [OF k] mult.commute)
qed

lemma copy_new_pages_eq:
  assumes "\<forall>j\<in>{src..<src + k}. copy_page file_string (j * PAGE_LENGTH) = Inr (pg j)"
  shows "copy_new_pages file_string k src dst slots = Inr (\<lambda>q.
    if q mod PAGE_LENGTH = 0 \<and> dst \<le> q div PAGE_LENGTH \<and> q div PAGE_LENGTH < dst + k
    then Str (pg (src + (q div PAGE_LENGTH - dst))) else slots q)"
  using assms
proof (induction k arbitrary: src dst slots)
  case (Suc k)
  have s: "copy_page file_string (src * PAGE_LENGTH) = Inr (pg src)" using Suc.prems by simp
  let ?sl = "slots(dst * PAGE_LENGTH := Str (pg src))"
  have at: "q = dst * PAGE_LENGTH \<longleftrightarrow> q mod PAGE_LENGTH = 0 \<and> q div PAGE_LENGTH = dst" for q
    using div_mult_mod_eq [of q PAGE_LENGTH] by auto
  have "copy_new_pages file_string (Suc k) src dst slots = copy_new_pages file_string k (src + 1) (dst + 1) ?sl"
    using s by simp
  also have "\<dots> = Inr (\<lambda>q. if q mod PAGE_LENGTH = 0 \<and> dst + 1 \<le> q div PAGE_LENGTH \<and>
      q div PAGE_LENGTH < dst + 1 + k then Str (pg (src + 1 + (q div PAGE_LENGTH - (dst + 1)))) else ?sl q)"
    using Suc.prems by (intro Suc.IH) auto
  also have "\<dots> = Inr (\<lambda>q. if q mod PAGE_LENGTH = 0 \<and> dst \<le> q div PAGE_LENGTH \<and>
      q div PAGE_LENGTH < dst + Suc k then Str (pg (src + (q div PAGE_LENGTH - dst))) else slots q)"
    by (auto simp: fun_eq_iff at Suc_diff_Suc)
  finally show ?case .
qed (auto simp: fun_eq_iff)

lemma c_string_behind:
  assumes "is_c_string content" and "slack \<noteq> []" and "hd slack = nul" and "p \<le> length content"
  shows "c_string (drop p (content @ slack)) = Inr (drop p content)"
proof -
  obtain r where "slack = nul # r" using assms(2,3) by (metis list.exhaust_sel)
  moreover have "is_c_string (drop p content)"
    using assms(1) by (auto simp: is_c_string_def dest: in_set_dropD)
  ultimately show ?thesis using assms(4) by simp
qed

lemma new_datas_chain:
  assumes "good_file slack content" and "0 < k" and "(f + k - 1) * PAGE_LENGTH \<le> length content"
    and "k * PAGE_LENGTH < 2 ^ 31"
  shows "\<exists>slots. new_datas (content @ slack) f k = Inr slots \<and> chain slots 0 (changed_pages content f k)"
proof -
  have c: "is_c_string content" "slack \<noteq> []" "hd slack = nul" using assms(1) by (auto simp: good_file_def)
  have full: "copy_page (content @ slack) (j * PAGE_LENGTH) = Inr (page_at content j)"
    "length (page_at content j) = PAGE_LENGTH" if "j < f + (k - 1)" for j
  proof -
    have "(j + 1) * PAGE_LENGTH \<le> (f + k - 1) * PAGE_LENGTH"
      using that assms(2) by (intro mult_right_mono) simp_all
    then have "(j + 1) * PAGE_LENGTH \<le> length content" using assms(3) by linarith
    from copy_page_full [OF c(1) this] show "copy_page (content @ slack) (j * PAGE_LENGTH) = Inr (page_at content j)"
      "length (page_at content j) = PAGE_LENGTH" by simp_all
  qed
  let ?l = "take (PAGE_LENGTH - 1) (drop ((f + k - 1) * PAGE_LENGTH) content)"
  let ?S = "\<lambda>q. if q mod PAGE_LENGTH = 0 \<and> 0 \<le> q div PAGE_LENGTH \<and> q div PAGE_LENGTH < 0 + (k - 1)
    then Str (page_at content (f + (q div PAGE_LENGTH - 0))) else empty_slots k q"
  let ?T = "?S((k - 1) * PAGE_LENGTH := Str ?l)"
  have "copy_new_pages (content @ slack) (k - 1) f 0 (empty_slots k) = Inr ?S"
    using full(1) by (intro copy_new_pages_eq) auto
  moreover have "copy_last_page (content @ slack) ((f + k - 1) * PAGE_LENGTH) = Inr ?l"
    unfolding copy_last_page_def c_string_behind [OF c assms(3)] by simp
  ultimately have "new_datas (content @ slack) f k = Inr ?T" using assms(4) by (simp add: new_datas_def)
  moreover have "chain ?T 0 (changed_pages content f k)"
  proof -
    have "chain ?T (0 * PAGE_LENGTH) (map (\<lambda>i. page_at content (f + i)) [0..<0 + (k - 1)])"
      using full(2) assms(2) by (intro chain_pages) auto
    moreover have "map (\<lambda>i. page_at content (f + i)) [0..<k - 1] = map (page_at content) [f..<f + (k - 1)]"
      by (intro nth_equalityI) simp_all
    moreover have "length (concat (map (page_at content) [f..<f + (k - 1)])) = PAGE_LENGTH * length [f..<f + (k - 1)]"
      using full(2) by (intro length_pages) simp
    ultimately show ?thesis unfolding changed_pages_def by (simp add: chain_append mult.commute)
  qed
  ultimately show ?thesis by blast
qed


text \<open>The number of the last changed page.\<close>

lemma last_changed:
  assumes "0 < n"
  shows "int (n div PAGE_LENGTH) - int (is_full n) = int ((n - 1) div PAGE_LENGTH)"
proof -
  have "(n + PAGE_LENGTH - 1) div PAGE_LENGTH = (n - 1 + PAGE_LENGTH) div PAGE_LENGTH" using assms by simp
  also have "\<dots> = (n - 1) div PAGE_LENGTH + 1" by (rule div_add_self2) simp
  finally have e: "n div PAGE_LENGTH + 1 - is_full n = (n - 1) div PAGE_LENGTH + 1"
    using page_number(1) [OF assms] by simp
  have "is_full n \<le> n div PAGE_LENGTH"
  proof (cases "n mod PAGE_LENGTH = 0")
    case True
    then have "0 < n div PAGE_LENGTH" using assms by (metis dvd_div_eq_0_iff mod_0_imp_dvd gr0I less_irrefl)
    then show ?thesis by (simp add: is_full_def)
  qed (simp add: is_full_def)
  then show ?thesis using e by simp
qed

lemma changed_leaf_hashes:
  assumes "shaped mt" and "shaped T" and "first_leaf T = first_leaf mt" and "f + length ds \<le> first_leaf mt"
    and "\<forall>j<length ds. hash_at T (first_leaf mt + f + j) = digest_string (ds ! j)"
    and "\<forall>j\<ge>first_leaf mt. j \<notin> {first_leaf mt + f..<first_leaf mt + f + length ds} \<longrightarrow> nodes T j = nodes mt j"
  shows "leaf_hashes T = take f (leaf_hashes mt) @ map digest_string ds @ drop (f + length ds) (leaf_hashes mt)"
proof (rule nth_equalityI)
  show "length (leaf_hashes T) =
    length (take f (leaf_hashes mt) @ map digest_string ds @ drop (f + length ds) (leaf_hashes mt))"
    using assms(3,4) by (simp add: length_leaf_hashes assms(1,2))
  fix j assume "j < length (leaf_hashes T)"
  then have j: "j < first_leaf mt" using assms(3) by (simp add: length_leaf_hashes assms(2))
  then have l: "leaf_hashes T ! j = hash_at T (first_leaf mt + j)"
    "leaf_hashes mt ! j = hash_at mt (first_leaf mt + j)"
    using assms(1-3) by (simp_all add: leaf_hashes_nth)
  consider "j < f" | "f \<le> j" "j < f + length ds" | "f + length ds \<le> j" by linarith
  then show "leaf_hashes T ! j =
    (take f (leaf_hashes mt) @ map digest_string ds @ drop (f + length ds) (leaf_hashes mt)) ! j"
  proof cases
    case 2
    then have "j - f < length ds" "first_leaf mt + f + (j - f) = first_leaf mt + j" by simp_all
    then have "hash_at T (first_leaf mt + j) = digest_string (ds ! (j - f))" "j - f < length ds"
      using assms(5) by metis+
    then show ?thesis using 2 j l(1) by (simp add: nth_append length_leaf_hashes assms(1))
  next
    case 3
    then have "\<not> j - f < length ds" "nodes T (first_leaf mt + j) = nodes mt (first_leaf mt + j)"
      using assms(6) by auto
    then show ?thesis using 3 j l assms(4) by (simp add: nth_append length_leaf_hashes assms(1) hash_at_def)
  qed (use j l assms(4,6) in \<open>simp_all add: nth_append length_leaf_hashes assms(1) hash_at_def\<close>)
qed


text \<open>The pages a write touches, and the function without its first tests.\<close>

lemma touched_pages:
  assumes "0 < wsize" and "offset + wsize \<le> length content" and f: "f = offset div PAGE_LENGTH"
    and k: "k = (offset + wsize - 1) div PAGE_LENGTH - f + 1"
  shows "0 < k" and "f + k - 1 = (offset + wsize - 1) div PAGE_LENGTH"
    and "(f + k - 1) * PAGE_LENGTH < length content" and "length (changed_pages content f k) = k"
proof -
  let ?l = "(offset + wsize - 1) div PAGE_LENGTH"
  have "f \<le> ?l" unfolding f using assms(1) by (intro div_le_mono) simp
  then show fk: "f + k - 1 = ?l" and "0 < k" unfolding k by simp_all
  then show "length (changed_pages content f k) = k" by (simp add: length_changed_pages)
  have "?l * PAGE_LENGTH \<le> offset + wsize - 1" by simp
  then show "(f + k - 1) * PAGE_LENGTH < length content" unfolding fk using assms(1,2) by linarith
qed

lemma pages_in_need_update:
  assumes "shaped mt" and "good_file slack content" and "0 < wsize" and "offset + wsize \<le> length content"
    and "length content div PAGE_LENGTH \<le> first_leaf mt"
    and f: "f = offset div PAGE_LENGTH" and k: "k = (offset + wsize - 1) div PAGE_LENGTH - f + 1"
  shows "pages_in_need m slack wsize offset mt (Some content) result =
    bind_c (new_datas (content @ slack) f k) (\<lambda>datas.
    bind_c (change_and_rebuild m mt [first_leaf mt + f..<first_leaf mt + f + k] datas FILE_MODE) (\<lambda>(r, mt).
    if r = -1 then Inr (-1, mt, result) else
    bind_c (int_result (HASH_SIZE * nb_nodes mt)) (\<lambda>cap.
    bind_c (tree_to_string mt cap) (\<lambda>s.
    bind_c (free_merkle mt) (\<lambda>_. Inr (0, mt, Str s))))))"
proof -
  let ?l = "(offset + wsize - 1) div PAGE_LENGTH"
  have len: "length content < 2 ^ 31" using assms(2) by (simp add: good_file_def)
  note p = touched_pages [OF assms(3,4) f k]
  have c1: "int_file_size content = Inr (length content)"
    using assms(2) by (simp add: good_file_def int_file_size_ok)
  have c2: "\<not> nb_nodes mt div 2 < length content div PAGE_LENGTH"
    using shaped_nb [OF assms(1)] assms(5) by simp
  have c3: "int_result (offset + wsize) = Inr (offset + wsize)"
    using le_less_trans [OF assms(4) len] by (rule int_result_small)
  have c4: "int ((offset + wsize) div PAGE_LENGTH) - int (is_full (offset + wsize)) = int ?l"
    using assms(3) by (intro last_changed) simp
  have c5: "int ?l - int f + 1 = int k" using p(1) unfolding p(2) [symmetric] by simp
  have c6: "read_file slack content (length content) = content @ slack" by (simp add: read_file_def)
  have c7: "\<not> int k \<le> 0" using p(1) by simp
  show ?thesis
    unfolding pages_in_need_def option.case c1 bind_c.simps if_not_P [OF c2] c3 Let_def
      f [symmetric] c4 c5 shaped_leaf_start [OF assms(1)] if_not_P [OF c7] c6 nat_int ..
qed

lemma pages_in_need_run:
  assumes "clean m" and "merkle_inv mt" and "tree_height mt < 23" and "freeable mt"
    and "good_file slack content" and "0 < wsize" and "offset + wsize \<le> length content"
    and "length content \<le> first_leaf mt * PAGE_LENGTH"
    and f: "f = offset div PAGE_LENGTH" and k: "k = (offset + wsize - 1) div PAGE_LENGTH - f + 1"
    and "first_leaf_ready mt (first_leaf mt + f) k"
    and hs: "hs = take f (leaf_hashes mt) @ map digest_string (changed_pages content f k) @ drop (f + k) (leaf_hashes mt)"
    and "k * PAGE_LENGTH < 2 ^ 31"
  shows "\<exists>T. pages_in_need m slack wsize offset mt (Some content) result = Inr (0, T, Str (text_of hs))"
proof -
  let ?n = "first_leaf mt" and ?ds = "changed_pages content f k"
  have sh: "shaped mt" using assms(2) inv_lessons by blast
  have nb: "nb_nodes mt = 2 * ?n" using sh by (rule shaped_nb)
  note p = touched_pages [OF assms(6,7) f k]
  have "(f + k - 1) * PAGE_LENGTH < ?n * PAGE_LENGTH" using p(3) assms(8) by linarith
  then have kn: "f + k \<le> ?n" using p(1) by simp
  obtain slots where slots: "new_datas (content @ slack) f k = Inr slots" "chain slots 0 ?ds"
    using new_datas_chain [OF assms(5) p(1) less_imp_le [OF p(3)] assms(13)] by blast
  have "?n + f + length ?ds \<le> nb_nodes mt" using kn nb p(4) by simp
  moreover have "?ds \<noteq> []" by (simp add: changed_pages_def)
  moreover have "first_leaf_ready mt (?n + f) (length ?ds)" using assms(11) p(4) by simp
  moreover have "length (concat ?ds) < 2 ^ 31" using length_concat_changed [OF p(1)] assms(13) by (rule le_less_trans)
  ultimately obtain T where T: "change_and_rebuild m mt [?n + f..<?n + f + length ?ds] slots FILE_MODE = Inr (0, T)"
    "merkle_inv T" "nb_nodes T = nb_nodes mt" "tree_height T = tree_height mt"
    "\<forall>j<length ?ds. data (nodes T (?n + f + j)) = Str (?ds ! j) \<and> hash_at T (?n + f + j) = digest_string (?ds ! j)"
    "\<forall>j\<ge>?n. j \<notin> {?n + f..<?n + f + length ?ds} \<longrightarrow> nodes T j = nodes mt j"
    using file_mode [OF assms(1,2) _ _ _ slots(2), of "?n + f"] by auto
  have shT: "shaped T" using T(2) inv_lessons by blast
  have fT: "first_leaf T = ?n" using T(4) by (simp add: first_leaf_def)
  have h: "tree_height T < 23" using T(4) assms(3) by simp
  have "leaf_hashes T = take f (leaf_hashes mt) @ map digest_string ?ds @ drop (f + length ?ds) (leaf_hashes mt)"
    using T(5,6) kn p(4) by (intro changed_leaf_hashes [OF sh shT fT]) auto
  then have leaves: "leaf_hashes T = hs" unfolding p(4) hs .
  have "freeable T"
    unfolding freeable_def fT T(3)
  proof
    fix j assume j: "j \<in> {?n<..<nb_nodes mt}"
    show "data (nodes T j) \<noteq> Wild"
    proof (cases "j \<in> {?n + f..<?n + f + length ?ds}")
      case True
      then have "data (nodes T j) = Str (?ds ! (j - (?n + f)))" using T(5) by (auto dest: spec [of _ "j - (?n + f)"])
      then show ?thesis by simp
    next
      case False
      then have "nodes T j = nodes mt j" using T(6) j by simp
      then show ?thesis using assms(4) j by (simp add: freeable_def)
    qed
  qed
  have h24: "tree_height T < 24" using h by simp
  have "75 * nb_nodes T \<le> HASH_SIZE * nb_nodes T" by (simp add: size_defs)
  note st = store_tree [OF T(2) h24 \<open>freeable T\<close> this]
  have "(2::nat) ^ tree_height T \<le> 2 ^ 22" using h by (intro power_increasing) simp_all
  then have "HASH_SIZE * nb_nodes T < 2 ^ 31" using shT by (simp add: shaped_def size_defs)
  then have cap: "int_result (HASH_SIZE * nb_nodes T) = Inr (HASH_SIZE * nb_nodes T)" by (rule int_result_small)
  have "length content div PAGE_LENGTH \<le> ?n" using div_le_mono [OF assms(8), of PAGE_LENGTH] by simp
  note u = pages_in_need_update [OF sh assms(5-7) this f k]
  show ?thesis
    unfolding u using slots(1) T(1) [unfolded p(4)] cap st by (auto simp: leaves)
qed


section \<open>A page too many\<close>

lemma hash_run_behind:
  assumes "shaped T" and "first_leaf T \<le> i" and "i \<le> nb_nodes T" and "nb_nodes T < i + k"
    and "\<forall>j\<in>{i..<nb_nodes T}. \<exists>s. data (nodes T j) = Str s"
  shows "\<exists>T'. hash_run m k i T = Inr (-1, T')"
  using assms
proof (induction k arbitrary: i T)
  case (Suc k)
  show ?case
  proof (cases "i = nb_nodes T")
    case True
    then show ?thesis by (simp add: hash_node_out_of_range)
  next
    case False
    then obtain s where "data (nodes T i) = Str s" using Suc.prems(3,5) by force
    then have "hash_node m T i = Inr (0, set_hash T i (Str (digest_string s)))"
      using Suc.prems(1-3) False by (intro hash_node_leaf_inv) simp_all
    then show ?thesis using Suc.IH [of "set_hash T i (Str (digest_string s))" "i + 1"] Suc.prems False by simp
  qed
qed simp

lemma pages_in_need_behind:
  assumes "shaped mt" and "good_file slack content" and "0 < wsize" and "offset + wsize \<le> length content"
    and "length content div PAGE_LENGTH = first_leaf mt"
    and "(offset + wsize - 1) div PAGE_LENGTH = first_leaf mt"
  shows "\<exists>T. pages_in_need m slack wsize offset mt (Some content) result = Inr (-1, T, result)"
proof -
  define f where "f = offset div PAGE_LENGTH"
  define k where "k = (offset + wsize - 1) div PAGE_LENGTH - f + 1"
  let ?n = "first_leaf mt" and ?ds = "changed_pages content f k"
  note p = touched_pages [OF assms(3,4) f_def k_def]
  have nb: "nb_nodes mt = 2 * ?n" using assms(1) by (rule shaped_nb)
  have k31: "k * PAGE_LENGTH < 2 ^ 31"
  proof -
    have "?n * PAGE_LENGTH \<le> length content" unfolding assms(5) [symmetric] by simp
    then have "?n * 2 ^ 16 < 2 ^ 31" using assms(2) by (simp add: good_file_def PAGE_LENGTH_def)
    then have "?n < 2 ^ 15" by simp
    then have "tree_height mt - 1 < 15"
      unfolding first_leaf_def by (simp only: power_strict_increasing_iff one_less_numeral_iff semiring_norm)
    then have "?n \<le> 2 ^ 14" unfolding first_leaf_def by (intro power_increasing) simp_all
    moreover have "k \<le> ?n + 1" using p(1,2) assms(6) by linarith
    ultimately show ?thesis by (simp add: PAGE_LENGTH_def)
  qed
  obtain slots where slots: "new_datas (content @ slack) f k = Inr slots" "chain slots 0 ?ds"
    using new_datas_chain [OF assms(2) p(1) less_imp_le [OF p(3)] k31] by blast
  have "0 + length (concat ?ds) < 2 ^ 31" using length_concat_changed [OF p(1), of content f] k31 by linarith
  then obtain U where U: "put_pages slots [?n + f..<?n + f + length ?ds] (word_of_nat 0) mt = Inr U"
    "\<forall>j<length ?ds. data (nodes U (?n + f + j)) = Str (?ds ! j)" "nb_nodes U = nb_nodes mt" "tree_height U = tree_height mt"
    using put_pages_run [OF slots(2)] by blast
  have fk: "f + k = ?n + 1" using p(1,2) assms(6) by linarith
  have "\<exists>T. hash_run m k (?n + f) U = Inr (-1, T)"
  proof (rule hash_run_behind)
    show "shaped U" using assms(1) U(3,4) by (simp add: shaped_def)
    show "first_leaf U \<le> ?n + f" using U(4) by (simp add: first_leaf_def)
    show "?n + f \<le> nb_nodes U" "nb_nodes U < ?n + f + k" using fk p(1) nb U(3) by linarith+
    show "\<forall>j\<in>{?n + f..<nb_nodes U}. \<exists>s. data (nodes U j) = Str s"
    proof
      fix j assume j: "j \<in> {?n + f..<nb_nodes U}"
      then have "?n + f \<le> j" "j < ?n + f + length ?ds" using fk nb U(3) p(4) by simp_all
      then have "j - (?n + f) < length ?ds" by arith
      then show "\<exists>s. data (nodes U j) = Str s" using U(2) j by force
    qed
  qed
  then obtain T where T: "hash_run m k (?n + f) U = Inr (-1, T)" by blast
  obtain h where h: "tree_height mt = Suc h"
    using assms(1) by (cases "tree_height mt") (auto simp: shaped_def valid_height_def)
  have "[?n + f..<?n + f + k] \<noteq> []" "[?n + f..<?n + f + k] ! 0 = ?n + f" using p(1) by simp_all
  then have "change_and_rebuild m mt [?n + f..<?n + f + k] slots FILE_MODE = Inr (-1, T)"
    using T U(1,4) h p(4) by (simp add: change_and_rebuild_def)
  then show ?thesis
    using slots(1) pages_in_need_update [OF assms(1-4) _ f_def k_def] assms(5) by simp
qed


section \<open>Hashing a tree from its leaves\<close>

lemma root_calculation_text:
  assumes "clean m" and "shaped mt" and "\<And>j. first_leaf mt \<le> j \<Longrightarrow> j < nb_nodes mt \<Longrightarrow> has_hash mt j"
    and "tree_height mt < 24" and "freeable mt"
  shows "\<exists>T. root_calculation m mt result = Inr (0, T, Str (text_of (leaf_hashes mt))) \<and> merkle_inv T"
proof -
  obtain T where T: "hash_down m (first_leaf mt - 1) mt = Inr (0, T)" "merkle_inv T" "same_leaves UNIV mt T"
    using rehash_from_leaves [OF assms(1-3)] by blast
  note q = same_leaves_simps [OF T(3)]
  have nb: "nb_nodes mt = 2 * first_leaf mt" using assms(2) by (rule shaped_nb)
  have h: "tree_height T < 24" using q(2) assms(4) by simp
  have fr: "freeable T" using same_leaves_freeable [OF T(3)] assms(5) by simp
  have "75 * nb_nodes T \<le> 8 * HASH_SIZE * 2 * first_leaf mt" using q(1) nb by (simp add: size_defs)
  note st = store_tree [OF T(2) h fr this]
  show ?thesis
    using st T(1,2) by (auto simp: root_calculation_def shaped_leaf_start [OF assms(2)] same_leaves_hashes [OF T(3)])
qed


section \<open>Writing into a file\<close>

definition write_at :: "string \<Rightarrow> nat \<Rightarrow> string \<Rightarrow> string" where
  "write_at old offset d = take offset old @ d @ drop (offset + length d) old"

lemma length_write_at: "offset \<le> length old \<Longrightarrow> length (write_at old offset d) = max (length old) (offset + length d)"
  by (auto simp: write_at_def)

lemma page_number_iff:
  assumes "content \<noteq> []"
  shows "i < length (file_pages content) \<longleftrightarrow> i * PAGE_LENGTH < length content"
proof -
  have "i < (length content + PAGE_LENGTH - 1) div PAGE_LENGTH \<longleftrightarrow>
      (i + 1) * PAGE_LENGTH \<le> length content + PAGE_LENGTH - 1"
    by (metis less_eq_div_iff_mult_less_eq PAGE_LENGTH_pos(1) Suc_eq_plus1 Suc_le_eq)
  also have "\<dots> \<longleftrightarrow> i * PAGE_LENGTH < length content"
    using PAGE_LENGTH_pos(1) unfolding distrib_right by linarith
  finally show ?thesis by (simp add: file_pages_def)
qed

lemma padded_nth:
  assumes "content \<noteq> []" and "i < length (padded_pages content)"
  shows "padded_pages content ! i = (if i * PAGE_LENGTH < length content then page_at content i else '' '')"
proof (cases "i < length (file_pages content)")
  case True
  then have "padded_pages content ! i = page_at content i"
    by (simp add: padded_pages_def Let_def nth_append) (simp add: file_pages_def)
  then show ?thesis using True page_number_iff [OF assms(1)] by simp
next
  case False
  then have "padded_pages content ! i = '' ''"
    using assms(2) by (simp add: padded_pages_def Let_def nth_append)
  then show ?thesis using False page_number_iff [OF assms(1)] by simp
qed

lemma page_before:
  assumes "(i + 1) * PAGE_LENGTH \<le> offset" and "offset \<le> length old"
  shows "page_at (write_at old offset d) i = page_at old i"
proof -
  have "i * PAGE_LENGTH + PAGE_LENGTH \<le> offset" using assms(1) by simp
  then show ?thesis using assms(2) by (simp add: write_at_def drop_take)
qed

text \<open>
  The pages as \<open>pages_in_need\<close> takes them: of the last one it touches only what fits before the terminator.
\<close>

definition clipped :: "nat \<Rightarrow> string list \<Rightarrow> string list" where
  "clipped p ps = ps[p := take (PAGE_LENGTH - 1) (ps ! p)]"

lemma length_clipped [simp]: "length (clipped p ps) = length ps"
  by (simp add: clipped_def)

lemma clipped_short: "length (ps ! p) < PAGE_LENGTH \<Longrightarrow> clipped p ps = ps"
  by (simp add: clipped_def)

lemma nth_clipped: "i < length ps \<Longrightarrow> clipped p ps ! i = (if i = p then take (PAGE_LENGTH - 1) (ps ! i) else ps ! i)"
  by (simp add: clipped_def nth_list_update)

lemma page_behind:
  assumes "offset + length d \<le> i * PAGE_LENGTH" and "offset \<le> length old"
  shows "page_at (write_at old offset d) i = page_at old i"
  using assms by (simp add: write_at_def)

lemma write_changes_pages:
  assumes "old \<noteq> []" and "d \<noteq> []" and "offset \<le> length old" and new: "new = write_at old offset d"
    and "length (padded_pages new) = length (padded_pages old)"
    and f: "f = offset div PAGE_LENGTH" and k: "k = (offset + length d - 1) div PAGE_LENGTH - f + 1"
    and "length new \<le> length (padded_pages new) * PAGE_LENGTH"
  shows "take f (padded_pages old) @ changed_pages new f k @ drop (f + k) (padded_pages old) =
    clipped (f + k - 1) (padded_pages new)"
proof -
  let ?N = "length (padded_pages new)"
  have ln: "length new = max (length old) (offset + length d)"
    unfolding new by (rule length_write_at [OF assms(3)])
  have "offset + length d \<le> length new" using ln by simp
  note p = touched_pages [OF _ this f k]
  have d: "0 < length d" using assms(2) by simp
  have ne: "new \<noteq> []" using ln assms(1) by (auto simp: max_def split: if_splits)
  have lt: "(f + k - 1) * PAGE_LENGTH < length new" using p(3) d by simp
  have "(f + k - 1) * PAGE_LENGTH < ?N * PAGE_LENGTH" using lt assms(8) by linarith
  then have fk: "f + k \<le> ?N" using p(1) [OF d] by simp
  have f0: "f * PAGE_LENGTH \<le> offset" unfolding f by simp
  have lc: "length (changed_pages new f k) = k" using p(4) d by simp
  have e: "offset + length d \<le> (f + k) * PAGE_LENGTH"
    using p(2) [OF d] p(1) [OF d] d dividend_less_div_times [OF PAGE_LENGTH_pos(1), of "offset + length d - 1"]
    by (metis Suc_diff_1 Suc_leI add_gr_0 add.commute mult_Suc)
  show ?thesis
  proof (rule nth_equalityI)
    show "length (take f (padded_pages old) @ changed_pages new f k @ drop (f + k) (padded_pages old)) =
        length (clipped (f + k - 1) (padded_pages new))"
      using fk lc assms(5) by simp
    fix i assume "i < length (take f (padded_pages old) @ changed_pages new f k @ drop (f + k) (padded_pages old))"
    then have i: "i < ?N" using fk lc assms(5) by simp
    note N = padded_nth [OF ne i] nth_clipped [OF i, of "f + k - 1"]
    have O: "padded_pages old ! i = (if i * PAGE_LENGTH < length old then page_at old i else '' '')"
      using i assms(5) by (intro padded_nth [OF assms(1)]) simp
    consider "i < f" | "f \<le> i" "i < f + k - 1" | "i = f + k - 1" | "f + k \<le> i" using p(1) [OF d] by linarith
    then show "(take f (padded_pages old) @ changed_pages new f k @ drop (f + k) (padded_pages old)) ! i =
      clipped (f + k - 1) (padded_pages new) ! i"
    proof cases
      case 1
      then have "(i + 1) * PAGE_LENGTH \<le> f * PAGE_LENGTH" by (intro mult_right_mono) simp_all
      then have b: "(i + 1) * PAGE_LENGTH \<le> offset" using f0 by linarith
      then have "i * PAGE_LENGTH < length old" using assms(3) PAGE_LENGTH_pos(1) unfolding distrib_right by linarith
      moreover from this have "i * PAGE_LENGTH < length new" using ln by simp
      moreover have "page_at new i = page_at old i" unfolding new using b assms(3) by (rule page_before)
      moreover have "i \<noteq> f + k - 1" using 1 p(1) [OF d] by linarith
      ultimately show ?thesis using N O 1 fk assms(5) by (simp add: nth_append)
    next
      case 2
      then have "changed_pages new f k ! (i - f) = page_at new i"
        by (simp add: changed_pages_def nth_append)
      moreover have "i * PAGE_LENGTH \<le> (f + k - 1) * PAGE_LENGTH" using 2 by (intro mult_right_mono) simp_all
      then have "i * PAGE_LENGTH < length new" using lt by linarith
      moreover have "i - f < k" using 2 by linarith
      ultimately show ?thesis using N 2 fk lc assms(5) by (simp add: nth_append)
    next
      case 3
      then have j: "i - f = k - 1" using p(1) [OF d] by simp
      have "changed_pages new f k ! (k - 1) = take (PAGE_LENGTH - 1) (page_at new i)"
        unfolding changed_pages_def 3 by (simp add: nth_append)
      then have "changed_pages new f k ! (i - f) = take (PAGE_LENGTH - 1) (page_at new i)" unfolding j .
      moreover have "\<not> i < f" "i - f < k" "i * PAGE_LENGTH < length new" using j lt 3 p(1) [OF d] by simp_all
      ultimately show ?thesis using N 3 fk lc assms(5) by (simp add: nth_append)
    next
      case 4
      then have "(f + k) * PAGE_LENGTH \<le> i * PAGE_LENGTH" by (intro mult_right_mono) simp_all
      then have b: "offset + length d \<le> i * PAGE_LENGTH" using e by linarith
      then have "i * PAGE_LENGTH < length new \<longleftrightarrow> i * PAGE_LENGTH < length old" using ln by auto
      moreover have "page_at new i = page_at old i" unfolding new by (rule page_behind [OF b assms(3)])
      moreover have "\<not> i < f" "\<not> i - f < k" "i \<noteq> f + k - 1" using 4 p(1) [OF d] by simp_all
      ultimately show ?thesis using N O 4 lc i assms(5) by (simp add: nth_append)
    qed
  qed
qed

text \<open>The last page the write touches, when the write ends in the last page of the file, which is not full.\<close>

lemma clipped_last:
  assumes "new \<noteq> []" and "p < length (padded_pages new)" and "length new < (p + 1) * PAGE_LENGTH"
  shows "clipped p (padded_pages new) = padded_pages new"
proof (rule clipped_short)
  have "length (drop (p * PAGE_LENGTH) new) < PAGE_LENGTH"
    using assms(3) PAGE_LENGTH_pos(1) unfolding distrib_right length_drop by linarith
  then have "length (page_at new p) < PAGE_LENGTH" by simp
  moreover have "length '' '' < PAGE_LENGTH" by (simp add: size_defs)
  ultimately show "length (padded_pages new ! p) < PAGE_LENGTH"
    unfolding padded_nth [OF assms(1,2)] by (cases "p * PAGE_LENGTH < length new") (simp_all only: if_True if_False)
qed


text \<open>The size of the tree of a file that has grown.\<close>

lemma pow2_ceil_same:
  assumes "0 < x" and "x \<le> y" and "y \<le> pow2_ceil x"
  shows "pow2_ceil y = pow2_ceil x"
proof -
  obtain a b where ab: "pow2_ceil x = 2 ^ a" "pow2_ceil y = 2 ^ b" using pow2_ceil_pow2 by metis
  have "0 < y" using assms(1,2) by simp
  note bounds = pow2_ceil_bounds [OF assms(1)] pow2_ceil_bounds [OF this]
  have "(2::nat) ^ a < 2 ^ Suc b" "(2::nat) ^ b < 2 ^ Suc a" using bounds ab assms(2,3) by simp_all
  then have "a < Suc b" "b < Suc a" by (simp_all only: power_strict_increasing_iff one_less_numeral_iff semiring_norm)
  then have "a = b" by simp
  then show ?thesis using ab by simp
qed

lemma length_padded_pow2:
  "content \<noteq> [] \<Longrightarrow> length (padded_pages content) = pow2_ceil (length (file_pages content))"
  and file_pages_pos: "content \<noteq> [] \<Longrightarrow> 0 < length (file_pages content)"
proof -
  assume "content \<noteq> []"
  then show "0 < length (file_pages content)" using page_number_iff [of content 0] by simp
  then show "length (padded_pages content) = pow2_ceil (length (file_pages content))"
    using pow2_ceil_bounds(1) by (simp add: padded_pages_def Let_def)
qed

lemma file_pages_le: "content \<noteq> [] \<Longrightarrow> length (file_pages content) \<le> n \<longleftrightarrow> length content \<le> n * PAGE_LENGTH"
  using page_number_iff [of content n] by (simp add: not_less [symmetric])

lemma padded_same:
  assumes "old \<noteq> []" and "length old \<le> length new" and "length new \<le> length (padded_pages old) * PAGE_LENGTH"
  shows "length (padded_pages new) = length (padded_pages old)"
proof -
  have ne: "new \<noteq> []" using assms(1,2) by auto
  have "length (file_pages new) \<le> pow2_ceil (length (file_pages old))"
    using file_pages_le [OF ne] assms(3) length_padded_pow2 [OF assms(1)] by simp
  moreover have "length (file_pages old) \<le> length (file_pages new)"
    using file_pages_le [OF assms(1)] file_pages_le [OF ne, of "length (file_pages new)"] assms(2) by simp
  ultimately show ?thesis
    using pow2_ceil_same file_pages_pos [OF assms(1)] length_padded_pow2 assms(1) ne by simp
qed

lemma pow2_ceil_Suc_pow2: "pow2_ceil (2 ^ k + 1) = 2 * 2 ^ k"
proof -
  obtain b where b: "pow2_ceil (2 ^ k + 1) = 2 ^ b" using pow2_ceil_pow2 by blast
  have one: "(1::nat) \<le> 2 ^ k" by simp
  have "(2::nat) ^ k + 1 \<le> 2 ^ b" "(2::nat) ^ b < 2 * (2 ^ k + 1)"
    using pow2_ceil_bounds [of "2 ^ k + 1"] b by simp_all
  moreover have "2 * ((2::nat) ^ k + 1) \<le> 2 ^ Suc (Suc k)" using one by simp
  ultimately have "(2::nat) ^ k < 2 ^ b" "(2::nat) ^ b < 2 ^ Suc (Suc k)" by linarith+
  then have "k < b" "b < Suc (Suc k)"
    by (simp_all only: power_strict_increasing_iff one_less_numeral_iff semiring_norm)
  then have "b = Suc k" by simp
  then show ?thesis using b by simp
qed

text \<open>
  A write of one page, or of what is then the last page: the pages of the new file.
\<close>

lemma write_one_page:
  assumes "old \<noteq> []" and "d \<noteq> []" and "length d \<le> PAGE_LENGTH" and "p * PAGE_LENGTH \<le> length old"
    and "length d = PAGE_LENGTH \<or> length old \<le> p * PAGE_LENGTH + length d"
    and new: "new = write_at old (p * PAGE_LENGTH) d"
  shows "(padded_pages old @ (if p < length (padded_pages old) then [] else replicate (length (padded_pages old)) '' ''))
    [p := d] = padded_pages new" and "p < 2 * length (padded_pages old)"
proof -
  let ?n = "length (padded_pages old)" and ?o = "p * PAGE_LENGTH"
  have ln: "length new = max (length old) (?o + length d)" unfolding new by (rule length_write_at [OF assms(4)])
  have ne: "new \<noteq> []" using ln assms(1) by (auto simp: max_def split: if_splits)
  have "length (file_pages old) \<le> ?n"
    unfolding length_padded_pow2 [OF assms(1)] by (rule pow2_ceil_bounds(1) [OF file_pages_pos [OF assms(1)]])
  then have on: "length old \<le> ?n * PAGE_LENGTH" using file_pages_le [OF assms(1)] by blast
  have "p * PAGE_LENGTH \<le> ?n * PAGE_LENGTH" using assms(4) on by linarith
  then have pn: "p \<le> ?n" by simp
  have np: "0 < ?n" using file_pages_pos [OF assms(1)] \<open>length (file_pages old) \<le> ?n\<close> by linarith
  then show "p < 2 * ?n" using pn by linarith
  have N: "length (padded_pages new) = (if p < ?n then ?n else 2 * ?n)"
  proof (cases "p < ?n")
    case True
    then have "?o + PAGE_LENGTH \<le> ?n * PAGE_LENGTH" using mult_right_mono [of "p + 1" ?n PAGE_LENGTH] by simp
    then have "length new \<le> ?n * PAGE_LENGTH" using ln on assms(3) by simp
    then show ?thesis using padded_same [OF assms(1), of new] ln True by simp
  next
    case False
    then have p: "p = ?n" using pn by simp
    then have "length old = ?n * PAGE_LENGTH" using on assms(4) by simp
    then have "length new = ?n * PAGE_LENGTH + length d" using ln p by simp
    moreover have "(?n + 1) * PAGE_LENGTH = ?n * PAGE_LENGTH + PAGE_LENGTH" by simp
    ultimately have "length new \<le> (?n + 1) * PAGE_LENGTH" "\<not> length new \<le> ?n * PAGE_LENGTH"
      using assms(2,3) by simp_all
    then have "length (file_pages new) = ?n + 1"
      using file_pages_le [OF ne, of "?n + 1"] file_pages_le [OF ne, of ?n] by simp
    moreover obtain k where "?n = 2 ^ k" using length_padded_pow2 [OF assms(1)] pow2_ceil_pow2 by metis
    ultimately show ?thesis using length_padded_pow2 [OF ne] pow2_ceil_Suc_pow2 p by simp
  qed
  let ?ps = "padded_pages old @ (if p < ?n then [] else replicate ?n '' '')"
  show "?ps[p := d] = padded_pages new"
  proof (rule nth_equalityI)
    show "length (?ps[p := d]) = length (padded_pages new)" using N by simp
    fix i assume "i < length (?ps[p := d])"
    then have i: "i < length (padded_pages new)" unfolding N by (simp split: if_splits)
    note Ni = padded_nth [OF ne i]
    consider "i = p" | "i < p" | "p < i" by linarith
    then show "?ps[p := d] ! i = padded_pages new ! i"
    proof cases
      case 1
      have "page_at new p = d"
        using assms(3-5) by (auto simp: new write_at_def min_def drop_take)
      moreover have "p * PAGE_LENGTH < length new" using ln assms(2) by (simp add: max_def)
      ultimately show ?thesis using Ni 1 \<open>i < length (?ps[p := d])\<close> by simp
    next
      case 2
      then have b: "(i + 1) * PAGE_LENGTH \<le> ?o" by (intro mult_right_mono) simp_all
      then have "i * PAGE_LENGTH < length old" using assms(4) PAGE_LENGTH_pos(1) unfolding distrib_right by linarith
      moreover from this have "i * PAGE_LENGTH < length new" using ln by simp
      moreover have "page_at new i = page_at old i" unfolding new using b assms(4) by (rule page_before)
      moreover have "i < ?n" using 2 pn by simp
      ultimately show ?thesis using Ni padded_nth [OF assms(1) \<open>i < ?n\<close>] 2 by (simp add: nth_append)
    next
      case 3
      then have "(p + 1) * PAGE_LENGTH \<le> i * PAGE_LENGTH" by (intro mult_right_mono) simp_all
      then have b: "?o + PAGE_LENGTH \<le> i * PAGE_LENGTH" by simp
      have same: "i * PAGE_LENGTH < length new \<longleftrightarrow> i * PAGE_LENGTH < length old" using ln b assms(3) by auto
      have "page_at new i = page_at old i" if "i * PAGE_LENGTH < length old"
      proof -
        have d: "length d = PAGE_LENGTH" using assms(3,5) b that by linarith
        then have "drop (i * PAGE_LENGTH) new = drop (i * PAGE_LENGTH) old"
          unfolding new write_at_def using b assms(4) 3 by (simp add: min_def)
        then show ?thesis by simp
      qed
      moreover have "i < ?n" if "i * PAGE_LENGTH < length old"
      proof -
        have "i * PAGE_LENGTH < ?n * PAGE_LENGTH" using that on by linarith
        then show ?thesis by simp
      qed
      ultimately show ?thesis
        using Ni same 3 i N padded_nth [OF assms(1), of i] by (auto simp: nth_append split: if_splits)
    qed
  qed
qed



section \<open>The string of a file after a write\<close>

text \<open>Reading the string of a file, and the two ways of bringing it up to date.\<close>

lemma read_pages_text:
  assumes "good_file slack old" and "pages_written m" and "length ps = length (padded_pages old)"
  obtains R where "string_to_tree m mt (text_of (map digest_string ps)) = Inr R"
    and "merkle_inv R" and "tree_height R < 23" and "freeable R" and "leaf_hashes R = map digest_string ps"
proof -
  let ?hs = "map digest_string ps" and ?k = "file_height old - 1"
  have pc: "length ps = 2 ^ ?k" "file_height old \<le> 17"
    using file_page_count [OF assms(1)] assms(3) by (auto simp: page_count_def)
  have "\<forall>h\<in>set ?hs. is_hash h" by auto
  moreover have "length ?hs = 2 ^ ?k" "?k < 23" using pc by simp_all
  ultimately obtain R where R: "string_to_tree m mt (text_of ?hs) = Inr R" "merkle_inv R"
    "tree_height R = ?k + 1" "leaf_hashes R = ?hs" "\<And>i. data (nodes R i) = data (fresh_node m i)"
    by (rule read_text_of [of ?hs ?k m mt]) blast
  moreover have "freeable R" using R(5) assms(2) by (simp add: freeable_def pages_written_def)
  ultimately show ?thesis using that pc(2) by simp
qed

lemmas read_file_text = read_pages_text [OF _ _ refl]

lemma leaf_hashes_first_leaf: "merkle_inv R \<Longrightarrow> leaf_hashes R = hs \<Longrightarrow> first_leaf R = length hs"
  using length_leaf_hashes [of R] inv_lessons by metis

lemma quick_change_write:
  assumes "clean m" and "pages_written m" and "merkle_inv R" and "tree_height R < 23" and "freeable R"
    and "leaf_hashes R = map digest_string (padded_pages old)"
    and "old \<noteq> []" and "d \<noteq> []" and "length d \<le> PAGE_LENGTH" and "p * PAGE_LENGTH \<le> length old"
    and "length d = PAGE_LENGTH \<or> length old \<le> p * PAGE_LENGTH + length d"
  shows "\<exists>T. quick_change m wsize (p * PAGE_LENGTH) (Str d) R result =
    Inr (0, T, Str (text_of (map digest_string (padded_pages (write_at old (p * PAGE_LENGTH) d)))))"
proof -
  let ?n = "length (padded_pages old)"
  note w = write_one_page [OF assms(7-11) refl]
  have fl: "first_leaf R = ?n" using leaf_hashes_first_leaf [OF assms(3,6)] by simp
  have "(leaf_hashes R @ (if p < ?n then [] else replicate ?n space_hash))[p := digest_string d] =
    map digest_string ((padded_pages old @ (if p < ?n then [] else replicate ?n '' ''))[p := d])"
    unfolding assms(6) by (simp add: map_update space_hash_eq)
  then have e: "(leaf_hashes R @ (if p < ?n then [] else replicate ?n space_hash))[p := digest_string d] =
    map digest_string (padded_pages (write_at old (p * PAGE_LENGTH) d))" unfolding w(1) .
  have f: "fits_leaf d" using assms(9) by (simp add: fits_leaf_def size_defs)
  show ?thesis
  proof (cases "p < ?n")
    case True
    then show ?thesis using quick_change_place [OF assms(1,3) _ assms(5) _ f, of p] assms(4) fl e by simp
  next
    case False
    then show ?thesis using quick_change_grow [OF assms(1-5) _ _ f, of p] w(2) fl e by simp
  qed
qed

lemma pages_in_need_clips:
  assumes "clean m" and "merkle_inv R" and "tree_height R < 23" and "freeable R"
    and "leaf_hashes R = map digest_string (padded_pages old)"
    and "old \<noteq> []" and "good_file slack new" and new: "new = write_at old offset d"
    and "d \<noteq> []" and "offset \<le> length old" and "length new \<le> length (padded_pages old) * PAGE_LENGTH"
    and f: "f = offset div PAGE_LENGTH" and k: "k = (offset + length d - 1) div PAGE_LENGTH - f + 1"
    and "f = 0 \<or> (length (padded_pages old) + f) div 2 + k div 2 < length (padded_pages old)"
    and "k * PAGE_LENGTH < 2 ^ 31"
  shows "\<exists>T. pages_in_need m slack (length d) offset R (Some new) result =
    Inr (0, T, Str (text_of (map digest_string (clipped (f + k - 1) (padded_pages new)))))"
proof -
  have fl: "first_leaf R = length (padded_pages old)" using leaf_hashes_first_leaf [OF assms(2,5)] by simp
  have ln: "length new = max (length old) (offset + length d)" unfolding new by (rule length_write_at [OF assms(10)])
  then have N: "length (padded_pages new) = length (padded_pages old)"
    by (intro padded_same [OF assms(6) _ assms(11)]) simp
  have "take f (padded_pages old) @ changed_pages new f k @ drop (f + k) (padded_pages old) =
      clipped (f + k - 1) (padded_pages new)"
    using assms(11) N by (intro write_changes_pages [OF assms(6,9,10) new N f k]) simp
  then have hs: "map digest_string (clipped (f + k - 1) (padded_pages new)) =
    take f (leaf_hashes R) @ map digest_string (changed_pages new f k) @ drop (f + k) (leaf_hashes R)"
    unfolding assms(5) by (metis map_append take_map drop_map)
  show ?thesis
  proof (rule pages_in_need_run [OF assms(1-4,7) _ _ _ f k _ hs assms(15)])
    show "0 < length d" using assms(9) by simp
    show "offset + length d \<le> length new" using ln by simp
    show "length new \<le> first_leaf R * PAGE_LENGTH" using assms(11) fl by simp
    show "first_leaf_ready R (first_leaf R + f) k" using assms(14) fl by (auto simp: first_leaf_ready_def)
  qed
qed

lemma pages_in_need_write:
  assumes "clean m" and "merkle_inv R" and "tree_height R < 23" and "freeable R"
    and "leaf_hashes R = map digest_string (padded_pages old)"
    and "old \<noteq> []" and "good_file slack new" and new: "new = write_at old offset d"
    and "d \<noteq> []" and "offset \<le> length old" and "length new \<le> length (padded_pages old) * PAGE_LENGTH"
    and f: "f = offset div PAGE_LENGTH" and k: "k = (offset + length d - 1) div PAGE_LENGTH - f + 1"
    and "length new < (f + k) * PAGE_LENGTH"
    and "f = 0 \<or> (length (padded_pages old) + f) div 2 + k div 2 < length (padded_pages old)"
    and "k * PAGE_LENGTH < 2 ^ 31"
  shows "\<exists>T. pages_in_need m slack (length d) offset R (Some new) result =
    Inr (0, T, Str (text_of (map digest_string (padded_pages new))))"
proof -
  have ln: "length new = max (length old) (offset + length d)" unfolding new by (rule length_write_at [OF assms(10)])
  have ne: "new \<noteq> []" using assms(7) by (simp add: good_file_def)
  have N: "length (padded_pages new) = length (padded_pages old)"
    using ln by (intro padded_same [OF assms(6) _ assms(11)]) simp
  have d: "0 < length d" "offset + length d \<le> length new" using assms(9) ln by simp_all
  note p = touched_pages [OF d f k]
  have "(f + k - 1) * PAGE_LENGTH < length (padded_pages new) * PAGE_LENGTH" unfolding N using p(3) assms(11) by linarith
  then have "clipped (f + k - 1) (padded_pages new) = padded_pages new"
    using assms(14) p(1) by (intro clipped_last [OF ne]) simp_all
  then show ?thesis using pages_in_need_clips [OF assms(1-13,15,16)] by metis
qed

end
