(* ===== verification/Write.thy ===== *)
theory Write
  imports Tokenizer Update
begin

text \<open>
  \<open>bb_write\<close> of \<^verbatim>\<open>bbfs.c\<close>: the write itself and the Merkle tree in the attribute \<open>merkle\<close> of the
  file.
\<close>


section \<open>The code\<close>

definition MAX_TREE_SIZE :: nat where "MAX_TREE_SIZE = 64000000"

lemma MAX_TREE_SIZE_int: "MAX_TREE_SIZE < 2 ^ 31"
  by (simp add: MAX_TREE_SIZE_def)

text \<open>
  What the memory of the process holds where the program has not written: the parameters of the
  tree functions, the local variable \<open>mt\<close>, and the bytes behind the file, the attribute and the
  buffer of the write.
\<close>

record heap =
  memory_of :: memory
  schedule :: "nat list"
  uninit_tree :: merkle_tree
  behind_file :: string
  behind_attr :: string
  behind_buf :: string

text \<open>
  \<open>size_t\<close> and \<open>off_t\<close> values passed as \<open>int\<close> keep 32 bits. The model ends where the result is
  negative.
\<close>

definition c_int :: "int \<Rightarrow> fault + nat" where
  "c_int n = (let k = as_int n in if k < 0 then Inl Bad_conversion else Inr (nat k))"

text \<open>The buffer FUSE passes is not terminated; a string begins there if one ends behind it.\<close>

definition buf_ptr :: "heap \<Rightarrow> string \<Rightarrow> c_ptr" where
  "buf_ptr hp d = (case c_string (d @ behind_buf hp) of Inl _ \<Rightarrow> Wild | Inr s \<Rightarrow> Str s)"

text \<open>\<open>setxattr(fpath, "merkle", result, strlen(result), 0, 0)\<close>, whose value is not looked at.\<close>

definition set_merkle :: "'w mount \<Rightarrow> string \<Rightarrow> c_ptr \<Rightarrow> ('w, unit) io" where
  "set_merkle env fpath result =
     seq_io (lift_io (deref result)) (\<lambda>s.
     seq_io (perform (sys env) (On_path (Setxattr ''merkle'' s) fpath)) (\<lambda>_. return_io ()))"

text \<open>\<open>fclose\<close> of what \<open>fopen\<close> returned.\<close>

definition close_stream :: "'w mount \<Rightarrow> string option \<Rightarrow> ('w, unit) io" where
  "close_stream env fp =
     (case fp of None \<Rightarrow> fail_io Bad_pointer
      | Some _ \<Rightarrow> seq_io (perform (sys env) Fclose) (\<lambda>_. return_io ()))"

text \<open>With an attribute: from its bytes to the new attribute, and what \<open>result\<close> is.\<close>

definition update_merkle ::
  "'w mount \<Rightarrow> heap \<Rightarrow> string \<Rightarrow> string \<Rightarrow> string \<Rightarrow> int \<Rightarrow> ('w, c_ptr) io"
where
  "update_merkle env hp fpath tree_string d offset =
     seq_io (log_msg (sys env) ''Getting previous Merkle Tree'') (\<lambda>_.
     seq_io (perform (sys env) Mutex_lock) (\<lambda>_.
     seq_io (lift_io (c_string (tree_string @ behind_attr hp))) (\<lambda>s.
     seq_io (string_to_tree_io (sys env) (memory_of hp) (uninit_tree hp) s) (\<lambda>mt.
     seq_io (perform (sys env) Mutex_unlock) (\<lambda>_.
     seq_io (log_msg (sys env) ''Tree computed'') (\<lambda>_.
     seq_io (lift_io (c_int (int (length d)))) (\<lambda>size'.
     seq_io (lift_io (c_int offset)) (\<lambda>offset'.
     seq_io (lift_io (quick_change (memory_of hp) size' offset' (buf_ptr hp d) mt Wild)) (\<lambda>(res, mt, result).
     seq_io (log_msg (sys env) ''res'') (\<lambda>_.
     if res \<noteq> -2 \<and> res \<noteq> -1 then
       seq_io (log_msg (sys env) ''quick_change done'') (\<lambda>_.
       seq_io (set_merkle env fpath result) (\<lambda>_. return_io result))
     else
       seq_io (perform (sys env) (On_path Fopen fpath)) (\<lambda>fp.
       seq_io (lift_io (pages_in_need (memory_of hp) (behind_file hp) size' offset' mt (payload fp) result))
         (\<lambda>(r, mt, result).
       seq_io (if r \<noteq> -1 then
                 seq_io (log_msg (sys env) ''Need of page_in_need'') (\<lambda>_. set_merkle env fpath result)
               else return_io ()) (\<lambda>_.
       seq_io (close_stream env (payload fp)) (\<lambda>_. return_io result))))))))))))))"

text \<open>Without one: the tree of the whole file, by eight threads.\<close>

definition first_merkle :: "'w mount \<Rightarrow> heap \<Rightarrow> string \<Rightarrow> ('w, c_ptr) io" where
  "first_merkle env hp fpath =
     seq_io (log_msg (sys env) ''First merkle attribute'') (\<lambda>_.
     seq_io (perform (sys env) (On_path Fopen fpath)) (\<lambda>fp.
     seq_io (lift_io (m_compute_merkle (memory_of hp) (schedule hp) (behind_file hp) (payload fp)
                        (uninit_tree hp) Wild 8)) (\<lambda>(r, mt, result).
     seq_io (if r \<noteq> -1 then set_merkle env fpath result else return_io ()) (\<lambda>_.
     seq_io (close_stream env (payload fp)) (\<lambda>_. return_io result)))))"

text \<open>
  \<open>d\<close> are the \<open>size\<close> bytes of the buffer. The value of \<open>pwrite\<close> is returned and otherwise not
  looked at; \<open>result\<close> is freed whether it was set or not.
\<close>

definition bb_write :: "'w mount \<Rightarrow> heap \<Rightarrow> string \<Rightarrow> string \<Rightarrow> int \<Rightarrow> file_info \<Rightarrow> ('w, int) io" where
  "bb_write env hp path d offset fi =
     seq_io (log_msg (sys env) ''bb_write'') (\<lambda>_.
     seq_io (log_fi (sys env)) (\<lambda>_.
     seq_io (bb_fullpath env path) (\<lambda>fpath.
     seq_io (checked_call (sys env) ''pwrite'' (On_fd (Pwrite d offset) (fh fi))) (\<lambda>k.
     seq_io (perform (sys env) (On_path (Getxattr ''merkle'' MAX_TREE_SIZE) fpath)) (\<lambda>attr.
     seq_io (if 0 < ret attr then
               (case payload attr of
                  None \<Rightarrow> fail_io Unterminated
                | Some tree_string \<Rightarrow> update_merkle env hp fpath tree_string d offset)
             else first_merkle env hp fpath) (\<lambda>result.
     seq_io (lift_io (is_set result)) (\<lambda>_. return_io k)))))))"


section \<open>A store of files\<close>

text \<open>
  What \<open>bb_write\<close> relies on, for the file at a path \<open>f\<close> in the states of the outside world:
  \<open>content_of\<close> and \<open>merkle_of\<close> are the bytes and the attribute of the file at a path, \<open>path_of\<close> is the
  path behind a descriptor. \<open>cursor_of\<close> is what the static variable of \<open>strtok\<close> points to, and in the states that
  satisfy \<open>locked\<close> the thread holds the mutex or is alone.
\<close>

record 'w store_view =
  content_of :: "'w \<Rightarrow> string \<Rightarrow> string option"
  merkle_of :: "'w \<Rightarrow> string \<Rightarrow> string option"
  path_of :: "'w \<Rightarrow> int \<Rightarrow> string option"
  cursor_of :: "'w \<Rightarrow> string"
  locked :: "'w \<Rightarrow> bool"

text \<open>Nothing happens to the file at \<open>f\<close> and to the descriptors that are open on it.\<close>

definition same_file :: "'w store_view \<Rightarrow> string \<Rightarrow> 'w \<Rightarrow> 'w \<Rightarrow> bool" where
  "same_file v f w w' \<longleftrightarrow> content_of v w' f = content_of v w f \<and> merkle_of v w' f = merkle_of v w f \<and>
     (\<forall>n. path_of v w' n = Some f \<longleftrightarrow> path_of v w n = Some f)"

text \<open>
  A write inside or at the end of the file writes everything, \<open>fopen\<close> reads what was written, the
  attribute is read as it was set, \<open>strtok\<close> goes on where it was while the mutex is held, and nothing else happens
  to the file.
\<close>

definition file_store :: "'w system \<Rightarrow> 'w store_view \<Rightarrow> string \<Rightarrow> bool" where
  "file_store os v f \<longleftrightarrow>
     tokenizer os (cursor_of v) (locked v) \<and>
     (\<forall>w c. c \<in> {Mutex_lock, Mutex_unlock, Fclose, On_path Fopen f} \<or> (\<exists>s d. c = Strtok s d) \<longrightarrow>
        same_file v f w (effect os w c)) \<and>
     (\<forall>w. payload (answer os w (On_path Fopen f)) = content_of v w f) \<and>
     (\<forall>w n. same_file v f w (effect os w (On_path (Getxattr ''merkle'' n) f)) \<and>
        (case merkle_of v w f of
           None \<Rightarrow> ret (answer os w (On_path (Getxattr ''merkle'' n) f)) < 0
         | Some s \<Rightarrow> length s \<le> n \<and> n < 2 ^ 31 \<longrightarrow>
             answer os w (On_path (Getxattr ''merkle'' n) f) = \<lparr>ret = int (length s), payload = Some s\<rparr>)) \<and>
     (\<forall>w s. let w' = effect os w (On_path (Setxattr ''merkle'' s) f) in
        content_of v w' f = content_of v w f \<and> merkle_of v w' f = Some s \<and>
        (\<forall>n. path_of v w' n = Some f \<longleftrightarrow> path_of v w n = Some f)) \<and>
     (\<forall>w n old d off. path_of v w n = Some f \<and> content_of v w f = Some old \<and> off \<le> length old \<and> length d < 2 ^ 31 \<longrightarrow>
        (let w' = effect os w (On_fd (Pwrite d (int off)) n) in
         ret (answer os w (On_fd (Pwrite d (int off)) n)) = int (length d) \<and>
         content_of v w' f = Some (write_at old off d) \<and> merkle_of v w' f = merkle_of v w f \<and>
         (\<forall>k. path_of v w' k = Some f \<longleftrightarrow> path_of v w k = Some f)))"

lemma file_store_keeps:
  assumes "file_store os v f"
  shows "same_file v f w (effect os w Mutex_lock)" "same_file v f w (effect os w Mutex_unlock)"
    "same_file v f w (effect os w Fclose)" "same_file v f w (effect os w (On_path (Getxattr ''merkle'' n) f))"
    "same_file v f w (effect os w (On_path Fopen f))"
  using assms unfolding file_store_def by blast+

lemma file_store_tokenizer: "file_store os v f \<Longrightarrow> tokenizer os (cursor_of v) (locked v)"
  unfolding file_store_def by blast

lemma same_file_refl [simp]: "same_file v f w w"
  by (simp add: same_file_def)

lemma same_file_trans: "same_file v f w1 w2 \<Longrightarrow> same_file v f w2 w3 \<Longrightarrow> same_file v f w1 w3"
  by (simp add: same_file_def)

lemma file_store_strtok:
  assumes "file_store os v f" and "by_strtok os w u"
  shows "same_file v f w u"
proof (rule by_strtok_invariant [OF assms(2)])
  fix x s d assume "same_file v f w x"
  moreover have "same_file v f x (effect os x (Strtok s d))" using assms(1) unfolding file_store_def by blast
  ultimately show "same_file v f w (effect os x (Strtok s d))" by (rule same_file_trans)
qed simp

lemma file_store_get:
  assumes "file_store os v f"
  shows "merkle_of v w f = None \<Longrightarrow> ret (answer os w (On_path (Getxattr ''merkle'' n) f)) < 0"
    "merkle_of v w f = Some s \<Longrightarrow> length s \<le> n \<Longrightarrow> n < 2 ^ 31 \<Longrightarrow>
      answer os w (On_path (Getxattr ''merkle'' n) f) = \<lparr>ret = int (length s), payload = Some s\<rparr>"
proof -
  have "case merkle_of v w f of None \<Rightarrow> ret (answer os w (On_path (Getxattr ''merkle'' n) f)) < 0
     | Some s \<Rightarrow> length s \<le> n \<and> n < 2 ^ 31 \<longrightarrow>
         answer os w (On_path (Getxattr ''merkle'' n) f) = \<lparr>ret = int (length s), payload = Some s\<rparr>"
    using assms unfolding file_store_def by blast
  then show "merkle_of v w f = None \<Longrightarrow> ret (answer os w (On_path (Getxattr ''merkle'' n) f)) < 0"
    "merkle_of v w f = Some s \<Longrightarrow> length s \<le> n \<Longrightarrow> n < 2 ^ 31 \<Longrightarrow>
      answer os w (On_path (Getxattr ''merkle'' n) f) = \<lparr>ret = int (length s), payload = Some s\<rparr>" by simp_all
qed

lemma file_store_open: "file_store os v f \<Longrightarrow> payload (answer os w (On_path Fopen f)) = content_of v w f"
  unfolding file_store_def by blast

lemma file_store_set:
  assumes "file_store os v f"
  shows "content_of v (effect os w (On_path (Setxattr ''merkle'' s) f)) f = content_of v w f"
    "path_of v (effect os w (On_path (Setxattr ''merkle'' s) f)) n = Some f \<longleftrightarrow> path_of v w n = Some f"
    "merkle_of v (effect os w (On_path (Setxattr ''merkle'' s) f)) f = Some s"
  using assms unfolding file_store_def Let_def by blast+

lemma file_store_write:
  assumes "file_store os v f" and "path_of v w n = Some f" and "content_of v w f = Some old" and "off \<le> length old"
    and "length d < 2 ^ 31"
  shows "ret (answer os w (On_fd (Pwrite d (int off)) n)) = int (length d)"
    "content_of v (effect os w (On_fd (Pwrite d (int off)) n)) f = Some (write_at old off d)"
    "merkle_of v (effect os w (On_fd (Pwrite d (int off)) n)) f = merkle_of v w f"
    "path_of v (effect os w (On_fd (Pwrite d (int off)) n)) k = Some f \<longleftrightarrow> path_of v w k = Some f"
  using assms unfolding file_store_def Let_def by blast+


section \<open>One write\<close>

lemma c_int_small: "n < 2 ^ 31 \<Longrightarrow> c_int (int n) = Inr n"
  by (simp add: c_int_def fits_int_def)

text \<open>Memory in which nothing goes wrong by accident.\<close>

definition starts_nul :: "string \<Rightarrow> bool" where
  "starts_nul s \<longleftrightarrow> s \<noteq> [] \<and> hd s = nul"

definition heap_ok :: "heap \<Rightarrow> bool" where
  "heap_ok hp \<longleftrightarrow> clean (memory_of hp) \<and> pages_written (memory_of hp) \<and>
     starts_nul (behind_file hp) \<and> starts_nul (behind_attr hp) \<and> starts_nul (behind_buf hp)"

lemma c_string_starts_nul: "is_c_string s \<Longrightarrow> starts_nul r \<Longrightarrow> c_string (s @ r) = Inr s"
  by (cases r) (simp_all add: starts_nul_def)

lemma runs_fullpath [run_rules]:
  assumes "posix (sys env)" and "length (rootdir env) + length path < path_max env" and "P (rootdir env @ path) w"
  shows "runs (bb_fullpath env path) w P"
  using assms unfolding bb_fullpath_def by (auto simp: Let_def intro!: run_rules)

lemma set_join: "set (join c ws) \<subseteq> insert c (\<Union> (set ` set ws))"
  by (induction c ws rule: join.induct) auto

lemma join_not_Nil: "w \<noteq> [] \<Longrightarrow> join c (w # ws) \<noteq> []"
  by (cases ws) simp_all

lemma text_of_props:
  assumes "\<forall>h\<in>set hs. is_hash h" and "length hs = 2 ^ k" and "k < 23"
  shows "is_c_string (text_of hs)" and "text_of hs \<noteq> []" and "length (text_of hs) < 150 * length hs"
proof -
  let ?T = "tree_of hs"
  note T = tree_of_inv [OF assms]
  have p: "printable_tree ?T" using T inv_lessons by (simp add: printable_tree_def)
  have e: "tree_text ?T = text_of hs" using tree_text_leaves [OF T(1)] T(3) by simp
  have nb: "nb_nodes ?T = 2 * length hs" by (simp add: tree_of_def)
  show "length (text_of hs) < 150 * length hs" using tree_text_length [OF p] e nb by simp
  have w: "w \<noteq> [] \<and> nul \<notin> set w" if "w \<in> set (map (entry ?T) [1..<nb_nodes ?T])" for w
  proof -
    obtain i where i: "1 \<le> i" "i < nb_nodes ?T" "w = entry ?T i" using \<open>w \<in> _\<close> by (auto simp del: upt_Suc)
    have "is_hash (hash_at ?T i)" "i < 10 ^ 9"
      using i printable_hash [OF p, of i] printable_nb [OF p] by (auto simp: has_hash_def)
    from entry_props [OF this] show ?thesis unfolding i(3) by simp
  qed
  have "set (text_of hs) \<subseteq> insert CHR '','' (\<Union> (set ` set (map (entry ?T) [1..<nb_nodes ?T])))"
    unfolding e [symmetric] tree_text_def by (rule set_join)
  then show "is_c_string (text_of hs)" using w unfolding is_c_string_def by blast
  have "[1..<nb_nodes ?T] = 1 # [Suc 1..<nb_nodes ?T]"
    using printable_nb(2) [OF p] by (intro upt_conv_Cons) simp
  then show "text_of hs \<noteq> []"
    unfolding e [symmetric] tree_text_def using w [of "entry ?T 1"] by (simp add: join_not_Nil)
qed

text \<open>The attribute of a file that is not too long to be read as an \<open>int\<close>.\<close>

abbreviation file_text :: "string \<Rightarrow> string" where
  "file_text c \<equiv> text_of (map digest_string (padded_pages c))"

lemma pages_text_props:
  assumes "good_file slack c" and "length ps = length (padded_pages c)"
  shows "is_c_string (text_of (map digest_string ps))" "text_of (map digest_string ps) \<noteq> []"
    "length (text_of (map digest_string ps)) \<le> MAX_TREE_SIZE"
proof -
  let ?hs = "map digest_string ps" and ?k = "file_height c - 1"
  have pc: "length ps = 2 ^ ?k" "file_height c \<le> 17"
    using file_page_count [OF assms(1)] assms(2) by (auto simp: page_count_def)
  have h: "\<forall>h\<in>set ?hs. is_hash h" by auto
  have l: "length ?hs = 2 ^ ?k" "?k < 23" using pc by simp_all
  note t = text_of_props [OF h l]
  show "is_c_string (text_of ?hs)" "text_of ?hs \<noteq> []" using t by blast+
  have "(2::nat) ^ ?k \<le> 2 ^ 16" using pc(2) by (intro power_increasing) simp_all
  then show "length (text_of ?hs) \<le> MAX_TREE_SIZE" using t(3) l(1) by (simp add: MAX_TREE_SIZE_def)
qed

lemmas file_text_props = pages_text_props [OF _ refl]

text \<open>Writes the two update functions can handle.\<close>

definition tracked_write :: "string \<Rightarrow> nat \<Rightarrow> string \<Rightarrow> bool" where
  "tracked_write old off d \<longleftrightarrow>
     d \<noteq> [] \<and> is_c_string d \<and> off \<le> length old \<and> off + length d + 1 < 2 ^ 31 \<and>
     (if off mod PAGE_LENGTH = 0 then
        length d \<le> PAGE_LENGTH \<and> (length d = PAGE_LENGTH \<or> length old \<le> off + length d)
      else
        (let new = write_at old off d; n = length (padded_pages old); f = off div PAGE_LENGTH;
             k = (off + length d - 1) div PAGE_LENGTH - f + 1
         in length new \<le> n * PAGE_LENGTH \<and> length new < (f + k) * PAGE_LENGTH \<and>
            (f = 0 \<or> (n + f) div 2 + k div 2 < n) \<and> k * PAGE_LENGTH < 2 ^ 31))"

lemma good_write:
  assumes "good_file slack old" and "starts_nul slack'" and "is_c_string d" and "d \<noteq> []"
    and "off \<le> length old" and "off + length d + 1 < 2 ^ 31"
  shows "good_file slack' (write_at old off d)"
proof -
  have "length (write_at old off d) + 1 < 2 ^ 31"
    using length_write_at [OF assms(5)] assms(1,6) by (simp add: good_file_def)
  moreover have "is_c_string (write_at old off d)"
    using assms(1,3) unfolding write_at_def good_file_def is_c_string_def
    by (auto dest: in_set_takeD in_set_dropD)
  ultimately show ?thesis using assms(2,4) by (simp add: good_file_def starts_nul_def write_at_def)
qed

text \<open>
  What the tree functions make of the text \<open>s\<close> when \<open>d\<close> has been written and the file is \<open>new\<close>: the text \<open>s'\<close>,
  by \<open>quick_change\<close> or, when that refuses, by \<open>pages_in_need\<close>.
\<close>

definition tree_update :: "heap \<Rightarrow> string \<Rightarrow> nat \<Rightarrow> string \<Rightarrow> string \<Rightarrow> string \<Rightarrow> bool" where
  "tree_update hp s off d new s' \<longleftrightarrow> (\<exists>R T.
     string_to_tree (memory_of hp) (uninit_tree hp) s = Inr R \<and>
     (quick_change (memory_of hp) (length d) off (buf_ptr hp d) R Wild = Inr (0, T, Str s') \<or>
      quick_change (memory_of hp) (length d) off (buf_ptr hp d) R Wild = Inr (-2, R, Wild) \<and>
      pages_in_need (memory_of hp) (behind_file hp) (length d) off R (Some new) Wild = Inr (0, T, Str s')))"

lemma tracked_update:
  assumes "heap_ok hp" and "good_file (behind_file hp) old" and "tracked_write old off d"
  shows "tree_update hp (file_text old) off d (write_at old off d) (file_text (write_at old off d))"
proof -
  have m: "clean (memory_of hp)" "pages_written (memory_of hp)" "starts_nul (behind_file hp)"
    "starts_nul (behind_buf hp)" using assms(1) by (simp_all add: heap_ok_def)
  obtain R where R: "string_to_tree (memory_of hp) (uninit_tree hp) (file_text old) = Inr R" "merkle_inv R"
    "tree_height R < 23" "freeable R" "leaf_hashes R = map digest_string (padded_pages old)"
    using read_file_text [OF assms(2) m(2)] by blast
  have d: "d \<noteq> []" "is_c_string d" "off \<le> length old" "off + length d + 1 < 2 ^ 31"
    using assms(3) by (auto simp: tracked_write_def)
  have ne: "old \<noteq> []" using assms(2) by (simp add: good_file_def)
  have buf: "buf_ptr hp d = Str d" using c_string_starts_nul [OF d(2) m(4)] by (simp add: buf_ptr_def)
  show ?thesis
  proof (cases "off mod PAGE_LENGTH = 0")
    case True
    then have off: "off = off div PAGE_LENGTH * PAGE_LENGTH" by auto
    have "length d \<le> PAGE_LENGTH" "length d = PAGE_LENGTH \<or> length old \<le> off + length d"
      using assms(3) True by (simp_all add: tracked_write_def)
    then have "\<exists>T. quick_change (memory_of hp) (length d) (off div PAGE_LENGTH * PAGE_LENGTH) (Str d) R Wild =
        Inr (0, T, Str (file_text (write_at old (off div PAGE_LENGTH * PAGE_LENGTH) d)))"
      using off d(3) by (intro quick_change_write [OF m(1,2) R(2-5) ne d(1)]) simp_all
    then show ?thesis using R(1) buf off by (auto simp: tree_update_def)
  next
    case False
    let ?f = "off div PAGE_LENGTH" and ?n = "length (padded_pages old)"
    let ?k = "(off + length d - 1) div PAGE_LENGTH - ?f + 1"
    have t: "length (write_at old off d) \<le> ?n * PAGE_LENGTH" "length (write_at old off d) < (?f + ?k) * PAGE_LENGTH"
      "?f = 0 \<or> (?n + ?f) div 2 + ?k div 2 < ?n" "?k * PAGE_LENGTH < 2 ^ 31"
      using assms(3) False unfolding tracked_write_def Let_def by (simp_all only: if_False simp_thms)
    have g: "good_file (behind_file hp) (write_at old off d)" using assms(2) m(3) d(2,1,3,4) by (rule good_write)
    have "quick_change (memory_of hp) (length d) off (buf_ptr hp d) R Wild = Inr (-2, R, Wild)"
      using False by (simp add: quick_change_def is_full_def)
    then show ?thesis
      using R(1) pages_in_need_write [OF m(1) R(2-5) ne g refl d(1,3) t(1) refl refl t(2-4)]
      unfolding tree_update_def by blast
  qed
qed

text \<open>The attribute is set and the stream is closed.\<close>

lemma runs_set_merkle [run_rules]:
  assumes "posix (sys env)" and "P () (effect (sys env) w (On_path (Setxattr ''merkle'' s) f))"
  shows "runs (set_merkle env f (Str s)) w P"
  unfolding set_merkle_def using assms by (auto intro!: run_rules)

lemma runs_close [run_rules]:
  assumes "posix (sys env)" and "P () (effect (sys env) w Fclose)"
  shows "runs (close_stream env (Some c)) w P"
  unfolding close_stream_def using assms by (auto intro!: run_rules)

text \<open>The file at \<open>f\<close> has the content \<open>c\<close> and the text of its tree as attribute.\<close>

definition tree_current :: "'w store_view \<Rightarrow> 'w \<Rightarrow> string \<Rightarrow> string \<Rightarrow> bool" where
  "tree_current v w f c \<longleftrightarrow> content_of v w f = Some c \<and> merkle_of v w f = Some (file_text c)"

lemma runs_update_merkle:
  assumes "posix (sys env)" and "file_store (sys env) v f" and "heap_ok hp"
    and "is_c_string s" and "length d < 2 ^ 31" and "off < 2 ^ 31"
    and "tree_update hp s off d new s'" and "content_of v w f = Some new"
  shows "runs (update_merkle env hp f s d (int off)) w (\<lambda>result w'. is_set result = Inr True \<and>
    content_of v w' f = Some new \<and> merkle_of v w' f = Some s' \<and> (\<forall>n. path_of v w' n = Some f \<longleftrightarrow> path_of v w n = Some f))"
proof -
  note os = assms(1) and st = assms(2)
  have c: "c_string (s @ behind_attr hp) = Inr s"
    using assms(3,4) by (intro c_string_starts_nul) (simp_all add: heap_ok_def)
  have i: "c_int (int (length d)) = Inr (length d)" "c_int (int off) = Inr off"
    using assms(5,6) by (simp_all add: c_int_small)
  note keep = file_store_keeps [OF st, unfolded same_file_def] file_store_set [OF st] file_store_open [OF st]
  note tok = file_store_tokenizer [OF st]
  note lock = tokenizer.lock [OF tok]
    and same = file_store_strtok [OF st, unfolded same_file_def]
  obtain R T where R: "string_to_tree (memory_of hp) (uninit_tree hp) s = Inr R" and
    "quick_change (memory_of hp) (length d) off (buf_ptr hp d) R Wild = Inr (0, T, Str s') \<or>
      quick_change (memory_of hp) (length d) off (buf_ptr hp d) R Wild = Inr (-2, R, Wild) \<and>
      pages_in_need (memory_of hp) (behind_file hp) (length d) off R (Some new) Wild = Inr (0, T, Str s')"
    using assms(7) unfolding tree_update_def by blast
  then show ?thesis
    unfolding update_merkle_def
    by (elim disjE conjE) (auto simp: R c i keep lock assms(8) intro!: run_rules tokenizer.runs_read [OF tok _ R] os dest!: same)
qed

text \<open>The first write of a file that has no attribute.\<close>

definition first_write :: "heap \<Rightarrow> string \<Rightarrow> nat \<Rightarrow> string \<Rightarrow> bool" where
  "first_write hp old off d \<longleftrightarrow>
     d \<noteq> [] \<and> is_c_string d \<and> is_c_string old \<and> off \<le> length old \<and>
     length (write_at old off d) \<le> 2 ^ 30 \<and> length (write_at old off d) \<noteq> 8 * PAGE_LENGTH \<and>
     (length (write_at old off d) < 8 * PAGE_LENGTH \<or> (\<forall>i<8. spawns (memory_of hp) i))"

lemma m_compute_merkle_text:
  assumes "clean m" and "good_file slack c" and "length c \<le> 2 ^ 30" and "length c \<noteq> 8 * PAGE_LENGTH"
    and "length c < 8 * PAGE_LENGTH \<or> (\<forall>i<8. spawns m i)"
  shows "m_compute_merkle m sched slack (Some c) mt result 8 = Inr (0, file_tree m mt c, Str (file_text c))"
proof (cases "length c < 8 * PAGE_LENGTH")
  case True
  then have "length c div PAGE_LENGTH < 8" by (simp add: div_less_iff_less_mult)
  moreover have "int_file_size c = Inr (length c)"
    using assms(2) by (simp add: int_file_size_ok good_file_def)
  ultimately show ?thesis
    using compute_merkle_text [OF assms(1-3)] by (simp add: m_compute_merkle_def)
next
  case False
  have e: "(2::nat) ^ 3 = 8" by simp
  have "2 ^ 3 * PAGE_LENGTH < length c" "\<forall>i<2 ^ 3. spawns m i" using False assms(4,5) unfolding e by simp_all
  from m_compute_merkle_good [OF assms(1-3) this(2,1)] show ?thesis
    using compute_merkle_good [OF assms(1-3)] compute_merkle_text [OF assms(1-3)] unfolding e by simp
qed

lemma good_first_write:
  assumes "heap_ok hp" and "first_write hp old off d"
  shows "good_file (behind_file hp) (write_at old off d)"
proof -
  have d: "off \<le> length old" using assms(2) by (simp add: first_write_def)
  have "is_c_string (write_at old off d)"
    using assms(2) unfolding write_at_def first_write_def is_c_string_def
    by (auto dest: in_set_takeD in_set_dropD)
  moreover have "length (write_at old off d) + 1 < 2 ^ 31" using assms(2) by (simp add: first_write_def)
  moreover have "write_at old off d \<noteq> []" using assms(2) by (simp add: first_write_def write_at_def)
  ultimately show ?thesis using assms(1) unfolding good_file_def heap_ok_def starts_nul_def by blast
qed

lemma runs_first_merkle:
  assumes "posix (sys env)" and "file_store (sys env) v f" and "heap_ok hp" and "first_write hp old off d"
    and "content_of v w f = Some (write_at old off d)"
  shows "runs (first_merkle env hp f) w
    (\<lambda>result w'. is_set result = Inr True \<and> tree_current v w' f (write_at old off d) \<and> (\<forall>n. path_of v w' n = Some f \<longleftrightarrow> path_of v w n = Some f))"
proof -
  note os = assms(1) and st = assms(2)
  have "m_compute_merkle (memory_of hp) (schedule hp) (behind_file hp) (Some (write_at old off d)) (uninit_tree hp) Wild 8 =
    Inr (0, file_tree (memory_of hp) (uninit_tree hp) (write_at old off d), Str (file_text (write_at old off d)))"
    using assms(3,4) good_first_write [OF assms(3,4)]
    by (intro m_compute_merkle_text) (simp_all add: first_write_def heap_ok_def)
  moreover note keep = file_store_keeps [OF st, unfolded same_file_def] file_store_set [OF st] file_store_open [OF st]
  ultimately show ?thesis
    unfolding first_merkle_def
    by (auto simp: keep tree_current_def assms(5) intro!: run_rules os)
qed

text \<open>A write that the tree follows, on a file with its tree or without one.\<close>

definition followed :: "'w store_view \<Rightarrow> 'w \<Rightarrow> string \<Rightarrow> heap \<Rightarrow> string \<Rightarrow> nat \<Rightarrow> string \<Rightarrow> bool" where
  "followed v w f hp old off d \<longleftrightarrow> heap_ok hp \<and>
     (tree_current v w f old \<and> good_file (behind_file hp) old \<and> tracked_write old off d \<or>
      content_of v w f = Some old \<and> merkle_of v w f = None \<and> first_write hp old off d)"

text \<open>A write that changes the text of a tree.\<close>

lemma runs_bb_write_update:
  assumes "posix (sys env)" and "file_store (sys env) v (rootdir env @ path)"
    and "length (rootdir env) + length path < path_max env" and "path_of v w (fh fi) = Some (rootdir env @ path)"
    and "heap_ok hp" and "length d < 2 ^ 31" and "off < 2 ^ 31"
    and "content_of v w (rootdir env @ path) = Some old" and "off \<le> length old"
    and "merkle_of v w (rootdir env @ path) = Some s" and "is_c_string s" and "s \<noteq> []" and "length s \<le> MAX_TREE_SIZE"
    and "tree_update hp s off d (write_at old off d) s'"
  shows "runs (bb_write env hp path d (int off) fi) w (\<lambda>k w'. k = int (length d) \<and>
    content_of v w' (rootdir env @ path) = Some (write_at old off d) \<and> merkle_of v w' (rootdir env @ path) = Some s' \<and>
    (\<forall>n. path_of v w' n = Some (rootdir env @ path) \<longleftrightarrow> path_of v w n = Some (rootdir env @ path)))"
proof -
  let ?f = "rootdir env @ path"
  note os = assms(1) and st = assms(2)
  let ?w1 = "effect (sys env) w (On_fd (Pwrite d (int off)) (fh fi))"
  let ?w2 = "effect (sys env) ?w1 (On_path (Getxattr ''merkle'' MAX_TREE_SIZE) ?f)"
  note wr = file_store_write [OF st assms(4,8,9,6)]
  note keep = file_store_keeps(4) [OF st, of ?w1 MAX_TREE_SIZE, unfolded same_file_def]
  have c2: "content_of v ?w2 ?f = Some (write_at old off d)" using wr keep by simp
  have "merkle_of v ?w1 ?f = Some s" using wr(3) assms(10) by simp
  note g = file_store_get(2) [OF st this assms(13) MAX_TREE_SIZE_int]
  from runs_update_merkle [OF os st assms(5,11,6,7,14) c2] show ?thesis
    unfolding bb_write_def
    by (auto intro!: run_rules os assms(3) elim!: runs_mono simp: wr g keep assms(12))
qed

lemma runs_bb_write:
  assumes "posix (sys env)" and "file_store (sys env) v (rootdir env @ path)"
    and "length (rootdir env) + length path < path_max env" and "path_of v w (fh fi) = Some (rootdir env @ path)"
    and "followed v w (rootdir env @ path) hp old off d"
  shows "runs (bb_write env hp path d (int off) fi) w (\<lambda>k w'. k = int (length d) \<and>
    tree_current v w' (rootdir env @ path) (write_at old off d) \<and> (\<forall>n. path_of v w' n = Some (rootdir env @ path) \<longleftrightarrow> path_of v w n = Some (rootdir env @ path)))"
proof -
  let ?f = "rootdir env @ path"
  note os = assms(1) and st = assms(2)
  have hp: "heap_ok hp" using assms(5) by (simp add: followed_def)
  show ?thesis
  proof (cases "merkle_of v w ?f")
    case None
    then have fw: "first_write hp old off d" and c: "content_of v w ?f = Some old"
      using assms(5) by (simp_all add: followed_def tree_current_def)
    let ?w1 = "effect (sys env) w (On_fd (Pwrite d (int off)) (fh fi))"
    let ?w2 = "effect (sys env) ?w1 (On_path (Getxattr ''merkle'' MAX_TREE_SIZE) ?f)"
    have o: "off \<le> length old" using fw by (simp add: first_write_def)
    have "length d < 2 ^ 31"
      using fw length_write_at [OF o, of d] by (simp add: first_write_def)
    note wr = file_store_write [OF st assms(4) c o this]
    note keep = file_store_keeps(4) [OF st, of ?w1 MAX_TREE_SIZE, unfolded same_file_def]
    have c2: "content_of v ?w2 ?f = Some (write_at old off d)" using wr keep by simp
    have "ret (answer (sys env) ?w1 (On_path (Getxattr ''merkle'' MAX_TREE_SIZE) ?f)) < 0"
      using None wr(3) by (intro file_store_get(1) [OF st]) simp
    then have "\<not> 0 < ret (answer (sys env) ?w1 (On_path (Getxattr ''merkle'' MAX_TREE_SIZE) ?f))" by simp
    then show ?thesis
      unfolding bb_write_def using runs_first_merkle [OF os st hp fw c2]
      by (auto intro!: run_rules os assms(3) elim!: runs_mono simp: wr keep)
  next
    case (Some s)
    then have s: "s = file_text old" "good_file (behind_file hp) old" "tracked_write old off d" "content_of v w ?f = Some old"
      using assms(5) by (auto simp: followed_def tree_current_def)
    then have d: "length d < 2 ^ 31" "off < 2 ^ 31" "off \<le> length old" by (simp_all add: tracked_write_def)
    note t = tracked_update [OF hp s(2,3)] and p = file_text_props [OF s(2)]
    from runs_bb_write_update [OF os st assms(3,4) hp d(1,2) s(4) d(3) Some [unfolded s(1)] p t] show ?thesis
      by (simp add: tree_current_def conj_assoc)
  qed
qed

end
