(* ===== verification/Update_Properties.thy ===== *)
theory Update_Properties
  imports Update
begin

text \<open>
  What \<open>quick_change\<close>, \<open>pages_in_need\<close> and \<open>root_calculation\<close> do to the string of a tree, stated
  over the list of leaf hashes behind it.
\<close>


section \<open>Sample memory\<close>

definition zeroed_memory :: memory where
  "zeroed_memory = \<lparr>fresh_node = (\<lambda>i. \<lparr>data = Null, hash = Null\<rparr>), tail = (\<lambda>mt i. [nul]), spawns = (\<lambda>i. True)\<rparr>"

lemma zeroed_simps [simp]: "clean zeroed_memory" "pages_written zeroed_memory"
  by (simp_all add: zeroed_memory_def clean_def pages_written_def)

lemma freeable_abc [simp]: "freeable tree_abc"
  using sample_full_inv(1) by (auto simp: freeable_def full_inv_def leaf_ok_def)

lemma shaped_abc [simp]: "shaped tree_abc" and merkle_inv_abc [simp]: "merkle_inv tree_abc"
  using sample_full_inv(1) inv_lessons by blast+


section \<open>Properties\<close>

text \<open>
  C24: \<open>quick_change\<close> at a page boundary, on a tree of at most \<open>2 ^ 21\<close> leaves. The string that comes back is the text of the leaf hashes
  with the hash of the page in its place; when the page lies behind the tree, the leaf hashes are
  first doubled with the hash of the filler. The size of the write plays no role.
\<close>

theorem quick_change_replaces_hash:
  assumes "clean m" and "pages_written m" and "merkle_inv mt" and "tree_height mt < 23" and "freeable mt"
    and "p < 2 * first_leaf mt" and "fits_leaf s"
  shows "\<exists>T. quick_change m wsize (p * PAGE_LENGTH) (Str s) mt result = Inr (0, T, Str (text_of
    ((leaf_hashes mt @ (if p < first_leaf mt then [] else replicate (first_leaf mt) space_hash))
      [p := digest_string s])))"
proof (cases "p < first_leaf mt")
  case True
  then show ?thesis using quick_change_place [OF assms(1,3) _ assms(5) True assms(7)] assms(4) by simp
next
  case False
  then show ?thesis using quick_change_grow [OF assms(1-5) _ assms(6,7)] by simp
qed

theorem quick_change_replaces_hash_witness:
  "\<exists>T. quick_change zeroed_memory 3 (3 * PAGE_LENGTH) (Str ''abc'') tree_abc Null = Inr (0, T, Str (text_of
    ((leaf_hashes tree_abc @ (if 3 < first_leaf tree_abc then [] else replicate (first_leaf tree_abc) space_hash))
      [3 := digest_string ''abc''])))"
  by (rule quick_change_replaces_hash) (simp_all add: fits_leaf_def size_defs)

text \<open>
  \<open>quick_change\<close> returns -2 away from a page boundary and -1 for a page that a tree of twice
  the size does not have, and leaves tree and result alone.
\<close>

theorem quick_change_refuses:
  assumes "clean m" and "merkle_inv mt" and "tree_height mt < 30" and "fits_leaf s"
    and "offset mod PAGE_LENGTH \<noteq> 0 \<or> 2 * first_leaf mt \<le> offset div PAGE_LENGTH"
  shows "quick_change m wsize offset (Str s) mt result =
    Inr (if offset mod PAGE_LENGTH \<noteq> 0 then -2 else -1, mt, result)"
proof (cases "offset mod PAGE_LENGTH = 0")
  case True
  then have "offset = offset div PAGE_LENGTH * PAGE_LENGTH" by auto
  then show ?thesis
    using quick_change_behind [OF assms(1-3) _ assms(4), of "offset div PAGE_LENGTH"] assms(5) True by simp
qed (simp add: quick_change_def is_full_def)

theorem quick_change_refuses_witness:
  "quick_change zeroed_memory 3 (4 * PAGE_LENGTH) (Str ''abc'') tree_abc Null =
    Inr (if 4 * PAGE_LENGTH mod PAGE_LENGTH \<noteq> 0 then -2 else -1, tree_abc, Null)"
  by (rule quick_change_refuses) (simp_all add: fits_leaf_def size_defs)

text \<open>
  \<open>pages_in_need\<close> after a write inside the file. The new leaf hashes are those of the touched
  pages, but of the last touched page the function hashes at most 65535 bytes, so that a full
  page loses its last byte. The text fits its buffer.
\<close>

theorem pages_in_need_updates:
  assumes "clean m" and "merkle_inv mt" and "tree_height mt < 23" and "freeable mt"
    and "good_file slack content" and "0 < wsize" and "offset + wsize \<le> length content"
    and "length content \<le> first_leaf mt * PAGE_LENGTH"
    and "f = offset div PAGE_LENGTH" and "k = (offset + wsize - 1) div PAGE_LENGTH - f + 1"
    and "first_leaf_ready mt (first_leaf mt + f) k"
    and "hs = take f (leaf_hashes mt) @
      map digest_string (map (page_at content) [f..<f + (k - 1)] @ [take 65535 (drop ((f + k - 1) * PAGE_LENGTH) content)]) @
      drop (f + k) (leaf_hashes mt)"
    and "k * PAGE_LENGTH < 2 ^ 31"
  shows "\<exists>T. pages_in_need m slack wsize offset mt (Some content) result = Inr (0, T, Str (text_of hs))"
  using pages_in_need_run [OF assms(1-11) _ assms(13), of hs] assms(12)
  by (simp add: changed_pages_def size_defs)

theorem pages_in_need_updates_witness:
  "\<exists>T. pages_in_need zeroed_memory [nul] 2 1 tree_abc (Some ''ade'') Null =
    Inr (0, T, Str (text_of (digest_string ''ade'' # drop 1 (leaf_hashes tree_abc))))"
  by (rule pages_in_need_updates [where f = 0 and k = 1])
     (simp_all add: good_file_def size_defs first_leaf_ready_def)

text \<open>
  C7: bringing the tree up to date gives what computing it anew gives. A write inside or at the
  end of a text file of at most \<open>2 ^ 30\<close> bytes that ends in the last page, which is not full, and leaves the tree its size:
  reading the string of the old file and calling \<open>pages_in_need\<close> gives exactly the string
  \<open>compute_merkle\<close> gives for the new file, if the loop over the levels stays away from the first
  leaf.
\<close>

theorem pages_in_need_incremental:
  assumes "clean m" and "pages_written m" and "good_file slack old" and "good_file slack new"
    and "new = write_at old offset d" and "d \<noteq> []" and "offset \<le> length old"
    and "length new \<le> length (padded_pages old) * PAGE_LENGTH"
    and "f = offset div PAGE_LENGTH" and "k = (offset + length d - 1) div PAGE_LENGTH - f + 1"
    and "length new < (f + k) * PAGE_LENGTH"
    and "f = 0 \<or> (length (padded_pages old) + f) div 2 + k div 2 < length (padded_pages old)"
    and "length new \<le> 2 ^ 30"
  shows "\<exists>T T' T'' s s' R. compute_merkle m slack (Some old) mt result = Inr (0, T, Str s) \<and>
    string_to_tree m mt s = Inr R \<and>
    pages_in_need m slack (length d) offset R (Some new) result = Inr (0, T', Str s') \<and>
    compute_merkle m slack (Some new) mt result = Inr (0, T'', Str s')"
proof -
  obtain R where R: "string_to_tree m mt (text_of (map digest_string (padded_pages old))) = Inr R"
    "merkle_inv R" "tree_height R < 23" "freeable R" "leaf_hashes R = map digest_string (padded_pages old)"
    using read_file_text [OF assms(3,2)] by blast
  have ne: "old \<noteq> []" using assms(3) by (simp add: good_file_def)
  have ln: "length new = max (length old) (offset + length d)" unfolding assms(5) by (rule length_write_at [OF assms(7)])
  then have o: "length old \<le> 2 ^ 30" "0 < length d" "offset + length d \<le> length new" using assms(6,13) by simp_all
  note p = touched_pages [OF o(2,3) assms(9,10)]
  have "k \<le> f + k - 1 + 1" by simp
  then have "k * PAGE_LENGTH \<le> (f + k - 1) * PAGE_LENGTH + PAGE_LENGTH"
    using mult_right_mono [of k "f + k - 1 + 1" PAGE_LENGTH] by simp
  then have "k * PAGE_LENGTH < 2 ^ 31" using p(3) assms(13) by (simp add: PAGE_LENGTH_def)
  from pages_in_need_write [OF assms(1) R(2,3,4,5) ne assms(4-12) this] show ?thesis
    using R(1) compute_merkle_text [OF assms(1,3) o(1)] compute_merkle_text [OF assms(1,4,13)] by blast
qed

lemma padded_short: "content \<noteq> [] \<Longrightarrow> length content < 65537 \<Longrightarrow> length (padded_pages content) = 1"
proof -
  assume c: "content \<noteq> []" "length content < 65537"
  then have "(length content + PAGE_LENGTH - 1) div PAGE_LENGTH = 1"
    by (intro div_nat_eqI) (cases content, simp_all add: PAGE_LENGTH_def)
  then show "length (padded_pages content) = 1"
    by (simp add: padded_pages_def Let_def file_pages_def pow2_ceil_def)
qed

theorem pages_in_need_incremental_witness:
  "\<exists>T T' T'' s s' R. compute_merkle zeroed_memory [nul] (Some ''abc'') (empty_tree 0) Null = Inr (0, T, Str s) \<and>
    string_to_tree zeroed_memory (empty_tree 0) s = Inr R \<and>
    pages_in_need zeroed_memory [nul] (length ''de'') 1 R (Some ''ade'') Null = Inr (0, T', Str s') \<and>
    compute_merkle zeroed_memory [nul] (Some ''ade'') (empty_tree 0) Null = Inr (0, T'', Str s')"
  by (rule pages_in_need_incremental [where f = 0 and k = 1])
     (simp_all add: good_file_def padded_short write_at_def PAGE_LENGTH_def)

text \<open>
  C35: with one page more than the tree has leaves, and that page not full, the test at the start
  of \<open>pages_in_need\<close> does not ask for a new tree: a write that reaches the last page makes it
  return -1.
\<close>

theorem pages_in_need_one_page_more:
  assumes "shaped mt" and "good_file slack content" and "0 < wsize" and "offset + wsize = length content"
    and "first_leaf mt * PAGE_LENGTH < length content" and "length content < (first_leaf mt + 1) * PAGE_LENGTH"
  shows "\<exists>T. pages_in_need m slack wsize offset mt (Some content) result = Inr (-1, T, result)"
proof (rule pages_in_need_behind [OF assms(1-3)])
  show "length content div PAGE_LENGTH = first_leaf mt"
    using assms(5,6) by (intro div_nat_eqI) (simp_all add: mult.commute)
  show "(offset + wsize - 1) div PAGE_LENGTH = first_leaf mt"
    unfolding assms(4) using assms(5,6) by (intro div_nat_eqI) (simp_all add: mult.commute)
qed (simp add: assms(4))

theorem pages_in_need_one_page_more_witness:
  "\<exists>T. pages_in_need zeroed_memory [nul] 10 131063 tree_abc (Some long_file) Null = Inr (-1, T, Null)"
  by (rule pages_in_need_one_page_more) (simp_all add: good_long length_long PAGE_LENGTH_def)

text \<open>
  \<open>root_calculation\<close> on a tree whose leaves are hashed, whatever its inner nodes hold,
  establishes the invariant and gives the text of its leaf hashes.
\<close>

theorem root_calculation_rehashes:
  assumes "clean m" and "shaped mt" and "\<And>j. first_leaf mt \<le> j \<Longrightarrow> j < nb_nodes mt \<Longrightarrow> has_hash mt j"
    and "tree_height mt < 24" and "freeable mt"
  shows "\<exists>T. root_calculation m mt result = Inr (0, T, Str (text_of (leaf_hashes mt))) \<and> merkle_inv T"
  by (rule root_calculation_text [OF assms])

theorem root_calculation_rehashes_witness:
  "\<exists>T. root_calculation zeroed_memory (set_hash tree_abc 1 Wild) Null =
    Inr (0, T, Str (text_of (leaf_hashes (set_hash tree_abc 1 Wild)))) \<and> merkle_inv T"
proof (rule root_calculation_rehashes)
  have "all_hashed tree_abc" using merkle_inv_abc inv_lessons by blast
  then show "has_hash (set_hash tree_abc 1 Wild) j"
    if "first_leaf (set_hash tree_abc 1 Wild) \<le> j" "j < nb_nodes (set_hash tree_abc 1 Wild)" for j
    using that by (auto simp: all_hashed_def has_hash_def hash_at_def)
  show "freeable (set_hash tree_abc 1 Wild)" using freeable_abc by (simp add: freeable_def)
qed simp_all

text \<open>
  C8: the same for \<open>quick_change\<close>, when the write at a page boundary covers the whole page, or the
  page is the last one and the write reaches the end of the file; the file may grow by a page, but
  not beyond \<open>2 ^ 30\<close> bytes.
\<close>

theorem quick_change_incremental:
  assumes "clean m" and "pages_written m" and "good_file slack old" and "good_file slack new"
    and "new = write_at old (p * PAGE_LENGTH) d" and "d \<noteq> []" and "length d \<le> PAGE_LENGTH"
    and "p * PAGE_LENGTH \<le> length old" and "length d = PAGE_LENGTH \<or> length old \<le> p * PAGE_LENGTH + length d"
    and "length new \<le> 2 ^ 30"
  shows "\<exists>T T' T'' s s' R. compute_merkle m slack (Some old) mt result = Inr (0, T, Str s) \<and>
    string_to_tree m mt s = Inr R \<and>
    quick_change m (length d) (p * PAGE_LENGTH) (Str d) R result = Inr (0, T', Str s') \<and>
    compute_merkle m slack (Some new) mt result = Inr (0, T'', Str s')"
proof -
  obtain R where R: "string_to_tree m mt (text_of (map digest_string (padded_pages old))) = Inr R"
    "merkle_inv R" "tree_height R < 23" "freeable R" "leaf_hashes R = map digest_string (padded_pages old)"
    using read_file_text [OF assms(3,2)] by blast
  have ne: "old \<noteq> []" using assms(3) by (simp add: good_file_def)
  have "length old \<le> length new" unfolding assms(5) length_write_at [OF assms(8)] by simp
  then have o: "length old \<le> 2 ^ 30" using assms(10) by simp
  from quick_change_write [OF assms(1,2) R(2-5) ne assms(6-9), of "length d" result] show ?thesis
    using R(1) compute_merkle_text [OF assms(1,3) o] compute_merkle_text [OF assms(1,4,10)] unfolding assms(5) by blast
qed

theorem quick_change_incremental_witness:
  "\<exists>T T' T'' s s' R. compute_merkle zeroed_memory [nul] (Some ''abc'') (empty_tree 0) Null = Inr (0, T, Str s) \<and>
    string_to_tree zeroed_memory (empty_tree 0) s = Inr R \<and>
    quick_change zeroed_memory (length ''dead'') (0 * PAGE_LENGTH) (Str ''dead'') R Null = Inr (0, T', Str s') \<and>
    compute_merkle zeroed_memory [nul] (Some ''dead'') (empty_tree 0) Null = Inr (0, T'', Str s')"
  by (rule quick_change_incremental) (simp_all add: good_file_def write_at_def PAGE_LENGTH_def)

end
