(* ===== verification/Write_Properties.thy ===== *)
theory Write_Properties
  imports Write Update_Properties
begin

text \<open>
  What \<open>bb_write\<close> does to the attribute of the file: the writes after which the attribute is the
  text of the tree of the file, for one write and for a sequence of them, and the writes after
  which it is not.
\<close>


section \<open>Sequences of writes\<close>

text \<open>Each write with the memory it finds.\<close>

type_synonym one_write = "heap \<times> nat \<times> string"

fun write_all :: "'w mount \<Rightarrow> string \<Rightarrow> file_info \<Rightarrow> one_write list \<Rightarrow> ('w, int list) io" where
  "write_all env path fi [] = return_io []"
| "write_all env path fi ((hp, off, d) # ws) =
     seq_io (bb_write env hp path d (int off) fi) (\<lambda>k.
     seq_io (write_all env path fi ws) (\<lambda>ks. return_io (k # ks)))"

fun written :: "string \<Rightarrow> one_write list \<Rightarrow> string" where
  "written c [] = c"
| "written c ((hp, off, d) # ws) = written (write_at c off d) ws"

fun all_tracked :: "string \<Rightarrow> one_write list \<Rightarrow> bool" where
  "all_tracked c [] \<longleftrightarrow> True"
| "all_tracked c ((hp, off, d) # ws) \<longleftrightarrow>
     heap_ok hp \<and> tracked_write c off d \<and> all_tracked (write_at c off d) ws"

lemma good_file_slack: "good_file s c \<Longrightarrow> starts_nul s' \<Longrightarrow> good_file s' c"
  by (simp add: good_file_def starts_nul_def)

lemma good_tracked: "good_file s c \<Longrightarrow> tracked_write c off d \<Longrightarrow> good_file s (write_at c off d)"
  by (intro good_write [of s]) (simp_all add: tracked_write_def good_file_def starts_nul_def)

lemma runs_write_all:
  assumes "posix (sys env)" and "file_store (sys env) v (rootdir env @ path)" and "length (rootdir env) + length path < path_max env"
    and "path_of v w (fh fi) = Some (rootdir env @ path)" and "tree_current v w (rootdir env @ path) c"
    and "good_file s c" and "all_tracked c ws"
  shows "runs (write_all env path fi ws) w (\<lambda>ks w'. ks = map (\<lambda>(hp, off, d). int (length d)) ws \<and>
    tree_current v w' (rootdir env @ path) (written c ws))"
  using assms(4-7)
proof (induction ws arbitrary: w c)
  case Nil
  then show ?case by (auto intro: run_rules)
next
  case (Cons a ws)
  obtain hp off d where a: "a = (hp, off, d)" by (metis prod_cases3)
  let ?f = "rootdir env @ path" and ?new = "write_at c off d"
  have t: "heap_ok hp" "tracked_write c off d" "all_tracked ?new ws" using Cons.prems(4) a by simp_all
  have "followed v w ?f hp c off d"
    using t Cons.prems(2,3) good_file_slack by (auto simp: followed_def heap_ok_def)
  from runs_bb_write [OF assms(1-3) Cons.prems(1) this]
  have "runs (bb_write env hp path d (int off) fi) w (\<lambda>k w'. runs (write_all env path fi ws) w' (\<lambda>ks w''.
    k # ks = map (\<lambda>(hp, off, d). int (length d)) (a # ws) \<and> tree_current v w'' ?f (written c (a # ws))))"
  proof (rule runs_mono)
    fix k w' assume k: "k = int (length d) \<and> tree_current v w' ?f ?new \<and> (\<forall>n. path_of v w' n = Some ?f \<longleftrightarrow> path_of v w n = Some ?f)"
    have "runs (write_all env path fi ws) w' (\<lambda>ks w''. ks = map (\<lambda>(hp, off, d). int (length d)) ws \<and>
      tree_current v w'' ?f (written ?new ws))"
      using k Cons.prems(1,3) t good_tracked by (intro Cons.IH) auto
    then show "runs (write_all env path fi ws) w' (\<lambda>ks w''.
      k # ks = map (\<lambda>(hp, off, d). int (length d)) (a # ws) \<and> tree_current v w'' ?f (written c (a # ws)))"
      by (rule runs_mono) (use k a in simp)
  qed
  then show ?case unfolding a by (auto intro!: run_rules elim!: runs_mono)
qed


section \<open>A write at a page boundary\<close>

text \<open>
  Between the attribute that has been read and the one that is set there is nothing but the buffer:
  whatever the system does, the new attribute has the hash of the buffer at the place of the page.
\<close>

abbreviation with_page :: "string \<Rightarrow> nat \<Rightarrow> string \<Rightarrow> string" where
  "with_page old off d \<equiv> text_of ((map digest_string (padded_pages old))[off div PAGE_LENGTH := digest_string d])"

text \<open>
  What such a write does after it has got the attribute: the mutex is taken, the tree is read, the mutex is given
  back, and the attribute is set to \<open>s\<close>.
\<close>

definition reads_and_sets :: "'w system \<Rightarrow> string \<Rightarrow> string \<Rightarrow> 'w \<Rightarrow> 'w \<Rightarrow> bool" where
  "reads_and_sets os f s w w' \<longleftrightarrow> (\<exists>u. by_strtok os (effect os w Mutex_lock) u \<and>
     w' = effect os (effect os u Mutex_unlock) (On_path (Setxattr ''merkle'' s) f))"

lemma reads_and_setsI: "by_strtok os (effect os w Mutex_lock) u \<Longrightarrow>
    reads_and_sets os f s w (effect os (effect os u Mutex_unlock) (On_path (Setxattr ''merkle'' s) f))"
  by (auto simp: reads_and_sets_def)

lemma reads_and_sets_effects:
  assumes "file_store os v f" and "reads_and_sets os f s w w'"
  shows "content_of v w' f = content_of v w f" "merkle_of v w' f = Some s"
    "path_of v w' n = Some f \<longleftrightarrow> path_of v w n = Some f"
proof -
  obtain u where u: "by_strtok os (effect os w Mutex_lock) u"
    "w' = effect os (effect os u Mutex_unlock) (On_path (Setxattr ''merkle'' s) f)"
    using assms(2) unfolding reads_and_sets_def by blast
  have "same_file v f w (effect os u Mutex_unlock)"
    using same_file_trans file_store_keeps(1,2) [OF assms(1)] file_store_strtok [OF assms(1) u(1)] by metis
  then show "content_of v w' f = content_of v w f" "merkle_of v w' f = Some s"
    "path_of v w' n = Some f \<longleftrightarrow> path_of v w n = Some f"
    using file_store_set [OF assms(1)] unfolding u(2) by (simp_all add: same_file_def)
qed

lemma runs_update_page:
  assumes "tokenizer (sys env) cur lck" and "heap_ok hp" and "good_file s old" and "off mod PAGE_LENGTH = 0" and "off < 2 ^ 31"
    and "off div PAGE_LENGTH < length (padded_pages old)" and "is_c_string d" and "fits_leaf d"
  shows "runs (update_merkle env hp f (file_text old) d (int off)) w (\<lambda>result w'. is_set result = Inr True \<and>
    reads_and_sets (sys env) f (with_page old off d) w w')"
proof -
  let ?p = "off div PAGE_LENGTH"
  note tok = assms(1)
  note os = tokenizer.os [OF tok]
  have m: "clean (memory_of hp)" "pages_written (memory_of hp)" "starts_nul (behind_attr hp)"
    "starts_nul (behind_buf hp)" using assms(2) by (simp_all add: heap_ok_def)
  obtain R where R: "string_to_tree (memory_of hp) (uninit_tree hp) (file_text old) = Inr R" "merkle_inv R"
    "tree_height R < 23" "freeable R" "leaf_hashes R = map digest_string (padded_pages old)"
    using read_file_text [OF assms(3) m(2)] by blast
  have p: "?p < first_leaf R" using leaf_hashes_first_leaf [OF R(2,5)] assms(6) by simp
  have off: "?p * PAGE_LENGTH = off" using assms(4) by auto
  have buf: "buf_ptr hp d = Str d" using c_string_starts_nul [OF assms(7) m(4)] by (simp add: buf_ptr_def)
  have "tree_height R < 24" using R(3) by simp
  from quick_change_place [OF m(1) R(2) this R(4) p assms(8), of "length d" Wild] obtain T where
    T: "quick_change (memory_of hp) (length d) off (buf_ptr hp d) R Wild = Inr (0, T, Str (with_page old off d))"
    unfolding R(5) buf off by blast
  have c: "c_string (file_text old @ behind_attr hp) = Inr (file_text old)"
    using file_text_props(1) [OF assms(3)] m(3) by (intro c_string_starts_nul)
  have i: "c_int (int (length d)) = Inr (length d)" "c_int (int off) = Inr off"
    using assms(5,8) by (simp_all add: c_int_small fits_leaf_def size_defs)
  show ?thesis
    unfolding update_merkle_def
    by (auto simp: c i T tokenizer.lock [OF tok] intro!: run_rules tokenizer.runs_read [OF tok _ R(1)] os reads_and_setsI)
qed

text \<open>The whole of such a write, when the attribute it reads is the tree of \<open>old\<close>.\<close>

lemma runs_bb_write_page:
  assumes "tokenizer (sys env) cur lck" and "length (rootdir env) + length path < path_max env" and "heap_ok hp"
    and "good_file s old" and "off mod PAGE_LENGTH = 0" and "off < 2 ^ 31"
    and "off div PAGE_LENGTH < length (padded_pages old)" and "is_c_string d" and "fits_leaf d"
    and "w1 = effect (sys env) w (On_fd (Pwrite d (int off)) (fh fi))"
    and "answer (sys env) w1 (On_path (Getxattr ''merkle'' MAX_TREE_SIZE) (rootdir env @ path)) =
      \<lparr>ret = int (length (file_text old)), payload = Some (file_text old)\<rparr>"
    and "w2 = effect (sys env) w1 (On_path (Getxattr ''merkle'' MAX_TREE_SIZE) (rootdir env @ path))"
  shows "runs (bb_write env hp path d (int off) fi) w (\<lambda>k w'.
    status_of (ret (answer (sys env) w (On_fd (Pwrite d (int off)) (fh fi)))) k \<and>
    reads_and_sets (sys env) (rootdir env @ path) (with_page old off d) w2 w')"
  unfolding bb_write_def
  using runs_update_page [OF assms(1,3-9), of "rootdir env @ path" w2] file_text_props(2) [OF assms(4)]
  by (auto intro!: run_rules tokenizer.os [OF assms(1)] assms(2) elim!: runs_mono
      simp: assms(10) [symmetric] assms(11) assms(12) [symmetric])


section \<open>A disk\<close>

text \<open>
  Files, their \<open>merkle\<close> attributes and open descriptors, and the static variable of \<open>strtok\<close>; every other call
  succeeds without effect.
\<close>

record disk =
  files :: "string \<Rightarrow> string option"
  attrs :: "string \<Rightarrow> string option"
  fds :: "int \<Rightarrow> string option"
  cursor :: string

fun disk_call :: "disk \<Rightarrow> sys_call \<Rightarrow> reply \<times> disk" where
  "disk_call w (On_path (Getxattr name n) f) =
     (case attrs w f of
        None \<Rightarrow> (\<lparr>ret = -1, payload = None\<rparr>, w)
      | Some s \<Rightarrow> if name = ''merkle'' \<and> length s \<le> n \<and> n < 2 ^ 31 then (\<lparr>ret = int (length s), payload = Some s\<rparr>, w)
                  else (\<lparr>ret = -1, payload = None\<rparr>, w))"
| "disk_call w (On_path (Setxattr name s) f) =
     (\<lparr>ret = 0, payload = None\<rparr>, if name = ''merkle'' then w\<lparr>attrs := (attrs w)(f \<mapsto> s)\<rparr> else w)"
| "disk_call w (On_path Fopen f) = (\<lparr>ret = 1, payload = files w f\<rparr>, w)"
| "disk_call w (On_fd (Pwrite d off) n) =
     (case fds w n of
        None \<Rightarrow> (\<lparr>ret = -1, payload = None\<rparr>, w)
      | Some f \<Rightarrow>
          (case files w f of
             None \<Rightarrow> (\<lparr>ret = -1, payload = None\<rparr>, w)
           | Some old \<Rightarrow>
               if 0 \<le> off \<and> nat off \<le> length old \<and> length d < 2 ^ 31
               then (\<lparr>ret = int (length d), payload = None\<rparr>, w\<lparr>files := (files w)(f \<mapsto> write_at old (nat off) d)\<rparr>)
               else (\<lparr>ret = -1, payload = None\<rparr>, w)))"
| "disk_call w (On_path (Truncate n) f) =
     (case files w f of
        None \<Rightarrow> (\<lparr>ret = -1, payload = None\<rparr>, w)
      | Some old \<Rightarrow>
          if 0 \<le> n
          then (\<lparr>ret = 0, payload = None\<rparr>,
                w\<lparr>files := (files w)(f \<mapsto> take (nat n) (old @ replicate (nat n - length old) nul))\<rparr>)
          else (\<lparr>ret = -1, payload = None\<rparr>, w))"
| "disk_call w (Strtok s d) =
     (\<lparr>ret = 0, payload = fst (strtok s d (cursor w))\<rparr>, w\<lparr>cursor := snd (strtok s d (cursor w))\<rparr>)"
| "disk_call w c = (\<lparr>ret = 1, payload = None\<rparr>, w)"

definition disk_sys :: "disk system" where
  "disk_sys w e c = (case disk_call w c of (r, w') \<Rightarrow> (r, if ret r < 0 then 5 else e, w'))"

definition disk_view :: "disk store_view" where
  "disk_view = \<lparr>content_of = files, merkle_of = attrs, path_of = fds, cursor_of = cursor, locked = (\<lambda>w. True)\<rparr>"

lemma disk_answer: "answer disk_sys w c = fst (disk_call w c)" "effect disk_sys w c = snd (disk_call w c)"
  by (simp_all add: answer_def effect_def disk_sys_def split: prod.splits)

lemma disk_failed: "failed c (fst (disk_call w c)) \<Longrightarrow> ret (fst (disk_call w c)) < 0"
  by (induction w c rule: disk_call.induct) (auto split: option.splits if_splits)

lemma disk_int: "fits_int (ret (fst (disk_call w c)))"
  by (induction w c rule: disk_call.induct) (auto simp: fits_int_def split: option.splits)

lemma disk_posix [simp]: "posix disk_sys"
  unfolding posix_def disk_answer
proof (intro conjI allI impI)
  fix w e c assume "failed c (fst (disk_call w c))"
  then have "ret (fst (disk_call w c)) < 0" by (rule disk_failed)
  then show "0 < fst (snd (disk_sys w e c))" by (cases "disk_call w c") (simp add: disk_sys_def)
qed (simp_all add: disk_sys_def disk_int split: prod.splits)

interpretation disk_tokens: tokenizer disk_sys cursor "\<lambda>w. True"
  by unfold_locales (simp_all add: disk_answer)

lemma disk_store [simp]: "file_store disk_sys disk_view f"
  using disk_tokens.tokenizer_axioms unfolding file_store_def disk_answer same_file_def Let_def
  by (auto simp: disk_view_def split: option.splits)

text \<open>One file, without and with its attribute.\<close>

definition disk_mount :: "disk mount" where
  "disk_mount = \<lparr>rootdir = ''/r'', path_max = 1024, sys = disk_sys\<rparr>"

definition disk_with :: "string \<Rightarrow> string option \<Rightarrow> disk" where
  "disk_with c a = \<lparr>files = [''/r/a'' \<mapsto> c], attrs = (\<lambda>f. if f = ''/r/a'' then a else None), fds = [3 \<mapsto> ''/r/a''], cursor = []\<rparr>"

definition zeroed_heap :: heap where
  "zeroed_heap = \<lparr>memory_of = zeroed_memory, schedule = [], uninit_tree = empty_tree 0,
     behind_file = [nul], behind_attr = [nul], behind_buf = [nul]\<rparr>"

lemma disk_mount_simps [simp]:
  "sys disk_mount = disk_sys" "rootdir disk_mount = ''/r''" "path_max disk_mount = 1024"
  by (simp_all add: disk_mount_def)

lemma zeroed_heap_simps [simp]:
  "heap_ok zeroed_heap" "memory_of zeroed_heap = zeroed_memory" "behind_file zeroed_heap = [nul]"
  by (simp_all add: heap_ok_def zeroed_heap_def starts_nul_def)

lemma disk_with_simps [simp]:
  "content_of disk_view (disk_with c a) ''/r/a'' = Some c" "merkle_of disk_view (disk_with c a) ''/r/a'' = a"
  "path_of disk_view (disk_with c a) 3 = Some ''/r/a''"
  "files (disk_with c a) ''/r/a'' = Some c" "fds (disk_with c a) n = (if n = 3 then Some ''/r/a'' else None)"
  by (simp_all add: disk_view_def disk_with_def)


section \<open>Properties\<close>

text \<open>
  One write. On a system that keeps its promises, in memory with terminators where the program
  forgets them, \<open>bb_write\<close> returns the number of bytes written and leaves the file with the
  text of its tree as attribute: the first write of a file without attribute, unless the
  file then has eight full pages, and afterwards every write at a page boundary that covers its
  page or reaches the end of the file, and every other write that ends in the last page, which is
  not full, inside the tree.
\<close>

theorem bb_write_keeps_tree:
  assumes "posix (sys env)" and "file_store (sys env) v (rootdir env @ path)"
    and "length (rootdir env) + length path < path_max env" and "path_of v w (fh fi) = Some (rootdir env @ path)"
    and "followed v w (rootdir env @ path) hp old off d"
  shows "runs (bb_write env hp path d (int off) fi) w (\<lambda>k w'. k = int (length d) \<and>
    content_of v w' (rootdir env @ path) = Some (write_at old off d) \<and>
    merkle_of v w' (rootdir env @ path) = Some (text_of (map digest_string (padded_pages (write_at old off d)))))"
  using runs_bb_write [OF assms] by (rule runs_mono) (simp add: tree_current_def)

theorem bb_write_keeps_tree_witness:
  "runs (bb_write disk_mount zeroed_heap ''/a'' ''abc'' (int 0) \<lparr>flags = 1, fh = 3\<rparr>) (disk_with [] None) (\<lambda>k w'. k = int (length ''abc'') \<and>
    content_of disk_view w' (rootdir disk_mount @ ''/a'') = Some (write_at [] 0 ''abc'') \<and>
    merkle_of disk_view w' (rootdir disk_mount @ ''/a'') = Some (text_of (map digest_string (padded_pages (write_at [] 0 ''abc'')))))"
  by (rule bb_write_keeps_tree)
     (simp_all add: followed_def first_write_def write_at_def size_defs zeroed_memory_def)

text \<open>
  A sequence of such writes: every write returns its number of bytes, and in the end the
  attribute is the text of the tree of the file that all of them together have made.
\<close>

theorem bb_write_session:
  assumes "posix (sys env)" and "file_store (sys env) v (rootdir env @ path)" and "length (rootdir env) + length path < path_max env"
    and "path_of v w (fh fi) = Some (rootdir env @ path)" and "tree_current v w (rootdir env @ path) c"
    and "good_file s c" and "all_tracked c ws"
  shows "runs (write_all env path fi ws) w (\<lambda>ks w'. ks = map (\<lambda>(hp, off, d). int (length d)) ws \<and>
    tree_current v w' (rootdir env @ path) (written c ws))"
  by (rule runs_write_all [OF assms])

theorem bb_write_session_witness:
  "runs (write_all disk_mount ''/a'' \<lparr>flags = 1, fh = 3\<rparr> [(zeroed_heap, 3 :: nat, ''de''), (zeroed_heap, 0, ''bbcdef'')])
    (disk_with ''abc'' (Some (file_text ''abc'')))
    (\<lambda>ks w'. ks = map (\<lambda>(hp, off, d). int (length d)) [(zeroed_heap, 3 :: nat, ''de''), (zeroed_heap, 0, ''bbcdef'')] \<and>
      tree_current disk_view w' (rootdir disk_mount @ ''/a'')
        (written ''abc'' [(zeroed_heap, 3 :: nat, ''de''), (zeroed_heap, 0, ''bbcdef'')]))"
  by (rule bb_write_session [where s = "[nul]"])
     (simp_all add: tree_current_def good_file_def tracked_write_def write_at_def padded_short PAGE_LENGTH_def)

text \<open>
  C32: at a page boundary inside the tree the new attribute is made from the buffer, whatever
  \<open>pwrite\<close> did: when the write fails, or is shorter than the page that the file has there, the
  attribute no longer belongs to the file.
\<close>

theorem bb_write_trusts_the_buffer:
  assumes "posix (sys env)" and "file_store (sys env) v (rootdir env @ path)" and "heap_ok hp"
    and "length (rootdir env) + length path < path_max env"
    and "r = answer (sys env) w (On_fd (Pwrite d (int off)) (fh fi))"
    and "w1 = effect (sys env) w (On_fd (Pwrite d (int off)) (fh fi))"
    and "merkle_of v w1 (rootdir env @ path) = Some (text_of (map digest_string (padded_pages old)))"
    and "good_file s old" and "off mod PAGE_LENGTH = 0" and "off < 2 ^ 31"
    and "off div PAGE_LENGTH < length (padded_pages old)" and "is_c_string d" and "fits_leaf d"
  shows "runs (bb_write env hp path d (int off) fi) w (\<lambda>k w'. status_of (ret r) k \<and>
    content_of v w' (rootdir env @ path) = content_of v w1 (rootdir env @ path) \<and>
    merkle_of v w' (rootdir env @ path) =
      Some (text_of ((map digest_string (padded_pages old))[off div PAGE_LENGTH := digest_string d])))"
proof -
  let ?f = "rootdir env @ path"
  let ?g = "On_path (Getxattr ''merkle'' MAX_TREE_SIZE) ?f"
  note st = assms(2)
  have g: "answer (sys env) w1 ?g = \<lparr>ret = int (length (file_text old)), payload = Some (file_text old)\<rparr>"
    using file_store_get(2) [OF st assms(7) file_text_props(3) [OF assms(8)] MAX_TREE_SIZE_int] .
  note keep = file_store_keeps [OF st, unfolded same_file_def] file_store_set [OF st]
  from runs_bb_write_page [OF file_store_tokenizer [OF st] assms(4,3,8-13,6) g refl] show ?thesis
    by (rule runs_mono) (auto simp: assms(5) keep reads_and_sets_effects [OF st])
qed

theorem bb_write_trusts_the_buffer_witness:
  "runs (bb_write disk_mount zeroed_heap ''/a'' ''xyz'' (int 0) \<lparr>flags = 1, fh = 4\<rparr>)
    (disk_with ''abc'' (Some (file_text ''abc''))) (\<lambda>k w'. status_of (ret \<lparr>ret = -1, payload = None\<rparr>) k \<and>
    content_of disk_view w' (rootdir disk_mount @ ''/a'') =
      content_of disk_view (disk_with ''abc'' (Some (file_text ''abc''))) (rootdir disk_mount @ ''/a'') \<and>
    merkle_of disk_view w' (rootdir disk_mount @ ''/a'') =
      Some (text_of ((map digest_string (padded_pages ''abc''))[0 div PAGE_LENGTH := digest_string ''xyz''])))"
  by (rule bb_write_trusts_the_buffer [where s = "[nul]" and old = "''abc''"])
     (simp_all add: disk_answer good_file_def padded_short fits_leaf_def PAGE_LENGTH_def)

text \<open>
  C33: how \<open>bb_write\<close> can end without a value. Without an attribute, when the file cannot be opened
  again, a null stream is closed; a first write that makes exactly eight full pages shifts by a
  negative number.
\<close>

theorem bb_write_faults:
  assumes "posix (sys env)" and "file_store (sys env) v (rootdir env @ path)" and "heap_ok hp"
    and "length (rootdir env) + length path < path_max env"
    and "w1 = effect (sys env) w (On_fd (Pwrite d off) (fh fi))"
    and "merkle_of v w1 (rootdir env @ path) = None"
    and "content_of v w1 (rootdir env @ path) = None \<and> e = Bad_pointer \<or>
      (\<exists>c. content_of v w1 (rootdir env @ path) = Some c \<and> is_c_string c \<and> length c = 8 * PAGE_LENGTH \<and>
        e = Bad_shift)"
  shows "faults (bb_write env hp path d off fi) w e"
proof -
  let ?f = "rootdir env @ path" and ?g = "On_path (Getxattr ''merkle'' MAX_TREE_SIZE) (rootdir env @ path)"
  note os = assms(1) and st = assms(2)
  let ?w2 = "effect (sys env) w1 ?g"
  have g: "ret (answer (sys env) w1 ?g) < 0" using assms(6) by (rule file_store_get(1) [OF st])
  then have g': "\<not> 0 < ret (answer (sys env) w1 ?g)" by simp
  note keep = file_store_keeps [OF st, unfolded same_file_def] file_store_open [OF st]
  have go: "faults (bb_write env hp path d off fi) w e" if "faults (first_merkle env hp ?f) ?w2 e" for e
    unfolding bb_write_def using faults_seq [OF that]
    by (auto intro!: fault_rules faults_after [OF runs_fullpath] os assms(4) simp: assms(5) [symmetric] g')
  have first: "faults (first_merkle env hp ?f) ?w2 e"
    if "faults (seq_io (lift_io (m_compute_merkle (memory_of hp) (schedule hp) (behind_file hp) (content_of v w1 ?f)
        (uninit_tree hp) Wild 8)) (\<lambda>(r, mt, result).
      seq_io (if r \<noteq> -1 then set_merkle env ?f result else return_io ()) (\<lambda>_.
      seq_io (close_stream env (content_of v w1 ?f)) (\<lambda>_. return_io result))))
      (effect (sys env) ?w2 (On_path Fopen ?f)) e" for e
    unfolding first_merkle_def using that by (auto intro!: fault_rules os simp: keep)
  show ?thesis
    using assms(7)
  proof (elim disjE exE conjE)
    assume n: "content_of v w1 ?f = None" and e: "e = Bad_pointer"
    have "m_compute_merkle (memory_of hp) (schedule hp) (behind_file hp) None (uninit_tree hp) Wild 8 =
      Inr (-1, uninit_tree hp, Wild)" by (simp add: m_compute_merkle_def)
    then show ?thesis
      unfolding e by (intro go first faults_after) (simp add: n close_stream_def io_defs faults_def)
  next
    fix c assume c: "content_of v w1 ?f = Some c" "is_c_string c" "length c = 8 * PAGE_LENGTH" and e: "e = Bad_shift"
    then have "good_file (behind_file hp) c"
      using assms(3) by (auto simp: good_file_def heap_ok_def starts_nul_def size_defs)
    moreover have "length c \<le> 2 ^ 30" using c(3) by (simp add: size_defs)
    ultimately have "m_compute_merkle (memory_of hp) (schedule hp) (behind_file hp) (Some c) (uninit_tree hp) Wild (2 ^ 3) = Inl Bad_shift"
      using c by (intro m_compute_one_page_each) simp_all
    then show ?thesis unfolding e using c by (intro go first) (auto intro!: faults_seq)
  qed
qed

theorem bb_write_faults_witness:
  "faults (bb_write disk_mount zeroed_heap ''/a'' ''xyz'' (int 524285) \<lparr>flags = 1, fh = 3\<rparr>)
    (disk_with (replicate 524285 CHR ''a'') None) Bad_shift"
proof (rule bb_write_faults)
  let ?w = "disk_with (replicate 524285 CHR ''a'') None"
  let ?w1 = "effect (sys disk_mount) ?w (On_fd (Pwrite ''xyz'' (int 524285)) 3)"
  have l: "length (replicate 524285 CHR ''a'') = 524285" by (rule length_replicate)
  note wr = file_store_write [OF disk_store disk_with_simps(3,1), of 524285 "replicate 524285 CHR ''a''" "''xyz''" None]
  show "merkle_of disk_view ?w1 (rootdir disk_mount @ ''/a'') = None"
    using wr(3) by simp
  have "is_c_string (write_at (replicate 524285 CHR ''a'') 524285 ''xyz'')"
    by (simp add: write_at_def is_c_string_def)
  moreover have "length (write_at (replicate 524285 CHR ''a'') 524285 ''xyz'') = 8 * PAGE_LENGTH"
    by (simp add: length_write_at PAGE_LENGTH_def)
  moreover have "content_of disk_view ?w1 (rootdir disk_mount @ ''/a'') =
    Some (write_at (replicate 524285 CHR ''a'') 524285 ''xyz'')"
    using wr(2) by simp
  ultimately show "content_of disk_view ?w1 (rootdir disk_mount @ ''/a'') = None \<and> Bad_shift = Bad_pointer \<or>
    (\<exists>c. content_of disk_view ?w1 (rootdir disk_mount @ ''/a'') = Some c \<and> is_c_string c \<and>
      length c = 8 * PAGE_LENGTH \<and> Bad_shift = Bad_shift)" by blast
qed simp_all

end
