(* ===== verification/Interference.thy ===== *)
theory Interference
  imports Write_Properties
begin

text \<open>
  FUSE calls \<open>bb_write\<close> from several threads. What else happens between the calls of one of them:
  activity that leaves its file alone, and a second write to the same file.
\<close>


section \<open>Activity between the calls\<close>

text \<open>
  The system one thread sees while others are active: before its call number \<open>t\<close> that is more than a
  message the others have turned the world \<open>w\<close> into \<open>others t h w\<close>, where \<open>h\<close> says whether the thread holds the
  mutex. The world is taken together with the number of calls and with \<open>h\<close>; a given execution of the other
  threads is one such function.
\<close>

fun prints :: "sys_call \<Rightarrow> bool" where
  "prints (Log s) \<longleftrightarrow> True"
| "prints c \<longleftrightarrow> False"

fun holds :: "sys_call \<Rightarrow> bool \<Rightarrow> bool" where
  "holds Mutex_lock h \<longleftrightarrow> True"
| "holds Mutex_unlock h \<longleftrightarrow> False"
| "holds c h \<longleftrightarrow> h"

definition amid :: "(nat \<Rightarrow> bool \<Rightarrow> 'w \<Rightarrow> 'w) \<Rightarrow> 'w system \<Rightarrow> ('w \<times> nat \<times> bool) system" where
  "amid others os s e c = (case s of (w, t, h) \<Rightarrow>
     let (w, t) = if prints c then (w, t) else (others t h w, t + 1);
         (r, e, w) = os w e c
     in (r, e, w, t, holds c h))"

definition amid_view :: "'w store_view \<Rightarrow> ('w \<times> nat \<times> bool) store_view" where
  "amid_view v = \<lparr>content_of = (\<lambda>s. content_of v (fst s)), merkle_of = (\<lambda>s. merkle_of v (fst s)),
     path_of = (\<lambda>s. path_of v (fst s)), cursor_of = (\<lambda>s. cursor_of v (fst s)),
     locked = (\<lambda>s. snd (snd s) \<and> locked v (fst s))\<rparr>"

lemma amid_view_simps [simp]:
  "content_of (amid_view v) (w, t) = content_of v w" "merkle_of (amid_view v) (w, t) = merkle_of v w"
  "path_of (amid_view v) (w, t) = path_of v w" "cursor_of (amid_view v) (w, t) = cursor_of v w"
  "locked (amid_view v) (w, n, h) = (h \<and> locked v w)"
  "same_file (amid_view v) f (w, t) (w', t') = same_file v f w w'"
  by (simp_all add: amid_view_def same_file_def)

lemma amid_answer:
  "answer (amid others os) (w, t, h) c = answer os (if prints c then w else others t h w) c"
  "effect (amid others os) (w, t, h) c =
    (effect os (if prints c then w else others t h w) c, if prints c then t else t + 1, holds c h)"
  by (simp_all add: answer_def effect_def amid_def split: prod.splits)

lemma holds_prints [simp]: "holds (Log s) h = h"
  by simp

lemma amid_posix:
  assumes "posix os"
  shows "posix (amid others os)"
proof -
  have a: "fst (amid others os (w, t, h) e c) = answer (amid others os) (w, t, h) c"
    "snd (snd (amid others os (w, t, h) e c)) = effect (amid others os) (w, t, h) c"
    "fst (snd (amid others os (w, t, h) e c)) = fst (snd (os (if prints c then w else others t h w) e c))" for w t h e c
    using assms unfolding posix_def amid_answer by (simp_all add: amid_def split: prod.splits) (metis fst_conv snd_conv)+
  show ?thesis
    unfolding posix_def split_paired_All a amid_answer using assms unfolding posix_def by auto
qed

text \<open>
  The others leave the file alone all the time, and the static variable of \<open>strtok\<close> and the mutex while the
  thread holds the mutex.
\<close>

definition same_cursor :: "'w store_view \<Rightarrow> 'w \<Rightarrow> 'w \<Rightarrow> bool" where
  "same_cursor v w w' \<longleftrightarrow> cursor_of v w' = cursor_of v w \<and> (locked v w \<longrightarrow> locked v w')"

definition considerate :: "'w store_view \<Rightarrow> string \<Rightarrow> (nat \<Rightarrow> bool \<Rightarrow> 'w \<Rightarrow> 'w) \<Rightarrow> bool" where
  "considerate v f others \<longleftrightarrow>
     (\<forall>t h w. same_file v f w (others t h w) \<and> (h \<longrightarrow> same_cursor v w (others t h w)))"

lemma amid_tokenizer:
  assumes "tokenizer os (cursor_of v) (locked v)" and "considerate v f others"
  shows "tokenizer (amid others os) (cursor_of (amid_view v)) (locked (amid_view v))"
proof
  fix s :: "'a \<times> nat \<times> bool" and a d
  obtain w t h where s: "s = (w, t, h)" by (cases s)
  note tok = tokenizer.lock [OF assms(1)] tokenizer.token [OF assms(1)] tokenizer.rest [OF assms(1)]
    tokenizer.still_locked [OF assms(1)]
  show "posix (amid others os)" using tokenizer.os [OF assms(1)] by (rule amid_posix)
  show "locked (amid_view v) (effect (amid others os) s Mutex_lock)" using tok by (simp add: s amid_answer)
  assume "locked (amid_view v) s"
  then have l: "h" "locked v (others t h w)" "cursor_of v (others t h w) = cursor_of v w"
    using assms(2) by (simp_all add: s considerate_def same_cursor_def)
  then show "payload (answer (amid others os) s (Strtok a d)) = fst (strtok a d (cursor_of (amid_view v) s))"
    "cursor_of (amid_view v) (effect (amid others os) s (Strtok a d)) = snd (strtok a d (cursor_of (amid_view v) s))"
    "locked (amid_view v) (effect (amid others os) s (Strtok a d))"
    using tok(2-4) [OF l(2), of a d] by (simp_all add: s amid_answer)
qed

lemma amid_store:
  assumes "file_store os v f" and "considerate v f others"
  shows "file_store (amid others os) (amid_view v) f"
proof -
  have o: "content_of v (others t h w) f = content_of v w f" "merkle_of v (others t h w) f = merkle_of v w f"
    "path_of v (others t h w) n = Some f \<longleftrightarrow> path_of v w n = Some f" "same_file v f w (others t h w)" for t h w n
    using assms(2) by (simp_all add: considerate_def same_file_def)
  note st = file_store_keeps [OF assms(1), THEN same_file_trans [OF o(4)]]
    file_store_strtok [OF assms(1) by_strtok_call [OF by_strtok_refl], THEN same_file_trans [OF o(4)]]
    file_store_open [OF assms(1)] file_store_set [OF assms(1)] file_store_write [OF assms(1)]
  show ?thesis
    unfolding file_store_def split_paired_All amid_answer Let_def
    using st o file_store_get [OF assms(1)] amid_tokenizer [OF file_store_tokenizer [OF assms(1)] assms(2)]
    by (auto split: option.split)
qed


section \<open>What a write does to other files\<close>

text \<open>
  The calls \<open>bb_write\<close> makes for one path, apart from its file descriptor, leave the file at another
  path alone, when no link makes the two the same file.
\<close>

definition keeps_apart :: "'w system \<Rightarrow> 'w store_view \<Rightarrow> string \<Rightarrow> bool" where
  "keeps_apart os v f \<longleftrightarrow>
     (\<forall>w c. c \<in> {Mutex_lock, Mutex_unlock, Fclose} \<or> prints c \<or> (\<exists>s d. c = Strtok s d) \<longrightarrow>
        same_file v f w (effect os w c)) \<and>
     (\<forall>w g n s. g \<noteq> f \<longrightarrow> same_file v f w (effect os w (On_path Fopen g)) \<and>
        same_file v f w (effect os w (On_path (Getxattr ''merkle'' n) g)) \<and>
        same_file v f w (effect os w (On_path (Setxattr ''merkle'' s) g))) \<and>
     (\<forall>w n d off. path_of v w n \<noteq> Some f \<longrightarrow> same_file v f w (effect os w (On_fd (Pwrite d off) n)))"

definition harmless :: "'w system \<Rightarrow> 'w store_view \<Rightarrow> string \<Rightarrow> int \<Rightarrow> sys_call \<Rightarrow> bool" where
  "harmless os v f n c \<longleftrightarrow> (\<forall>w. path_of v w n \<noteq> Some f \<longrightarrow> same_file v f w (effect os w c))"

lemma keeps_apart_harmless:
  assumes "keeps_apart os v f"
  shows "harmless os v f n (Log s)" "harmless os v f n Mutex_lock" "harmless os v f n Mutex_unlock"
    "harmless os v f n Fclose" "harmless os v f n (Strtok a b)" "harmless os v f n (On_fd (Pwrite d off) n)"
    "g \<noteq> f \<Longrightarrow> harmless os v f n (On_path Fopen g)"
    "g \<noteq> f \<Longrightarrow> harmless os v f n (On_path (Getxattr ''merkle'' k) g)"
    "g \<noteq> f \<Longrightarrow> harmless os v f n (On_path (Setxattr ''merkle'' s) g)"
  using assms unfolding keeps_apart_def harmless_def by simp_all

text \<open>The calls of a write to the file at \<open>f\<close> with the descriptor \<open>n\<close>.\<close>

fun write_call :: "string \<Rightarrow> int \<Rightarrow> sys_call \<Rightarrow> bool" where
  "write_call f n (Log s) \<longleftrightarrow> True"
| "write_call f n Mutex_lock \<longleftrightarrow> True"
| "write_call f n Mutex_unlock \<longleftrightarrow> True"
| "write_call f n Fclose \<longleftrightarrow> True"
| "write_call f n (Strtok s d) \<longleftrightarrow> True"
| "write_call f n (On_path Fopen g) \<longleftrightarrow> g = f"
| "write_call f n (On_path (Getxattr name k) g) \<longleftrightarrow> name = ''merkle'' \<and> g = f"
| "write_call f n (On_path (Setxattr name s) g) \<longleftrightarrow> name = ''merkle'' \<and> g = f"
| "write_call f n (On_fd (Pwrite d off) k) \<longleftrightarrow> k = n"
| "write_call f n c \<longleftrightarrow> False"

lemma bb_write_calls:
  "only_calls (sys env) {c. write_call (rootdir env @ path) (fh fi) c} (bb_write env hp path d offset fi)"
  unfolding bb_write_def update_merkle_def first_merkle_def set_merkle_def close_stream_def
  by (intro io_rules only_calls_fullpath) simp_all

lemma write_call_harmless:
  assumes "keeps_apart os v f" and "write_call g n c" and "f \<noteq> g"
  shows "harmless os v f n c"
  using assms(2,3) keeps_apart_harmless [OF assms(1), where n = n]
  by (induction g n c rule: write_call.induct) auto


section \<open>A second write at the mutex\<close>

text \<open>
  The system on which the thread is overtaken when it asks for the mutex, which is free: \<open>other\<close>
  happens before it goes on.
\<close>

definition at_lock :: "('w \<Rightarrow> 'w) \<Rightarrow> 'w system \<Rightarrow> 'w system" where
  "at_lock other os w e c = os (if c = Mutex_lock then other w else w) e c"

lemma at_lock_answer:
  "answer (at_lock other os) w c = answer os (if c = Mutex_lock then other w else w) c"
  "effect (at_lock other os) w c = effect os (if c = Mutex_lock then other w else w) c"
  by (simp_all add: answer_def effect_def at_lock_def)

lemma at_lock_posix: "posix os \<Longrightarrow> posix (at_lock other os)"
  unfolding posix_def at_lock_answer by (simp add: at_lock_def)

lemma at_lock_tokenizer:
  assumes "tokenizer os cur lck"
  shows "tokenizer (at_lock other os) cur lck"
  using tokenizer.lock [OF assms] tokenizer.token [OF assms] tokenizer.rest [OF assms] tokenizer.still_locked [OF assms]
  by (intro tokenizer.intro at_lock_posix tokenizer.os [OF assms]) (simp_all add: at_lock_answer)

lemma at_lock_reads_and_sets:
  "reads_and_sets (at_lock other os) f s w w' \<longleftrightarrow> reads_and_sets os f s (other w) w'"
proof -
  have "by_strtok (at_lock other os) w u \<Longrightarrow> by_strtok os w u" for w u
    by (induction rule: by_strtok.induct) (auto simp: at_lock_answer intro: by_strtok_call)
  moreover have "by_strtok os w u \<Longrightarrow> by_strtok (at_lock other os) w u" for w u
    by (induction rule: by_strtok.induct) (auto simp: at_lock_answer intro: by_strtok_call)
  ultimately have "by_strtok (at_lock other os) = by_strtok os" by (intro ext) blast
  then show ?thesis unfolding reads_and_sets_def by (simp add: at_lock_answer)
qed

text \<open>The world a computation leaves behind.\<close>

definition outcome :: "('w, 'a) io \<Rightarrow> 'w \<Rightarrow> 'w" where
  "outcome f w = (case f \<lparr>world = w, errno = 0, calls = []\<rparr> of Inl e \<Rightarrow> w | Inr (x, p) \<Rightarrow> world p)"

lemma runs_outcome: "runs f w P \<Longrightarrow> \<exists>x. P x (outcome f w)"
  unfolding runs_def outcome_def by (metis (no_types, lifting) old.prod.case process.select_convs(1) sum.simps(6))

text \<open>The leaf hashes of a file.\<close>

lemma file_leaf_list:
  assumes "c \<noteq> []" and "length c < 2 ^ 31"
  shows "leaf_list (map digest_string (padded_pages c))"
proof -
  have "length c \<le> 2 ^ 15 * PAGE_LENGTH" using assms(2) by (simp add: PAGE_LENGTH_def)
  then have "pow2_ceil (length (file_pages c)) \<le> 2 ^ 15"
    using file_pages_le [OF assms(1)] by (intro pow2_ceil_le file_pages_pos assms(1)) blast
  moreover obtain k where k: "pow2_ceil (length (file_pages c)) = 2 ^ k" using pow2_ceil_pow2 by blast
  ultimately have "(2::nat) ^ k < 2 ^ 23" by simp
  then have "k < 23" by (simp only: power_strict_increasing_iff one_less_numeral_iff semiring_norm)
  then show ?thesis unfolding leaf_list_def using length_padded_pow2 [OF assms(1)] k by auto
qed

lemma good_leaf_list: "good_file s c \<Longrightarrow> leaf_list (map digest_string (padded_pages c))"
  by (intro file_leaf_list) (simp_all add: good_file_def)

lemma leaf_list_update: "leaf_list hs \<Longrightarrow> is_hash h \<Longrightarrow> leaf_list (hs[i := h])"
  unfolding leaf_list_def by (auto dest!: subsetD [OF set_update_subset_insert])

text \<open>The first of two writes ends with the hashes of a file the second has not touched.\<close>

lemma with_page_stale:
  assumes "good_file slack old" and "c \<noteq> []" and "length c < 2 ^ 31"
    and "off' div PAGE_LENGTH < length (padded_pages c)" and "off' div PAGE_LENGTH < length (padded_pages old)"
    and "file_text new = with_page c off' d'"
    and "off div PAGE_LENGTH \<noteq> off' div PAGE_LENGTH"
    and "digest_string d' \<noteq> digest_string (padded_pages old ! (off' div PAGE_LENGTH))"
  shows "with_page old off d \<noteq> file_text new"
proof -
  let ?q = "off' div PAGE_LENGTH"
  let ?a = "(map digest_string (padded_pages old))[off div PAGE_LENGTH := digest_string d]"
    and ?b = "(map digest_string (padded_pages c))[?q := digest_string d']"
  have "?a ! ?q \<noteq> ?b ! ?q" using assms(4,5,7,8) by simp
  then have "?a \<noteq> ?b" by metis
  moreover have "leaf_list ?a" "leaf_list ?b"
    using assms(1-3) by (simp_all add: good_leaf_list file_leaf_list leaf_list_update)
  ultimately have "with_page old off d \<noteq> with_page c off' d'" by (simp add: leaf_text.enc_eq_iff)
  then show ?thesis unfolding assms(6) .
qed

text \<open>What the two writes leave behind.\<close>

abbreviation overtaken ::
  "'w mount \<Rightarrow> string \<Rightarrow> heap \<Rightarrow> string \<Rightarrow> int \<Rightarrow> file_info \<Rightarrow> heap \<Rightarrow> string \<Rightarrow> int \<Rightarrow> file_info \<Rightarrow> ('w, int) io"
where
  "overtaken env path hp d off fi hp' d' off' fi' \<equiv>
     bb_write (env\<lparr>sys := at_lock (outcome (bb_write env hp' path d' off' fi')) (sys env)\<rparr>) hp path d off fi"

text \<open>A write of one page of a file whose tree has \<open>n\<close> leaves.\<close>

definition page_write :: "nat \<Rightarrow> nat \<Rightarrow> string \<Rightarrow> bool" where
  "page_write n off d \<longleftrightarrow> off mod PAGE_LENGTH = 0 \<and> off < 2 ^ 31 \<and> off div PAGE_LENGTH < n \<and> is_c_string d \<and> fits_leaf d"

lemma runs_overtaken:
  assumes "posix (sys env)" and "file_store (sys env) v (rootdir env @ path)" and "heap_ok hp" and "heap_ok hp'"
    and "length (rootdir env) + length path < path_max env"
    and "tree_current v w (rootdir env @ path) old" and "good_file s old"
    and "path_of v w (fh fi) = Some (rootdir env @ path)" and "path_of v w (fh fi') = Some (rootdir env @ path)"
    and "page_write (length (padded_pages old)) off d" and "page_write (length (padded_pages old)) off' d'"
    and "off \<le> length old" and "off' \<le> length old"
  shows "runs (overtaken env path hp d (int off) fi hp' d' (int off') fi') w (\<lambda>k w'.
    k = int (length d) \<and> content_of v w' (rootdir env @ path) = Some (write_at (write_at old off d) off' d') \<and>
    merkle_of v w' (rootdir env @ path) = Some (with_page old off d))"
proof -
  let ?f = "rootdir env @ path"
  let ?g = "On_path (Getxattr ''merkle'' MAX_TREE_SIZE) ?f" and ?B = "bb_write env hp' path d' (int off') fi'"
  note os = assms(1) and st = assms(2)
  note keep = file_store_keeps [OF st, unfolded same_file_def] and set = file_store_set [OF st]
  note get = file_store_get(2) [OF st _ file_text_props(3) [OF assms(7)] MAX_TREE_SIZE_int]
  let ?w1 = "effect (sys env) w (On_fd (Pwrite d (int off)) (fh fi))"
  let ?w2 = "effect (sys env) ?w1 ?g"
  have c: "content_of v w ?f = Some old" "merkle_of v w ?f = Some (file_text old)"
    using assms(6) by (simp_all add: tree_current_def)
  have dl: "length d < 2 ^ 31" "length d' < 2 ^ 31"
    using assms(10,11) by (simp_all add: page_write_def fits_leaf_def size_defs)
  note wr = file_store_write [OF st assms(8) c(1) assms(12) dl(1)]
  have w2: "content_of v ?w2 ?f = Some (write_at old off d)" "merkle_of v ?w2 ?f = Some (file_text old)"
    "path_of v ?w2 (fh fi') = Some ?f" using wr keep c(2) assms(9) by simp_all
  let ?w3 = "effect (sys env) ?w2 (On_fd (Pwrite d' (int off')) (fh fi'))"
  have "off' \<le> length (write_at old off d)" using assms(12,13) by (simp add: length_write_at)
  note wr' = file_store_write [OF st w2(3,1) this dl(2)]
  note tok = file_store_tokenizer [OF st]
  have "runs ?B ?w2 (\<lambda>k w'. status_of (ret (answer (sys env) ?w2 (On_fd (Pwrite d' (int off')) (fh fi')))) k \<and>
    reads_and_sets (sys env) ?f (with_page old off' d') (effect (sys env) ?w3 ?g) w')"
    using assms(11) wr' w2(2)
    by (intro runs_bb_write_page [OF tok assms(5,4,7)] get) (simp_all add: page_write_def)
  from runs_outcome [OF this]
  have "reads_and_sets (sys env) ?f (with_page old off' d') (effect (sys env) ?w3 ?g) (outcome ?B ?w2)"
    by blast
  from reads_and_sets_effects(1,3) [OF st this]
  have B: "content_of v (outcome ?B ?w2) ?f = Some (write_at (write_at old off d) off' d')"
    using wr' keep by simp
  have tok': "tokenizer (sys (env\<lparr>sys := at_lock (outcome ?B) (sys env)\<rparr>)) (cursor_of v) (locked v)"
    using at_lock_tokenizer [OF tok] by simp
  have "runs (overtaken env path hp d (int off) fi hp' d' (int off') fi') w (\<lambda>k w'.
    status_of (ret (answer (at_lock (outcome ?B) (sys env)) w (On_fd (Pwrite d (int off)) (fh fi)))) k \<and>
    reads_and_sets (at_lock (outcome ?B) (sys env)) ?f (with_page old off d) ?w2 w')"
    using runs_bb_write_page [where env = "env\<lparr>sys := at_lock (outcome ?B) (sys env)\<rparr>" and path = path
        and hp = hp and s = s and old = old and off = off and d = d and w = w and fi = fi, OF tok' _ assms(3,7)]
      assms(5,10) wr c(2) get
    by (simp add: at_lock_answer page_write_def)
  then show ?thesis
    unfolding at_lock_reads_and_sets
    by (rule runs_mono) (use wr B in \<open>auto simp: at_lock_answer reads_and_sets_effects [OF st]\<close>)
qed

text \<open>The tree of the new file has the hash of the second page as well.\<close>

lemma file_text_page:
  assumes "c \<noteq> []" and "page_write (length (padded_pages c)) off d" and "off \<le> length c"
    and "length d = PAGE_LENGTH \<or> length c \<le> off + length d" and "d \<noteq> []" and "length d \<le> PAGE_LENGTH"
  shows "file_text (write_at c off d) = with_page c off d"
proof -
  have off: "off div PAGE_LENGTH * PAGE_LENGTH = off" using assms(2) by (auto simp: page_write_def)
  note ne = assms(1)
  have "(padded_pages c)[off div PAGE_LENGTH := d] = padded_pages (write_at c off d)"
    using write_one_page(1) [OF ne assms(5,6), of "off div PAGE_LENGTH" "write_at c off d"] assms(2-4)
    unfolding off by (simp add: page_write_def)
  then show ?thesis by (metis map_update)
qed

lemma page_write_leaves:
  assumes "good_file s old" and "page_write (length (padded_pages old)) off d" and "off \<le> length old"
    and "length d \<le> PAGE_LENGTH"
  shows "length (padded_pages (write_at old off d)) = length (padded_pages old)"
proof (rule padded_same)
  have off: "off div PAGE_LENGTH * PAGE_LENGTH = off" and p: "off div PAGE_LENGTH + 1 \<le> length (padded_pages old)"
    using assms(2) by (auto simp: page_write_def)
  have "off + length d \<le> (off div PAGE_LENGTH + 1) * PAGE_LENGTH" using off assms(4) by simp
  also have "\<dots> \<le> length (padded_pages old) * PAGE_LENGTH" using p by (rule mult_le_mono1)
  finally have new: "off + length d \<le> length (padded_pages old) * PAGE_LENGTH" .
  have ne: "old \<noteq> []" using assms(1) by (simp add: good_file_def)
  have "length (file_pages old) \<le> length (padded_pages old)"
    unfolding length_padded_pow2 [OF ne] by (rule pow2_ceil_bounds(1) [OF file_pages_pos [OF ne]])
  then have "length old \<le> length (padded_pages old) * PAGE_LENGTH" using file_pages_le [OF ne] by blast
  with new show "length (write_at old off d) \<le> length (padded_pages old) * PAGE_LENGTH"
    using assms(3) by (simp add: length_write_at)
qed (use assms(1,3) in \<open>simp_all add: good_file_def length_write_at\<close>)


section \<open>A busy disk\<close>

text \<open>
  A disk on which somebody else sets the attribute of another file all the time, and calls \<open>strtok\<close> when the mutex
  is free.
\<close>

definition set_other :: "nat \<Rightarrow> bool \<Rightarrow> disk \<Rightarrow> disk" where
  "set_other t h w = (let w = effect disk_sys w (On_path (Setxattr ''merkle'' ''1:'') ''/r/b'')
     in if h then w else effect disk_sys w (Strtok (Some ''x,y'') CHR '',''))"

definition busy_mount :: "(disk \<times> nat \<times> bool) mount" where
  "busy_mount = \<lparr>rootdir = ''/r'', path_max = 1024, sys = amid set_other disk_sys\<rparr>"

lemma busy_mount_simps [simp]:
  "sys busy_mount = amid set_other disk_sys" "rootdir busy_mount = ''/r''" "path_max busy_mount = 1024"
  by (simp_all add: busy_mount_def)

lemma set_other_same: "considerate disk_view ''/r/a'' set_other"
  by (simp add: considerate_def same_cursor_def set_other_def disk_answer same_file_def disk_view_def Let_def)

lemma disk_keeps_apart: "keeps_apart disk_sys disk_view f"
proof -
  have "same_file disk_view f w (snd (disk_call w c))"
    if "c \<in> {Mutex_lock, Mutex_unlock, Fclose} \<or> prints c \<or> (\<exists>s d. c = Strtok s d)" for w c
    using that by (cases c) (auto simp: same_file_def disk_view_def)
  then show ?thesis
    unfolding keeps_apart_def disk_answer same_file_def
    by (auto simp: disk_view_def split: option.splits)
qed

text \<open>A file of two pages, the second one a space.\<close>

definition page_and_space :: string where
  "page_and_space = replicate PAGE_LENGTH CHR ''x'' @ '' ''"

lemma page_and_space_props:
  "length page_and_space = PAGE_LENGTH + 1" "good_file [nul] page_and_space" "length (padded_pages page_and_space) = 2"
  "padded_pages page_and_space ! 1 = '' ''"
proof -
  show l: "length page_and_space = PAGE_LENGTH + 1" by (simp add: page_and_space_def)
  have ne: "page_and_space \<noteq> []" by (simp add: page_and_space_def)
  have "\<not> page_and_space = []" "is_c_string page_and_space" by (simp_all add: page_and_space_def is_c_string_def)
  then show "good_file [nul] page_and_space" using l by (simp add: good_file_def PAGE_LENGTH_def)
  have "length (file_pages page_and_space) = 2" by (simp add: file_pages_def l PAGE_LENGTH_def)
  then show n: "length (padded_pages page_and_space) = 2"
    unfolding length_padded_pow2 [OF ne] by (simp add: pow2_ceil_def floor_log2.simps)
  show "padded_pages page_and_space ! 1 = '' ''"
    using padded_nth [OF ne, of 1] n l by (simp add: page_and_space_def) (simp add: PAGE_LENGTH_def)
qed


section \<open>Properties\<close>

text \<open>
  C5: the session of writes again, with other threads between any two of its calls, also between two calls of
  \<open>strtok\<close>. Whatever they do, as long as each of their steps leaves this file, its attribute and its descriptors alone
  and, while this thread holds the mutex, the mutex and the static variable of \<open>strtok\<close>, every write returns its number of bytes and in the end the attribute is the tree of the file.
\<close>

theorem bb_write_session_amid_others:
  assumes "posix os" and "file_store os v (rootdir env @ path)" and "sys env = amid others os"
    and "\<forall>t h w. same_file v (rootdir env @ path) w (others t h w) \<and>
      (h \<longrightarrow> cursor_of v (others t h w) = cursor_of v w \<and> (locked v w \<longrightarrow> locked v (others t h w)))"
    and "length (rootdir env) + length path < path_max env"
    and "path_of v w (fh fi) = Some (rootdir env @ path)" and "tree_current v w (rootdir env @ path) c"
    and "good_file s c" and "all_tracked c ws"
  shows "runs (write_all env path fi ws) (w, 0, False) (\<lambda>ks (w', t). ks = map (\<lambda>(hp, off, d). int (length d)) ws \<and>
    tree_current v w' (rootdir env @ path) (written c ws))"
proof -
  have o: "considerate v (rootdir env @ path) others"
    using assms(4) unfolding considerate_def same_cursor_def by blast
  have "posix (sys env)" using amid_posix [OF assms(1)] assms(3) by simp
  moreover have "file_store (sys env) (amid_view v) (rootdir env @ path)"
    unfolding assms(3) using assms(2) o by (rule amid_store)
  moreover have t: "tree_current (amid_view v) (w', t) f k \<longleftrightarrow> tree_current v w' f k" for w' t f k
    by (simp add: tree_current_def)
  ultimately have "runs (write_all env path fi ws) (w, 0, False) (\<lambda>ks s'. ks = map (\<lambda>(hp, off, d). int (length d)) ws \<and>
    tree_current (amid_view v) s' (rootdir env @ path) (written c ws))"
    using assms(5-9) by (intro runs_write_all [where s = s]) simp_all
  then show ?thesis by (rule runs_mono) (auto simp: t)
qed

theorem bb_write_session_amid_others_witness:
  "runs (write_all busy_mount ''/a'' \<lparr>flags = 1, fh = 3\<rparr> [(zeroed_heap, 3 :: nat, ''de''), (zeroed_heap, 0, ''bbcdef'')])
    (disk_with ''abc'' (Some (file_text ''abc'')), 0, False)
    (\<lambda>ks (w', t). ks = map (\<lambda>(hp, off, d). int (length d)) [(zeroed_heap, 3 :: nat, ''de''), (zeroed_heap, 0, ''bbcdef'')] \<and>
      tree_current disk_view w' (rootdir busy_mount @ ''/a'')
        (written ''abc'' [(zeroed_heap, 3 :: nat, ''de''), (zeroed_heap, 0, ''bbcdef'')]))"
  by (rule bb_write_session_amid_others [where s = "[nul]" and others = set_other and os = disk_sys])
     (simp_all add: set_other_same [unfolded considerate_def same_cursor_def] tree_current_def good_file_def tracked_write_def write_at_def padded_short
        PAGE_LENGTH_def)

text \<open>
  C18: what \<open>bb_write\<close> does between the calls of others. Each call it makes, on whatever system,
  leaves every file alone that is not at its path, in every world in which its descriptor is not
  open on that file: what writes to other files rely on.
\<close>

theorem bb_write_leaves_other_files:
  assumes "bb_write env hp path d offset fi p = Inr (k, q)" and "keeps_apart os v f" and "f \<noteq> rootdir env @ path"
  shows "\<exists>cs. calls q = calls p @ cs \<and>
    (\<forall>c\<in>set cs. \<forall>w. path_of v w (fh fi) \<noteq> Some f \<longrightarrow> same_file v f w (effect os w c))"
  using steps_calls [OF only_callsD [OF bb_write_calls assms(1)]] write_call_harmless [OF assms(2) _ assms(3)]
  by (auto simp: harmless_def subset_iff)

theorem bb_write_leaves_other_files_witness:
  "\<exists>k q cs. bb_write disk_mount zeroed_heap ''/a'' ''abc'' (int 0) \<lparr>flags = 1, fh = 3\<rparr>
      \<lparr>world = disk_with [] None, errno = 0, calls = []\<rparr> = Inr (k, q) \<and> calls q = [] @ cs \<and>
    (\<forall>c\<in>set cs. \<forall>w. path_of disk_view w 3 \<noteq> Some ''/r/b'' \<longrightarrow> same_file disk_view ''/r/b'' w (effect disk_sys w c))"
proof -
  have "followed disk_view (disk_with [] None) (rootdir disk_mount @ ''/a'') zeroed_heap [] 0 ''abc''"
    by (simp add: followed_def first_write_def write_at_def size_defs zeroed_memory_def)
  then have "runs (bb_write disk_mount zeroed_heap ''/a'' ''abc'' (int 0) \<lparr>flags = 1, fh = 3\<rparr>) (disk_with [] None) (\<lambda>k w'. True)"
    by (intro runs_mono [OF runs_bb_write [where v = disk_view]]) simp_all
  then obtain k q where "bb_write disk_mount zeroed_heap ''/a'' ''abc'' (int 0) \<lparr>flags = 1, fh = 3\<rparr>
      \<lparr>world = disk_with [] None, errno = 0, calls = []\<rparr> = Inr (k, q)"
    unfolding runs_def by fastforce
  then show ?thesis
    using bb_write_leaves_other_files [OF _ disk_keeps_apart, of disk_mount zeroed_heap "''/a''" "''abc''" "int 0"
      "\<lparr>flags = 1, fh = 3\<rparr>" "\<lparr>world = disk_with [] None, errno = 0, calls = []\<rparr>" k q "''/r/b''"] by simp
qed

text \<open>
  C13: an update is lost. The attribute is read before the mutex is taken. When a second write to
  another page of the same file comes in between, both writes are in the file, but the attribute the
  first one leaves lacks the hash of the second page: it is not the tree of the file.
\<close>

theorem bb_write_loses_update:
  assumes "posix (sys env)" and "file_store (sys env) v (rootdir env @ path)" and "heap_ok hp" and "heap_ok hp'"
    and "length (rootdir env) + length path < path_max env"
    and "tree_current v w (rootdir env @ path) old" and "good_file s old"
    and "path_of v w (fh fi) = Some (rootdir env @ path)" and "path_of v w (fh fi') = Some (rootdir env @ path)"
    and "page_write (length (padded_pages old)) off d" and "page_write (length (padded_pages old)) off' d'"
    and "off \<le> length old" and "off' \<le> length old" and "d \<noteq> []" and "d' \<noteq> []"
    and "length d \<le> PAGE_LENGTH" and "length d' \<le> PAGE_LENGTH"
    and "off + length d < 2 ^ 31"
    and "length d' = PAGE_LENGTH \<or> length (write_at old off d) \<le> off' + length d'"
    and "off div PAGE_LENGTH \<noteq> off' div PAGE_LENGTH"
    and "digest_string d' \<noteq> digest_string (padded_pages old ! (off' div PAGE_LENGTH))"
  shows "runs (bb_write (env\<lparr>sys := at_lock (outcome (bb_write env hp' path d' (int off') fi')) (sys env)\<rparr>)
      hp path d (int off) fi) w (\<lambda>k w'. k = int (length d) \<and>
    content_of v w' (rootdir env @ path) = Some (write_at (write_at old off d) off' d') \<and>
    merkle_of v w' (rootdir env @ path) \<noteq>
      Some (text_of (map digest_string (padded_pages (write_at (write_at old off d) off' d')))))"
proof -
  let ?c = "write_at old off d"
  have n: "length (padded_pages ?c) = length (padded_pages old)" using assms(7,10,12,16) by (rule page_write_leaves)
  have o: "off' \<le> length ?c" using assms(12,13) by (simp add: length_write_at)
  have c: "?c \<noteq> []" "length ?c < 2 ^ 31"
    using assms(7,12,14,18) length_write_at [OF assms(12)] by (auto simp: good_file_def write_at_def)
  have "file_text (write_at ?c off' d') = with_page ?c off' d'"
    using assms(11,15,17,19) o n by (intro file_text_page [OF c(1)]) simp_all
  then have "with_page old off d \<noteq> file_text (write_at ?c off' d')"
    using assms(11,20,21) n by (intro with_page_stale [OF assms(7) c]) (simp_all add: page_write_def)
  then show ?thesis
    using runs_overtaken [OF assms(1-13)] by (auto elim!: runs_mono)
qed

theorem bb_write_loses_update_witness:
  "runs (bb_write (disk_mount\<lparr>sys := at_lock (outcome (bb_write disk_mount zeroed_heap ''/a'' ''abc'' (int PAGE_LENGTH)
      \<lparr>flags = 1, fh = 3\<rparr>)) (sys disk_mount)\<rparr>) zeroed_heap ''/a'' (replicate PAGE_LENGTH CHR ''y'') (int 0) \<lparr>flags = 1, fh = 3\<rparr>)
    (disk_with page_and_space (Some (file_text page_and_space))) (\<lambda>k w'. k = int (length (replicate PAGE_LENGTH CHR ''y'')) \<and>
    content_of disk_view w' (rootdir disk_mount @ ''/a'') =
      Some (write_at (write_at page_and_space 0 (replicate PAGE_LENGTH CHR ''y'')) PAGE_LENGTH ''abc'') \<and>
    merkle_of disk_view w' (rootdir disk_mount @ ''/a'') \<noteq> Some (text_of (map digest_string (padded_pages
      (write_at (write_at page_and_space 0 (replicate PAGE_LENGTH CHR ''y'')) PAGE_LENGTH ''abc'')))))"
proof (rule bb_write_loses_update [where s = "[nul]"])
  have P: "PAGE_LENGTH div PAGE_LENGTH = 1" by (simp add: PAGE_LENGTH_def)
  show "page_write (length (padded_pages page_and_space)) 0 (replicate PAGE_LENGTH CHR ''y'')"
    by (simp add: page_write_def page_and_space_props is_c_string_def fits_leaf_def PAGE_LENGTH_def)
  show "page_write (length (padded_pages page_and_space)) PAGE_LENGTH ''abc''"
    unfolding page_write_def P by (simp add: page_and_space_props is_c_string_def fits_leaf_def PAGE_LENGTH_def)
  show "digest_string ''abc'' \<noteq> digest_string (padded_pages page_and_space ! (PAGE_LENGTH div PAGE_LENGTH))"
    unfolding P page_and_space_props digest_string_abc space_hash_eq by (simp add: space_hash_def)
qed (simp_all add: tree_current_def page_and_space_props length_write_at, simp_all add: PAGE_LENGTH_def)

end
