(* ===== verification/Interleaving.thy ===== *)
theory Interleaving
  imports Interference
begin

text \<open>
  Several threads in \<open>bb_write\<close> whose system calls interleave in any way. A thread depends on the system
  by the answers it gets only: a program run against a script of answers makes the same calls and
  ends with the same value as on the system that gave these answers.
\<close>


section \<open>Scripts\<close>

text \<open>
  A call a thread has made: the call with the \<open>errno\<close> of the thread before it, the answer, and \<open>errno\<close>
  after it. The script is followed as long as the calls are those it has; then it is lost.
\<close>

type_synonym event = "sys_call \<times> int \<times> reply \<times> int"

type_synonym script = "event list option"

fun scripted :: "script system" where
  "scripted (Some ((c', e', r, e'') # h)) e c =
     (if c = c' \<and> e = e' then (r, e'', Some h) else (\<lparr>ret = 0, payload = None\<rparr>, e, None))"
| "scripted s e c = (\<lparr>ret = 0, payload = None\<rparr>, e, None)"

definition script_mount :: "'w mount \<Rightarrow> script mount" where
  "script_mount env = \<lparr>rootdir = rootdir env, path_max = path_max env, sys = scripted\<rparr>"

lemma script_mount_simps [simp]:
  "rootdir (script_mount env) = rootdir env" "path_max (script_mount env) = path_max env"
  "sys (script_mount env) = scripted"
  by (simp_all add: script_mount_def)

text \<open>Started with \<open>errno\<close> 0, a program makes the calls of the script and no other, and returns \<open>x\<close>.\<close>

definition follows :: "(script, 'a) io \<Rightarrow> event list \<Rightarrow> 'a \<Rightarrow> bool" where
  "follows f h x \<longleftrightarrow> (\<exists>q. f \<lparr>world = Some h, errno = 0, calls = []\<rparr> = Inr (x, q) \<and> world q = Some [])"


section \<open>From the script to the system\<close>

text \<open>The events of a script as calls of a system.\<close>

fun plays :: "'w system \<Rightarrow> 'w \<Rightarrow> event list \<Rightarrow> 'w \<Rightarrow> bool" where
  "plays os w [] w' \<longleftrightarrow> w' = w"
| "plays os w ((c, e, r, e') # h) w' \<longleftrightarrow> (\<exists>u. os w e c = (r, e', u) \<and> plays os u h w')"

lemma plays_append: "plays os w (h @ k) w' \<longleftrightarrow> (\<exists>u. plays os w h u \<and> plays os u k w')"
  by (induction os w h w' rule: plays.induct) auto

text \<open>
  \<open>g\<close> does on the system \<open>os\<close> what \<open>f\<close> does on a script that \<open>os\<close> can play. A lost script is not found again.
\<close>

definition mirrors :: "'w system \<Rightarrow> (script, 'a) io \<Rightarrow> ('w, 'a) io \<Rightarrow> bool" where
  "mirrors os f g \<longleftrightarrow>
     (\<forall>p x q. f p = Inr (x, q) \<and> world p = None \<longrightarrow> world q = None) \<and>
     (\<forall>p x q h p' w'. f p = Inr (x, q) \<and> world p = Some h \<and> world q \<noteq> None \<and>
        errno p' = errno p \<and> plays os (world p') h w' \<longrightarrow>
        (\<exists>q' k. g p' = Inr (x, q') \<and> world q = Some k \<and> errno q' = errno q \<and> plays os (world q') k w'))"

named_theorems mirror_rules

lemma mirrorsI:
  fixes os :: "'w system"
  assumes "\<And>p x q. f p = Inr (x, q) \<Longrightarrow> world p = None \<Longrightarrow> world q = None"
    and "\<And>p x q h (p' :: 'w process) w'. f p = Inr (x, q) \<Longrightarrow> world p = Some h \<Longrightarrow> world q \<noteq> None \<Longrightarrow>
        errno p' = errno p \<Longrightarrow> plays os (world p') h w' \<Longrightarrow>
        \<exists>q' k. g p' = Inr (x, q') \<and> world q = Some k \<and> errno q' = errno q \<and> plays os (world q') k w'"
  shows "mirrors os f g"
  using assms unfolding mirrors_def by blast

lemma mirrors_basic [mirror_rules]:
  "mirrors os (return_io x) (return_io x)" "mirrors os (fail_io e) (fail_io e)"
  "mirrors os (lift_io r) (lift_io r)" "mirrors os get_errno get_errno" "mirrors os (put_errno k) (put_errno k)"
  by (auto simp: mirrors_def io_defs)

lemma mirrors_perform [mirror_rules]: "mirrors os (perform scripted c) (perform os c)"
proof (rule mirrorsI)
  fix p :: "script process" and x q h and p' :: "'a process" and w'
  assume p: "perform scripted c p = Inr (x, q)" "world p = Some h" "world q \<noteq> None"
    "errno p' = errno p" "plays os (world p') h w'"
  show "\<exists>q' k. perform os c p' = Inr (x, q') \<and> world q = Some k \<and> errno q' = errno q \<and> plays os (world q') k w'"
  proof (cases h)
    case (Cons a k)
    then show ?thesis using p by (cases a) (auto simp: perform_def split: if_splits)
  qed (use p in \<open>auto simp: perform_def\<close>)
qed (auto simp: perform_def)

lemma mirrors_seq [mirror_rules]:
  fixes os :: "'w system"
  assumes f: "mirrors os f f'" and g: "\<And>x. mirrors os (g x) (g' x)"
  shows "mirrors os (seq_io f g) (seq_io f' g')"
proof (rule mirrorsI)
  fix p :: "script process" and x q assume "seq_io f g p = Inr (x, q)" "world p = None"
  then obtain y r where "f p = Inr (y, r)" "g y r = Inr (x, q)" "world p = None" by (auto simp: seq_io_def)
  then show "world q = None" using f g unfolding mirrors_def by metis
next
  fix p :: "script process" and x q h and p' :: "'w process" and w'
  assume p: "seq_io f g p = Inr (x, q)" "world p = Some h" "world q \<noteq> None" "errno p' = errno p" "plays os (world p') h w'"
  then obtain y r where r: "f p = Inr (y, r)" "g y r = Inr (x, q)" by (auto simp: seq_io_def)
  then have "world r \<noteq> None" using g p(3) unfolding mirrors_def by metis
  then obtain r' k where r': "f' p' = Inr (y, r')" "world r = Some k" "errno r' = errno r" "plays os (world r') k w'"
    using f r(1) p(2,4,5) unfolding mirrors_def by meson
  then obtain q' k' where "g' y r' = Inr (x, q')" "world q = Some k'" "errno q' = errno q" "plays os (world q') k' w'"
    using g r(2) p(3) unfolding mirrors_def by meson
  then show "\<exists>q' k. seq_io f' g' p' = Inr (x, q') \<and> world q = Some k \<and> errno q' = errno q \<and> plays os (world q') k w'"
    using r'(1) by (auto simp: seq_io_def)
qed

lemma mirrors_if [mirror_rules]:
  "(b \<Longrightarrow> mirrors os f f') \<Longrightarrow> (\<not> b \<Longrightarrow> mirrors os g g') \<Longrightarrow> mirrors os (if b then f else g) (if b then f' else g')"
  by simp

lemma mirrors_option [mirror_rules]:
  "mirrors os f f' \<Longrightarrow> (\<And>x. mirrors os (g x) (g' x)) \<Longrightarrow>
   mirrors os (case v of None \<Rightarrow> f | Some x \<Rightarrow> g x) (case v of None \<Rightarrow> f' | Some x \<Rightarrow> g' x)"
  by (cases v) simp_all

lemma mirrors_prod [mirror_rules]:
  "(\<And>x y. mirrors os (f x y) (f' x y)) \<Longrightarrow> mirrors os (case v of (x, y) \<Rightarrow> f x y) (case v of (x, y) \<Rightarrow> f' x y)"
  by (cases v) simp

lemma mirrors_lines [mirror_rules]: "mirrors os (log_lines scripted ss) (log_lines os ss)"
  by (induction ss) (simp_all add: mirror_rules log_msg_def)

lemma mirrors_log [mirror_rules]:
  "mirrors os (log_msg scripted s) (log_msg os s)" "mirrors os (log_error scripted s) (log_error os s)"
  "mirrors os (log_retstat scripted s r) (log_retstat os s r)"
  "mirrors os (log_syscall scripted s r k) (log_syscall os s r k)" "mirrors os (log_fi scripted) (log_fi os)"
  "mirrors os (checked_call scripted s c) (checked_call os s c)"
  unfolding log_msg_def log_error_def log_retstat_def log_syscall_def log_fi_def checked_call_def
  by (intro mirror_rules)+

lemma mirrors_read [mirror_rules]: "mirrors os (string_to_tree_io scripted m mt s) (string_to_tree_io os m mt s)"
proof -
  have loop: "mirrors os (token_loop_io scripted d room token) (token_loop_io os d room token)" for d room token
  proof (induction room arbitrary: token)
    case 0
    then show ?case by (cases token) (simp_all add: mirror_rules)
  next
    case (Suc room)
    then show ?case by (cases token) (simp_all add: mirror_rules)
  qed
  have split: "mirrors os (str_split_io scripted t d) (str_split_io os t d)" for t d
    unfolding str_split_io_def by (intro mirror_rules loop)
  have hashes: "mirrors os (read_hashes_io scripted ts i T) (read_hashes_io os ts i T)" for ts i T
    by (induction ts arbitrary: i T) (simp_all add: mirror_rules split)
  show ?thesis unfolding string_to_tree_io_def by (intro mirror_rules split hashes)
qed

lemma mirrors_write:
  "mirrors (sys env) (bb_write (script_mount env) hp path d offset fi) (bb_write env hp path d offset fi)"
  unfolding bb_write_def update_merkle_def first_merkle_def set_merkle_def close_stream_def bb_fullpath_def
    Let_def script_mount_simps
  by (intro mirror_rules)

lemma mirrors_write_all:
  "mirrors (sys env) (write_all (script_mount env) path fi ws) (write_all env path fi ws)"
proof (induction ws)
  case (Cons a ws)
  then show ?case by (cases a) (auto intro!: mirror_rules mirrors_write)
qed (simp add: mirror_rules)


section \<open>From the system to the script\<close>

text \<open>What \<open>f\<close> does on the system is a script that the system plays and \<open>g\<close> follows.\<close>

definition records :: "'w system \<Rightarrow> ('w, 'a) io \<Rightarrow> (script, 'a) io \<Rightarrow> bool" where
  "records os f g \<longleftrightarrow> (\<forall>p x q. f p = Inr (x, q) \<longrightarrow>
     (\<exists>h. plays os (world p) h (world q) \<and>
       (\<forall>k p'. world p' = Some (h @ k) \<and> errno p' = errno p \<longrightarrow>
         (\<exists>q'. g p' = Inr (x, q') \<and> world q' = Some k \<and> errno q' = errno q))))"

named_theorems record_rules

lemma records_basic [record_rules]:
  "records os (return_io x) (return_io x)" "records os (fail_io e) (fail_io e)"
  "records os (lift_io r) (lift_io r)" "records os get_errno get_errno" "records os (put_errno k) (put_errno k)"
  by (auto simp: records_def io_defs intro!: exI [of _ "[]"])

lemma records_perform [record_rules]: "records os (perform os c) (perform scripted c)"
  unfolding records_def
proof (intro allI impI)
  fix p :: "'a process" and x q assume f: "perform os c p = Inr (x, q)"
  obtain e u where o: "os (world p) (errno p) c = (x, e, u)" "world q = u" "errno q = e"
    using f by (auto simp: perform_def split: prod.splits)
  show "\<exists>h. plays os (world p) h (world q) \<and> (\<forall>k p'. world p' = Some (h @ k) \<and> errno p' = errno p \<longrightarrow>
      (\<exists>q'. perform scripted c p' = Inr (x, q') \<and> world q' = Some k \<and> errno q' = errno q))"
    by (rule exI [of _ "[(c, errno p, x, e)]"]) (auto simp: o perform_def)
qed

lemma records_seq [record_rules]:
  fixes os :: "'w system"
  assumes f: "records os f f'" and g: "\<And>x. records os (g x) (g' x)"
  shows "records os (seq_io f g) (seq_io f' g')"
  unfolding records_def
proof (intro allI impI)
  fix p :: "'w process" and x q assume "seq_io f g p = Inr (x, q)"
  then obtain y r where r: "f p = Inr (y, r)" "g y r = Inr (x, q)" by (auto simp: seq_io_def)
  obtain h where h: "plays os (world p) h (world r)" "\<And>k p'. world p' = Some (h @ k) \<Longrightarrow> errno p' = errno p \<Longrightarrow>
      \<exists>r'. f' p' = Inr (y, r') \<and> world r' = Some k \<and> errno r' = errno r"
    using f r(1) unfolding records_def by blast
  obtain l where l: "plays os (world r) l (world q)" "\<And>k r'. world r' = Some (l @ k) \<Longrightarrow> errno r' = errno r \<Longrightarrow>
      \<exists>q'. g' y r' = Inr (x, q') \<and> world q' = Some k \<and> errno q' = errno q"
    using g r(2) unfolding records_def by blast
  have "\<exists>q'. seq_io f' g' p' = Inr (x, q') \<and> world q' = Some k \<and> errno q' = errno q"
    if p': "world p' = Some ((h @ l) @ k)" "errno p' = errno p" for k p'
  proof -
    obtain r' where r': "f' p' = Inr (y, r')" "world r' = Some (l @ k)" "errno r' = errno r"
      using h(2) [of p' "l @ k"] p' by auto
    then show ?thesis using l(2) [OF r'(2,3)] by (auto simp: seq_io_def)
  qed
  then show "\<exists>h. plays os (world p) h (world q) \<and> (\<forall>k p'. world p' = Some (h @ k) \<and> errno p' = errno p \<longrightarrow>
      (\<exists>q'. seq_io f' g' p' = Inr (x, q') \<and> world q' = Some k \<and> errno q' = errno q))"
    using h(1) l(1) by (intro exI [of _ "h @ l"]) (auto simp: plays_append)
qed

lemma records_if [record_rules]:
  "(b \<Longrightarrow> records os f f') \<Longrightarrow> (\<not> b \<Longrightarrow> records os g g') \<Longrightarrow> records os (if b then f else g) (if b then f' else g')"
  by simp

lemma records_option [record_rules]:
  "records os f f' \<Longrightarrow> (\<And>x. records os (g x) (g' x)) \<Longrightarrow>
   records os (case v of None \<Rightarrow> f | Some x \<Rightarrow> g x) (case v of None \<Rightarrow> f' | Some x \<Rightarrow> g' x)"
  by (cases v) simp_all

lemma records_prod [record_rules]:
  "(\<And>x y. records os (f x y) (f' x y)) \<Longrightarrow> records os (case v of (x, y) \<Rightarrow> f x y) (case v of (x, y) \<Rightarrow> f' x y)"
  by (cases v) simp

lemma records_lines [record_rules]: "records os (log_lines os ss) (log_lines scripted ss)"
  by (induction ss) (simp_all add: record_rules log_msg_def)

lemma records_log [record_rules]:
  "records os (log_msg os s) (log_msg scripted s)" "records os (log_error os s) (log_error scripted s)"
  "records os (log_retstat os s r) (log_retstat scripted s r)"
  "records os (log_syscall os s r k) (log_syscall scripted s r k)" "records os (log_fi os) (log_fi scripted)"
  "records os (checked_call os s c) (checked_call scripted s c)"
  unfolding log_msg_def log_error_def log_retstat_def log_syscall_def log_fi_def checked_call_def
  by (intro record_rules)+

lemma records_read [record_rules]: "records os (string_to_tree_io os m mt s) (string_to_tree_io scripted m mt s)"
proof -
  have loop: "records os (token_loop_io os d room token) (token_loop_io scripted d room token)" for d room token
  proof (induction room arbitrary: token)
    case 0
    then show ?case by (cases token) (simp_all add: record_rules)
  next
    case (Suc room)
    then show ?case by (cases token) (simp_all add: record_rules)
  qed
  have split: "records os (str_split_io os t d) (str_split_io scripted t d)" for t d
    unfolding str_split_io_def by (intro record_rules loop)
  have hashes: "records os (read_hashes_io os ts i T) (read_hashes_io scripted ts i T)" for ts i T
    by (induction ts arbitrary: i T) (simp_all add: record_rules split)
  show ?thesis unfolding string_to_tree_io_def by (intro record_rules split hashes)
qed

lemma records_write_all:
  "records (sys env) (write_all env path fi ws) (write_all (script_mount env) path fi ws)"
proof (induction ws)
  case (Cons a ws)
  have "records (sys env) (bb_write env hp path d offset fi) (bb_write (script_mount env) hp path d offset fi)" for hp d offset
    unfolding bb_write_def update_merkle_def first_merkle_def set_merkle_def close_stream_def bb_fullpath_def
      Let_def script_mount_simps
    by (intro record_rules)
  then show ?case using Cons by (cases a) (auto intro!: record_rules)
qed (simp add: record_rules)


section \<open>Where a thread holds the mutex\<close>

text \<open>
  What a call does to the knowledge whether the thread holds the mutex. A thread that takes the mutex twice, gives
  back what it does not hold, or calls \<open>strtok\<close> without it breaks the rules.
\<close>

fun lock_step :: "sys_call \<Rightarrow> bool \<Rightarrow> bool option" where
  "lock_step Mutex_lock h = (if h then None else Some True)"
| "lock_step Mutex_unlock h = (if h then Some False else None)"
| "lock_step (Strtok s d) h = (if h then Some True else None)"
| "lock_step c h = Some h"

fun lock_run :: "bool \<Rightarrow> sys_call list \<Rightarrow> bool option" where
  "lock_run h [] = Some h"
| "lock_run h (c # cs) = (case lock_step c h of None \<Rightarrow> None | Some h \<Rightarrow> lock_run h cs)"

lemma lock_run_append:
  "lock_run h (cs @ ds) = (case lock_run h cs of None \<Rightarrow> None | Some h \<Rightarrow> lock_run h ds)"
  by (induction cs arbitrary: h) (simp_all split: option.split)

lemma lock_step_holds: "lock_step c h = Some h' \<Longrightarrow> h' = holds c h"
  by (induction c h rule: lock_step.induct) (auto split: if_splits)

text \<open>A program that keeps the rules, started with the mutex held or not, and whether it holds it in the end.\<close>

definition leads :: "bool \<Rightarrow> ('w, 'a) io \<Rightarrow> bool \<Rightarrow> bool" where
  "leads h f h' \<longleftrightarrow> (\<forall>p x q. f p = Inr (x, q) \<longrightarrow> (\<exists>cs. calls q = calls p @ cs \<and> lock_run h cs = Some h'))"

named_theorems lock_rules

lemma leads_basic [lock_rules]:
  "leads h (return_io x) h" "leads h (fail_io e) h'" "leads h (lift_io r) h" "leads h get_errno h" "leads h (put_errno k) h"
  by (auto simp: leads_def io_defs)

lemma leads_call:
  assumes "lock_step c h = Some h'"
  shows "leads h (perform os c) h'"
  using assms by (auto simp: leads_def perform_def intro!: exI [of _ "[c]"] split: prod.splits)

lemma leads_perform [lock_rules]:
  "leads False (perform os Mutex_lock) True" "leads True (perform os Mutex_unlock) False"
  "leads True (perform os (Strtok s d)) True" "leads h (perform os (Log l)) h" "leads h (perform os (On_path q g)) h"
  "leads h (perform os (On_fd e n)) h" "leads h (perform os Fclose) h"
  by (simp_all add: leads_call)

lemma leads_seq [lock_rules]:
  assumes "leads h f k" and "\<And>x. leads k (g x) h'"
  shows "leads h (seq_io f g) h'"
  unfolding leads_def
proof (intro allI impI)
  fix p x q assume "seq_io f g p = Inr (x, q)"
  then obtain y r where r: "f p = Inr (y, r)" "g y r = Inr (x, q)" by (auto simp: seq_io_def)
  obtain cs where cs: "calls r = calls p @ cs" "lock_run h cs = Some k" using assms(1) r(1) unfolding leads_def by blast
  obtain ds where "calls q = calls r @ ds" "lock_run k ds = Some h'" using assms(2) r(2) unfolding leads_def by blast
  then show "\<exists>cs. calls q = calls p @ cs \<and> lock_run h cs = Some h'"
    using cs by (intro exI [of _ "cs @ ds"]) (simp add: lock_run_append)
qed

lemma leads_if [lock_rules]: "leads h f h' \<Longrightarrow> leads h g h' \<Longrightarrow> leads h (if b then f else g) h'"
  by simp

lemma leads_option [lock_rules]:
  "leads h f h' \<Longrightarrow> (\<And>x. leads h (g x) h') \<Longrightarrow> leads h (case v of None \<Rightarrow> f | Some x \<Rightarrow> g x) h'"
  by (cases v) simp_all

lemma leads_prod [lock_rules]: "(\<And>x y. leads h (f x y) h') \<Longrightarrow> leads h (case v of (x, y) \<Rightarrow> f x y) h'"
  by (cases v) simp

lemma leads_lines [lock_rules]: "leads h (log_lines os ss) h"
proof (induction ss)
  case (Cons s ss)
  show ?case unfolding log_lines.simps log_msg_def by (rule lock_rules Cons)+
qed (simp add: lock_rules)

lemma leads_log [lock_rules]:
  "leads h (log_msg os s) h" "leads h (log_error os s) h" "leads h (log_retstat os s r) h"
  "leads h (log_syscall os s r k) h" "leads h (log_fi os) h" "leads h (checked_call os s (On_fd e n)) h"
  unfolding log_msg_def log_error_def log_retstat_def log_syscall_def log_fi_def checked_call_def
  by ((rule lock_rules)+)

text \<open>Reading a tree needs the mutex; a write takes it and gives it back.\<close>

lemma leads_read [lock_rules]: "leads True (string_to_tree_io os m mt s) True"
proof -
  have loop: "leads True (token_loop_io os d room token) True" for d room token
  proof (induction room arbitrary: token)
    case 0
    then show ?case by (cases token) (simp_all add: lock_rules)
  next
    case (Suc room)
    show ?case
    proof (cases token)
      case (Some t)
      show ?thesis unfolding Some token_loop_io.simps by (rule lock_rules Suc)+
    qed (simp add: lock_rules)
  qed
  have split: "leads True (str_split_io os t d) True" for t d
    unfolding str_split_io_def by (rule lock_rules loop)+
  have hashes: "leads True (read_hashes_io os ts i T) True" for ts i T
  proof (induction ts arbitrary: i T)
    case (Cons t ts)
    show ?case unfolding read_hashes_io.simps by (rule lock_rules split Cons)+
  qed (simp add: lock_rules)
  show ?thesis unfolding string_to_tree_io_def by (rule lock_rules split hashes)+
qed

lemma leads_write: "leads False (bb_write env hp path d offset fi) False"
  unfolding bb_write_def update_merkle_def first_merkle_def set_merkle_def close_stream_def bb_fullpath_def Let_def
  by (rule lock_rules)+

lemma leads_write_all: "leads False (write_all env path fi ws) False"
proof (induction ws)
  case (Cons a ws)
  obtain hp off d where a: "a = (hp, off, d)" by (metis prod_cases3)
  show ?case unfolding a write_all.simps by (rule lock_rules leads_write Cons)+
qed (simp add: lock_rules)


section \<open>Traces of several threads\<close>

text \<open>
  A trace is the list of the calls of all threads, each with the number of its thread, in the
  order in which the system has answered them.
\<close>

type_synonym trace = "(nat \<times> event) list"

inductive shared :: "'w system \<Rightarrow> 'w \<Rightarrow> trace \<Rightarrow> 'w \<Rightarrow> bool" for os where
  shared_end [intro, simp]: "shared os w [] w"
| shared_call [intro]: "os w e c = (r, e', u) \<Longrightarrow> shared os u es w' \<Longrightarrow> shared os w ((i, c, e, r, e') # es) w'"

inductive_cases shared_NilE: "shared os w [] w'"
inductive_cases shared_ConsE: "shared os w (a # es) w'"

inductive_simps shared_Cons: "shared os w ((i, c, e, r, e') # es) w'"
inductive_simps shared_Nil: "shared os w [] w'"

lemma shared_append: "shared os w es u \<Longrightarrow> shared os u es' w' \<Longrightarrow> shared os w (es @ es') w'"
  by (induction rule: shared.induct) auto

lemma plays_shared: "plays os w h w' \<Longrightarrow> shared os w (map (Pair i) h) w'"
  by (induction os w h w' rule: plays.induct) auto

definition own :: "nat \<Rightarrow> trace \<Rightarrow> event list" where
  "own i es = map snd (filter (\<lambda>a. fst a = i) es)"

lemma own_simps [simp]:
  "own i [] = []" "own i ((j, a) # es) = (if j = i then a # own i es else own i es)"
  "own i (es @ es') = own i es @ own i es'"
  by (simp_all add: own_def)

text \<open>The worlds in which a thread makes its calls that are more than messages.\<close>

fun call_worlds :: "'w system \<Rightarrow> nat \<Rightarrow> 'w \<Rightarrow> trace \<Rightarrow> 'w list" where
  "call_worlds os i w [] = []"
| "call_worlds os i w ((j, c, e, r, e') # es) =
     (if j = i \<and> \<not> prints c then [w] else []) @ call_worlds os i (snd (snd (os w e c))) es"

text \<open>
  A mutex is taken only while nobody holds it: who holds it, if anybody does, along a trace.
\<close>

fun holder :: "nat \<Rightarrow> sys_call \<Rightarrow> nat option \<Rightarrow> nat option" where
  "holder i Mutex_lock ho = Some i"
| "holder i Mutex_unlock ho = None"
| "holder i c ho = ho"

fun exclusive :: "nat option \<Rightarrow> trace \<Rightarrow> bool" where
  "exclusive ho [] \<longleftrightarrow> True"
| "exclusive ho ((i, c, e, r, e') # es) \<longleftrightarrow> (c = Mutex_lock \<longrightarrow> ho = None) \<and> exclusive (holder i c ho) es"

text \<open>Every thread keeps the rules of the mutex in what is left of the trace.\<close>

definition all_keep_rules :: "nat option \<Rightarrow> trace \<Rightarrow> bool" where
  "all_keep_rules ho es \<longleftrightarrow> (\<forall>j. lock_run (ho = Some j) (map fst (own j es)) \<noteq> None)"

lemma holder_step:
  assumes "exclusive ho ((i, c, e, r, e') # es)" and "all_keep_rules ho ((i, c, e, r, e') # es)"
  shows "exclusive (holder i c ho) es" and "all_keep_rules (holder i c ho) es"
    and "(holder i c ho = Some i) = holds c (ho = Some i)"
    and "j \<noteq> i \<Longrightarrow> holder i c ho = Some j \<longleftrightarrow> ho = Some j"
    and "j \<noteq> i \<Longrightarrow> c = Strtok a d \<Longrightarrow> ho \<noteq> Some j"
proof -
  show "exclusive (holder i c ho) es" using assms(1) by simp
  have free: "c = Mutex_lock \<Longrightarrow> ho = None" using assms(1) by simp
  have k: "lock_run (ho = Some j) (map fst (own j ((i, c, e, r, e') # es))) \<noteq> None" for j
    using assms(2) unfolding all_keep_rules_def by blast
  obtain h where h: "lock_step c (ho = Some i) = Some h" "lock_run h (map fst (own i es)) \<noteq> None"
    using k [of i] by (auto split: option.splits)
  have ci: "c = Mutex_unlock \<or> c = Strtok a d \<Longrightarrow> ho = Some i" for a d using h(1) by (auto split: if_splits)
  show i: "(holder i c ho = Some i) = holds c (ho = Some i)" by (cases c) simp_all
  show o: "holder i c ho = Some j \<longleftrightarrow> ho = Some j" if "j \<noteq> i" for j
    using that free ci by (cases c) auto
  show "c = Strtok a d \<Longrightarrow> ho \<noteq> Some j" if "j \<noteq> i" using that ci by auto
  show "all_keep_rules (holder i c ho) es"
    unfolding all_keep_rules_def
  proof
    fix j show "lock_run (holder i c ho = Some j) (map fst (own j es)) \<noteq> None"
    proof (cases "j = i")
      case True
      then show ?thesis using h(2) lock_step_holds [OF h(1)] i by simp
    next
      case False
      then show ?thesis using k [of j] o by simp
    qed
  qed
qed

text \<open>
  For one thread the others turn the world into the one of its next call, when the file is the same
  there, and the static variable of \<open>strtok\<close> if the thread holds the mutex.
\<close>

definition jump :: "'w store_view \<Rightarrow> string \<Rightarrow> 'w list \<Rightarrow> nat \<Rightarrow> bool \<Rightarrow> 'w \<Rightarrow> 'w" where
  "jump v f us t h w =
     (if t < length us \<and> same_file v f w (us ! t) \<and> (h \<longrightarrow> cursor_of v (us ! t) = cursor_of v w)
      then us ! t else w)"

lemma jump_considerate: "(\<And>w. locked v w) \<Longrightarrow> considerate v f (jump v f us)"
  by (simp add: considerate_def same_cursor_def jump_def)

text \<open>What a message does to \<open>errno\<close> does not depend on the files.\<close>

definition local_log :: "'w system \<Rightarrow> bool" where
  "local_log os \<longleftrightarrow> (\<forall>w u e s. fst (os w e (Log s)) = fst (os u e (Log s)) \<and>
     fst (snd (os w e (Log s))) = fst (snd (os u e (Log s))))"

lemma local_log_answer:
  assumes "posix os" and "local_log os" and "os u e (Log s) = (r, e', u')"
  shows "os a e (Log s) = (r, e', a)" and "u' = u"
proof -
  have "snd (snd (os x e (Log s))) = x" for x using assms(1) unfolding posix_def by metis
  then show "u' = u" using assms(3) by (metis snd_conv)
  have "fst (os a e (Log s)) = r" "fst (snd (os a e (Log s))) = e'"
    using assms(2,3) unfolding local_log_def by (metis fst_conv snd_conv)+
  then show "os a e (Log s) = (r, e', a)"
    using \<open>\<And>x. snd (snd (os x e (Log s))) = x\<close> [of a] by (metis prod.collapse)
qed

lemma same_file_sym: "same_file v f w w' \<Longrightarrow> same_file v f w' w"
  by (simp add: same_file_def)

text \<open>
  So the events of one thread can be played amid the others, when all calls of the others leave the
  file alone and only \<open>strtok\<close> moves its static variable; in the end the file is the one at the end of the trace.
\<close>

lemma plays_amid:
  assumes "posix os" and "local_log os" and "shared os w es w'"
    and "\<And>j c e r e' u u' . j \<noteq> i \<Longrightarrow> (j, c, e, r, e') \<in> set es \<Longrightarrow> os u e c = (r, e', u') \<Longrightarrow> I u \<Longrightarrow> same_file v f u u'"
    and "\<And>j c e r e' u u'. (j, c, e, r, e') \<in> set es \<Longrightarrow> os u e c = (r, e', u') \<Longrightarrow> I u \<Longrightarrow>
      I u' \<and> ((\<forall>s d. c \<noteq> Strtok s d) \<longrightarrow> cursor_of v u' = cursor_of v u)"
    and "I w" and "same_file v f a w" and "ho = Some i \<longrightarrow> cursor_of v a = cursor_of v w"
    and "drop t us = call_worlds os i w es" and "exclusive ho es" and "all_keep_rules ho es"
  shows "\<exists>s. plays (amid (jump v f us) os) (a, t, ho = Some i) (own i es) s \<and> same_file v f (fst s) w'"
  using assms(3-11)
proof (induction arbitrary: a t ho rule: shared.induct)
  case (shared_end w)
  then show ?case by (intro exI [of _ "(a, t, ho = Some i)"]) simp
next
  case (shared_call w e c r e' u es w' j)
  let ?ho = "holder j c ho"
  note hs = holder_step [OF shared_call(10,11)]
  have u: "u = snd (snd (os w e c))" using shared_call(1) by simp
  have I: "I u" and cu: "(\<forall>s d. c \<noteq> Strtok s d) \<Longrightarrow> cursor_of v u = cursor_of v w"
    using shared_call(5) [OF list.set_intros(1) shared_call(1,6)] by blast+
  have IH: "same_file v f b u \<Longrightarrow> (?ho = Some i \<longrightarrow> cursor_of v b = cursor_of v u) \<Longrightarrow> drop n us = call_worlds os i u es \<Longrightarrow>
    \<exists>s. plays (amid (jump v f us) os) (b, n, ?ho = Some i) (own i es) s \<and> same_file v f (fst s) w'" for b n
    by (rule shared_call.IH [OF _ _ I _ _ _ hs(1,2)])
       (assumption | rule shared_call(4) [OF _ list.set_intros(2)] | rule shared_call(5) [OF list.set_intros(2)])+
  consider "j \<noteq> i" | s where "j = i" "c = Log s" | "j = i" "\<not> prints c" by (cases c) auto
  then show ?case
  proof cases
    case 1
    have ho: "?ho = Some i \<longleftrightarrow> ho = Some i" using 1 by (intro hs(4)) simp
    have "same_file v f w u" by (rule shared_call(4) [OF 1 list.set_intros(1) shared_call(1,6)])
    then have "same_file v f a u" by (rule same_file_trans [OF shared_call(7)])
    moreover have "?ho = Some i \<longrightarrow> cursor_of v a = cursor_of v u"
      using ho hs(5) [OF 1 [symmetric]] cu shared_call(8) by metis
    moreover have "drop t us = call_worlds os i u es" using shared_call(9) 1 u by simp
    ultimately show ?thesis using IH [of a t] 1 ho by simp
  next
    case (2 s)
    note l = local_log_answer [OF assms(1,2) shared_call(1) [unfolded 2]]
    have "drop t us = call_worlds os i u es" using shared_call(9) 2 u by simp
    then obtain z where "plays (amid (jump v f us) os) (a, t, ho = Some i) (own i es) z" "same_file v f (fst z) w'"
      using IH [of a t] shared_call(7,8) 2 l(2) by auto
    moreover have "amid (jump v f us) os (a, t, ho = Some i) e c = (r, e', (a, t, ho = Some i))"
      using 2 l(1) by (simp add: amid_def)
    ultimately show ?thesis using 2(1) by (intro exI [of _ z]) simp
  next
    case 3
    then have d: "drop t us = w # call_worlds os i u es" using shared_call(9) u by simp
    then have t: "t < length us" "us ! t = w" "drop (t + 1) us = call_worlds os i u es"
      by (metis drop_all list.distinct(1) not_less, metis nth_via_drop, simp add: drop_Suc drop_tl)
    then have j: "jump v f us t (ho = Some i) a = w" using shared_call(7,8) by (simp add: jump_def)
    obtain z where z: "plays (amid (jump v f us) os) (u, t + 1, ?ho = Some i) (own i es) z" "same_file v f (fst z) w'"
      using IH [of u "t + 1"] t(3) by auto
    moreover have "amid (jump v f us) os (a, t, ho = Some i) e c = (r, e', (u, t + 1, ?ho = Some i))"
      using 3 j shared_call(1) hs(3) by (simp add: amid_def)
    ultimately show ?thesis using 3(1) by (intro exI [of _ z]) simp
  qed
qed


section \<open>Writers\<close>

text \<open>A thread that writes to one file: what it writes, and the content it finds.\<close>

record writer =
  wpath :: string
  winfo :: file_info
  wcontent :: string
  writes :: "one_write list"

abbreviation wfile :: "'w mount \<Rightarrow> writer \<Rightarrow> string" where
  "wfile env t \<equiv> rootdir env @ wpath t"

abbreviation wprogram :: "'w mount \<Rightarrow> writer \<Rightarrow> ('w, int list) io" where
  "wprogram env t \<equiv> write_all env (wpath t) (winfo t) (writes t)"

definition writer_ok :: "'w mount \<Rightarrow> 'w store_view \<Rightarrow> 'w \<Rightarrow> writer \<Rightarrow> bool" where
  "writer_ok env v w t \<longleftrightarrow>
     file_store (sys env) v (wfile env t) \<and> keeps_apart (sys env) v (wfile env t) \<and>
     length (rootdir env) + length (wpath t) < path_max env \<and>
     path_of v w (fh (winfo t)) = Some (wfile env t) \<and> tree_current v w (wfile env t) (wcontent t) \<and>
     good_file [nul] (wcontent t) \<and> all_tracked (wcontent t) (writes t)"

text \<open>
  The calls of a write do not open or close descriptors. In the world itself \<open>strtok\<close> goes on where its static
  variable points to, and no other call of a write moves it.
\<close>

definition steady_fds :: "'w system \<Rightarrow> 'w store_view \<Rightarrow> bool" where
  "steady_fds os v \<longleftrightarrow> (\<forall>w c f n. write_call f n c \<longrightarrow> path_of v (effect os w c) = path_of v w)"

definition steady_cursor :: "'w system \<Rightarrow> 'w store_view \<Rightarrow> bool" where
  "steady_cursor os v \<longleftrightarrow> (\<forall>w. locked v w) \<and>
     (\<forall>w c f n. write_call f n c \<and> (\<forall>s d. c \<noteq> Strtok s d) \<longrightarrow> cursor_of v (effect os w c) = cursor_of v w)"

lemma only_calls_mono: "only_calls os C f \<Longrightarrow> C \<subseteq> D \<Longrightarrow> only_calls os D f"
proof -
  assume f: "only_calls os C f" and CD: "C \<subseteq> D"
  have "steps os C p q \<Longrightarrow> steps os D p q" for p q
    by (induction rule: steps.induct) (use CD in \<open>auto intro: steps.intros\<close>)
  then show "only_calls os D f" using f unfolding only_calls_def by blast
qed

lemma write_all_calls:
  "only_calls (sys env) {c. write_call (rootdir env @ path) (fh fi) c} (write_all env path fi ws)"
proof (induction ws)
  case (Cons a ws)
  then show ?case by (cases a) (auto intro!: io_rules bb_write_calls)
qed (simp add: io_rules)

lemma scripted_goes_on: "scripted s e c = (r, e', Some k) \<Longrightarrow> \<exists>a. s = Some (a # k) \<and> fst a = c"
  by (induction s e c rule: scripted.induct) (auto split: if_splits)

text \<open>The part of a script that has been used up has the calls that were made, which are such calls only.\<close>

lemma steps_scripted:
  assumes "steps scripted C p q" and "world p = Some h" and "world q = Some k"
  shows "\<exists>used. h = used @ k \<and> calls q = calls p @ map fst used \<and> (\<forall>a\<in>set used. fst a \<in> C)"
  using assms
proof (induction arbitrary: k rule: steps.induct)
  case (steps_call p q c r e w)
  obtain a where a: "world q = Some (a # k)" "fst a = c"
    using scripted_goes_on steps_call.hyps(3) steps_call.prems(2) by fastforce
  from steps_call.IH [OF steps_call.prems(1) a(1)]
  obtain used where "h = used @ a # k" "calls q = calls p @ map fst used" "\<forall>a\<in>set used. fst a \<in> C" by blast
  then show ?case using steps_call.hyps(2) a(2) by (intro exI [of _ "used @ [a]"]) simp
qed auto

lemma follows_calls:
  assumes "follows f h x" and "only_calls scripted C f" and "a \<in> set h"
  shows "fst a \<in> C"
proof -
  obtain q where q: "f \<lparr>world = Some h, errno = 0, calls = []\<rparr> = Inr (x, q)" "world q = Some []"
    using assms(1) unfolding follows_def by blast
  show ?thesis using steps_scripted [OF only_callsD [OF assms(2) q(1)] _ q(2)] assms(3) by auto
qed

lemma follows_locks:
  assumes "follows f h x" and "only_calls scripted C f" and "leads b f b'"
  shows "lock_run b (map fst h) = Some b'"
proof -
  let ?p = "\<lparr>world = Some h, errno = 0, calls = []\<rparr>"
  obtain q where q: "f ?p = Inr (x, q)" "world q = Some []" using assms(1) unfolding follows_def by blast
  obtain used where "h = used" "calls q = map fst used"
    using steps_scripted [OF only_callsD [OF assms(2) q(1)] _ q(2)] by auto
  then show ?thesis using assms(3) q(1) unfolding leads_def by fastforce
qed

lemma in_own: "(j, a) \<in> set es \<longleftrightarrow> a \<in> set (own j es)"
  by (force simp: own_def)

lemma posix_effect: "posix os \<Longrightarrow> os w e c = (r, e', u) \<Longrightarrow> u = effect os w c"
  unfolding posix_def by (metis snd_conv)

lemma write_session_played:
  assumes "posix os" and "file_store os v (root @ wpath t)" and "considerate v (root @ wpath t) others"
    and "env = \<lparr>rootdir = root, path_max = k, sys = amid others os\<rparr>"
    and "length root + length (wpath t) < k"
    and "path_of v w (fh (winfo t)) = Some (root @ wpath t)" and "tree_current v w (root @ wpath t) (wcontent t)"
    and "good_file [nul] (wcontent t)" and "all_tracked (wcontent t) (writes t)"
    and "follows (wprogram (script_mount env) t) h ks" and "plays (amid others os) (w, 0, False) h s"
  shows "ks = map (\<lambda>(hp, off, d). int (length d)) (writes t) \<and>
    tree_current v (fst s) (root @ wpath t) (written (wcontent t) (writes t))"
proof -
  let ?f = "root @ wpath t" and ?p = "\<lparr>world = (w, 0, False), errno = 0, calls = []\<rparr>"
  have env: "sys env = amid others os" "rootdir env = root" "path_max env = k" using assms(4) by simp_all
  have "runs (wprogram env t) (w, 0, False) (\<lambda>out s. out = map (\<lambda>(hp, off, d). int (length d)) (writes t) \<and>
    tree_current (amid_view v) s (rootdir env @ wpath t) (written (wcontent t) (writes t)))"
  proof (rule runs_write_all)
    show "posix (sys env)" unfolding env using assms(1) by (rule amid_posix)
    show "file_store (sys env) (amid_view v) (rootdir env @ wpath t)"
      unfolding env using assms(2,3) by (rule amid_store)
    show "tree_current (amid_view v) (w, 0, False) (rootdir env @ wpath t) (wcontent t)"
      using assms(7) by (simp add: tree_current_def env)
  qed (use assms(5-9) in \<open>simp_all add: env\<close>)
  from this [unfolded runs_def env(2), rule_format, of ?p] obtain x q where
    q: "wprogram env t ?p = Inr (x, q)" "x = map (\<lambda>(hp, off, d). int (length d)) (writes t)"
    "tree_current (amid_view v) (world q) ?f (written (wcontent t) (writes t))" by auto
  obtain q' where q': "wprogram (script_mount env) t \<lparr>world = Some h, errno = 0, calls = []\<rparr> = Inr (ks, q')"
    "world q' = Some []"
    using assms(10) unfolding follows_def by blast
  have "\<exists>q k. wprogram env t ?p = Inr (ks, q) \<and> world q' = Some k \<and> errno q = errno q' \<and>
      plays (amid others os) (world q) k s"
    using mirrors_write_all [of env "wpath t" "winfo t" "writes t", unfolded env mirrors_def] q' assms(11)
    by (metis option.distinct(1) process.select_convs(1,2))
  then have "x = ks" "world q = s" using q(1) q'(2) by auto
  then show ?thesis using q(2,3) by (cases s) (simp add: tree_current_def)
qed


section \<open>Two files on a disk\<close>

definition two_files :: disk where
  "two_files = \<lparr>files = [''/r/a'' \<mapsto> ''abc'', ''/r/b'' \<mapsto> ''x''],
     attrs = [''/r/a'' \<mapsto> file_text ''abc'', ''/r/b'' \<mapsto> file_text ''x''],
     fds = [3 \<mapsto> ''/r/a'', 4 \<mapsto> ''/r/b''], cursor = []\<rparr>"

definition writer_a :: writer where
  "writer_a = \<lparr>wpath = ''/a'', winfo = \<lparr>flags = 1, fh = 3\<rparr>, wcontent = ''abc'',
     writes = [(zeroed_heap, 3, ''de''), (zeroed_heap, 0, ''bbcdef'')]\<rparr>"

definition writer_b :: writer where
  "writer_b = \<lparr>wpath = ''/b'', winfo = \<lparr>flags = 1, fh = 4\<rparr>, wcontent = ''x'', writes = [(zeroed_heap, 0, ''yz'')]\<rparr>"

lemma disk_view_simps [simp]:
  "content_of disk_view = files" "merkle_of disk_view = attrs" "path_of disk_view = fds" "cursor_of disk_view = cursor"
  "locked disk_view w"
  by (simp_all add: disk_view_def)

lemma disk_steady: "steady_fds disk_sys disk_view"
proof -
  have "fds (snd (disk_call w c)) = fds w" for w c
    by (induction w c rule: disk_call.induct) (auto split: option.splits)
  then show ?thesis by (simp add: steady_fds_def disk_answer)
qed

lemma disk_steady_cursor: "steady_cursor disk_sys disk_view"
proof -
  have "cursor (snd (disk_call w c)) = cursor w" if "\<forall>s d. c \<noteq> Strtok s d" for w c
    using that by (induction w c rule: disk_call.induct) (auto split: option.splits)
  then show ?thesis by (auto simp: steady_cursor_def disk_answer)
qed

lemma disk_local_log: "local_log disk_sys"
  by (simp add: local_log_def disk_sys_def)

lemma short_writes:
  "all_tracked ''abc'' [(zeroed_heap, 3, ''de''), (zeroed_heap, 0, ''bbcdef'')]"
  "all_tracked ''x'' [(zeroed_heap, 0, ''yz'')]"
  by (simp_all add: tracked_write_def write_at_def padded_short PAGE_LENGTH_def)

lemma two_writers_ok:
  "writer_ok disk_mount disk_view two_files writer_a" "writer_ok disk_mount disk_view two_files writer_b"
  by (simp_all add: writer_ok_def writer_a_def writer_b_def short_writes disk_keeps_apart tree_current_def
        two_files_def good_file_def del: all_tracked.simps)

text \<open>A part of a thread, which leaves the files of the others alone.\<close>

lemma part_leaves:
  assumes "write_all disk_mount path fi ws p = Inr (x, q)" and "f \<noteq> rootdir disk_mount @ path" and "fds (world p) (fh fi) \<noteq> Some f"
  shows "same_file disk_view f (world p) (world q) \<and> fds (world q) = fds (world p)"
proof (rule steps_invariant [OF only_callsD [OF write_all_calls [of disk_mount path fi ws]
        assms(1) [folded disk_mount_simps(1)]]])
  fix w :: disk and e c
  assume c: "c \<in> {c. write_call (rootdir disk_mount @ path) (fh fi) c}"
    and w: "same_file disk_view f (world p) w \<and> fds w = fds (world p)"
  have "fds w (fh fi) \<noteq> Some f" using w assms(3) by simp
  then have "same_file disk_view f w (effect disk_sys w c)"
    using write_call_harmless [OF disk_keeps_apart, of "rootdir disk_mount @ path" "fh fi" c f] c assms(2)
    by (simp add: harmless_def)
  moreover have "fds (effect disk_sys w c) = fds w"
    using disk_steady c by (auto simp: steady_fds_def)
  moreover have "snd (snd (sys disk_mount w e c)) = effect disk_sys w c"
    using disk_posix unfolding posix_def by simp
  ultimately show "same_file disk_view f (world p) (snd (snd (sys disk_mount w e c))) \<and>
      fds (snd (snd (sys disk_mount w e c))) = fds (world p)"
    using w same_file_trans by fastforce
qed simp

text \<open>With \<open>errno\<close> at \<open>e\<close> before and \<open>e'\<close> after it, the program uses up the script \<open>h\<close> and returns \<open>x\<close>.\<close>

definition uses :: "(script, 'a) io \<Rightarrow> int \<Rightarrow> event list \<Rightarrow> 'a \<Rightarrow> int \<Rightarrow> bool" where
  "uses f e h x e' \<longleftrightarrow> (\<forall>k p. world p = Some (h @ k) \<and> errno p = e \<longrightarrow>
     (\<exists>q. f p = Inr (x, q) \<and> world q = Some k \<and> errno q = e'))"

lemma uses_locks:
  assumes "uses f e h x e'" and "only_calls scripted C f" and "leads b f b'"
  shows "lock_run b (map fst h) = Some b'"
proof -
  let ?p = "\<lparr>world = Some (h @ []), errno = e, calls = []\<rparr>"
  obtain q where q: "f ?p = Inr (x, q)" "world q = Some []" 
    using assms(1) [unfolded uses_def, rule_format, of ?p "[]"] by auto
  obtain used where "h = used" "calls q = map fst used"
    using steps_scripted [OF only_callsD [OF assms(2) q(1)] _ q(2)] by auto
  then show ?thesis using assms(3) q(1) unfolding leads_def by fastforce
qed

text \<open>A part in which one thread takes the mutex and gives it back leaves it free.\<close>

lemma exclusive_part:
  assumes "lock_run (ho = Some i) (map fst h) = Some b" and "ho = None \<or> ho = Some i"
  shows "exclusive ho (map (Pair i) h @ es) = exclusive (if b then Some i else None) es"
  using assms
proof (induction h arbitrary: ho)
  case Nil
  then show ?case by (auto split: if_splits)
next
  case (Cons a h)
  obtain c e r e' where a: "a = (c, e, r, e')" by (metis prod_cases4)
  obtain k where k: "lock_step c (ho = Some i) = Some k" "lock_run k (map fst h) = Some b"
    using Cons.prems(1) a by (auto split: option.splits)
  have free: "c = Mutex_lock \<Longrightarrow> ho = None" using k(1) Cons.prems(2) by (auto split: if_splits)
  have next_ho: "holder i c ho = None \<or> holder i c ho = Some i" using Cons.prems(2) by (cases c) auto
  have "(holder i c ho = Some i) = k" using lock_step_holds [OF k(1)] by (cases c) auto
  then show ?case using Cons.IH [OF _ next_ho] k(2) free by (simp add: a)
qed

lemma uses_follows: "uses f 0 h x e \<Longrightarrow> follows f h x"
  unfolding uses_def follows_def by (metis append_Nil2 process.select_convs(1,2))

lemma part_runs:
  assumes "tree_current disk_view (world p) (rootdir disk_mount @ path) c" and "good_file [nul] c" and "all_tracked c ws"
    and "fds (world p) (fh fi) = Some (rootdir disk_mount @ path)" and "length path < 1000"
  shows "\<exists>h x q. write_all disk_mount path fi ws p = Inr (x, q) \<and> plays disk_sys (world p) h (world q) \<and>
    tree_current disk_view (world q) (rootdir disk_mount @ path) (written c ws) \<and>
    uses (write_all (script_mount disk_mount) path fi ws) (errno p) h x (errno q)"
proof -
  have "runs (write_all disk_mount path fi ws) (world p) (\<lambda>x w'. tree_current disk_view w' (rootdir disk_mount @ path) (written c ws))"
    using assms by (intro runs_mono [OF runs_write_all [where v = disk_view]]) simp_all
  then obtain x q where q: "write_all disk_mount path fi ws p = Inr (x, q)"
    "tree_current disk_view (world q) (rootdir disk_mount @ path) (written c ws)"
    unfolding runs_def by blast
  then show ?thesis
    using records_write_all [of disk_mount path fi ws, unfolded records_def, rule_format, OF q(1)]
    by (auto simp: uses_def)
qed

lemma write_all_append:
  "write_all env path fi (ws @ ws') =
     seq_io (write_all env path fi ws) (\<lambda>ks. seq_io (write_all env path fi ws') (\<lambda>ls. return_io (ks @ ls)))"
proof (induction ws)
  case (Cons a ws)
  then show ?case by (cases a) (simp add: fun_eq_iff io_defs bind_c_assoc split_def)
qed (simp add: fun_eq_iff io_defs bind_c_assoc split_def)

lemma uses_append:
  assumes "uses (write_all env path fi ws) e h x e'" and "uses (write_all env path fi ws') e' h' y e''"
  shows "uses (write_all env path fi (ws @ ws')) e (h @ h') (x @ y) e''"
  unfolding uses_def write_all_append
proof (intro allI impI)
  fix k and p :: "script process" assume p: "world p = Some ((h @ h') @ k) \<and> errno p = e"
  then have "world p = Some (h @ h' @ k) \<and> errno p = e" by simp
  then obtain q where q: "write_all env path fi ws p = Inr (x, q)" "world q = Some (h' @ k)" "errno q = e'"
    using assms(1) unfolding uses_def by blast
  then obtain r where "write_all env path fi ws' q = Inr (y, r)" "world r = Some k" "errno r = e''"
    using assms(2) unfolding uses_def by blast
  then show "\<exists>q. seq_io (write_all env path fi ws) (\<lambda>ks. seq_io (write_all env path fi ws') (\<lambda>ls. return_io (ks @ ls))) p =
      Inr (x @ y, q) \<and> world q = Some k \<and> errno q = e''"
    using q(1) by (simp add: io_defs)
qed


section \<open>Properties\<close>

text \<open>
  C4: any number of threads, each of which makes writes that the tree can follow to a file of its own, whose attribute is
  the tree of the file to begin with (so no thread makes the first write of a file). Their calls, those of \<open>strtok\<close>
  included, interleave in any way in which the mutex is taken only while it is free. Every
  thread that has come to its end has returned the numbers of bytes, and in the end the attribute of every file
  is the text of the tree of its content after the writes of its thread. This rests on the mutex around \<open>string_to_tree\<close>,
  without which a thread could get the tokens of another.
\<close>

theorem interleaved_writes:
  assumes "posix (sys env)" and "local_log (sys env)" and "steady_fds (sys env) v" and "steady_cursor (sys env) v"
    and "\<forall>i<length ts. writer_ok env v w (ts ! i)"
    and "distinct (map wpath ts)"
    and "shared (sys env) w es w'" and "exclusive None es" and "\<forall>a\<in>set es. fst a < length ts"
    and "\<forall>i<length ts. follows (wprogram (script_mount env) (ts ! i)) (own i es) (ks ! i)"
  shows "\<forall>i<length ts. ks ! i = map (\<lambda>(hp, off, d). int (length d)) (writes (ts ! i)) \<and>
    tree_current v w' (wfile env (ts ! i)) (written (wcontent (ts ! i)) (writes (ts ! i)))"
proof (intro allI impI)
  fix i assume i: "i < length ts"
  let ?t = "ts ! i" and ?os = "sys env"
  let ?f = "wfile env ?t"
  let ?others = "jump v ?f (call_worlds ?os i w es)"
  have ok: "writer_ok env v w ?t" using assms(5) i by blast
  have call: "write_call (wfile env (ts ! j)) (fh (winfo (ts ! j))) c \<and> j < length ts"
    if "(j, c, e, r, e') \<in> set es" for j c e r e'
  proof -
    have j: "j < length ts" using assms(9) that by fastforce
    have "fst (c, e, r, e') \<in> {c. write_call (wfile (script_mount env) (ts ! j)) (fh (winfo (ts ! j))) c}"
      using assms(10) j that write_all_calls [of "script_mount env"] by (intro follows_calls) (auto simp: in_own)
    then show ?thesis using j by simp
  qed
  have steady: "path_of v u' = path_of v w \<and> ((\<forall>s d. c \<noteq> Strtok s d) \<longrightarrow> cursor_of v u' = cursor_of v u)"
    if "(j, c, e, r, e') \<in> set es" "?os u e c = (r, e', u')" "path_of v u = path_of v w" for j c e r e' u u'
    using call [OF that(1)] that(2,3) assms(3,4) posix_effect [OF assms(1)]
    unfolding steady_fds_def steady_cursor_def by metis
  have rules: "all_keep_rules None es"
    unfolding all_keep_rules_def
  proof
    fix j
    show "lock_run (None = Some j) (map fst (own j es)) \<noteq> None"
    proof (cases "j < length ts")
      case True
      have "lock_run False (map fst (own j es)) = Some False"
        using assms(10) True write_all_calls [of "script_mount env", unfolded script_mount_simps]
        by (intro follows_locks [OF _ _ leads_write_all]) blast+
      then show ?thesis by simp
    next
      case False
      then have "own j es = []" using assms(9) by (auto simp: own_def filter_empty_conv)
      then show ?thesis by simp
    qed
  qed
  have others: "same_file v ?f u u'"
    if "j \<noteq> i" "(j, c, e, r, e') \<in> set es" "?os u e c = (r, e', u')" "path_of v u = path_of v w" for j c e r e' u u'
  proof -
    have j: "j < length ts" using call [OF that(2)] by blast
    have ne: "?f \<noteq> wfile env (ts ! j)"
      using assms(6) i j that(1) by (auto simp: distinct_conv_nth)
    have "path_of v u (fh (winfo (ts ! j))) \<noteq> Some ?f"
      using assms(5) j ne that(4) by (auto simp: writer_ok_def)
    then show ?thesis
      using write_call_harmless [OF _ conjunct1 [OF call [OF that(2)]] ne] ok posix_effect [OF assms(1) that(3)]
      unfolding writer_ok_def harmless_def by blast
  qed
  have free: "(None = Some i) = False" by simp
  obtain s where s: "plays (amid ?others ?os) (w, 0, False) (own i es) s" "same_file v ?f (fst s) w'"
    using plays_amid [OF assms(1,2,7), of i "\<lambda>u. path_of v u = path_of v w" v ?f w None 0, unfolded free]
      others steady assms(8) rules by fastforce
  have "follows (wprogram (script_mount \<lparr>rootdir = rootdir env, path_max = path_max env, sys = amid ?others ?os\<rparr>) ?t)
      (own i es) (ks ! i)"
    using assms(10) i by (simp add: script_mount_def)
  from write_session_played [OF assms(1) _ _ refl _ _ _ _ _ this s(1)]
  have "ks ! i = map (\<lambda>(hp, off, d). int (length d)) (writes ?t) \<and>
      tree_current v (fst s) ?f (written (wcontent ?t) (writes ?t))"
    using ok assms(4) jump_considerate [of v] by (auto simp: writer_ok_def steady_cursor_def)
  then show "ks ! i = map (\<lambda>(hp, off, d). int (length d)) (writes ?t) \<and>
      tree_current v w' ?f (written (wcontent ?t) (writes ?t))"
    using s(2) by (simp add: tree_current_def same_file_def)
qed

theorem interleaved_writes_witness:
  "\<exists>es ks w'. shared (sys disk_mount) two_files es w' \<and> exclusive None es \<and> (\<forall>i<length [writer_a, writer_b].
    ks ! i = map (\<lambda>(hp, off, d). int (length d)) (writes ([writer_a, writer_b] ! i)) \<and>
    tree_current disk_view w' (wfile disk_mount ([writer_a, writer_b] ! i))
      (written (wcontent ([writer_a, writer_b] ! i)) (writes ([writer_a, writer_b] ! i))))"
proof -
  let ?a = "write_all disk_mount ''/a'' \<lparr>flags = 1, fh = 3\<rparr>" and ?b = "write_all disk_mount ''/b'' \<lparr>flags = 1, fh = 4\<rparr>"
  let ?sa = "write_all (script_mount disk_mount) ''/a'' \<lparr>flags = 1, fh = 3\<rparr>"
    and ?sb = "write_all (script_mount disk_mount) ''/b'' \<lparr>flags = 1, fh = 4\<rparr>"
  let ?w1 = "[(zeroed_heap, 3 :: nat, ''de'')]" and ?w2 = "[(zeroed_heap, 0 :: nat, ''bbcdef'')]" and ?wb = "[(zeroed_heap, 0 :: nat, ''yz'')]"
  let ?fa = "''/r/a''" and ?fb = "''/r/b''"
  let ?p = "\<lparr>world = two_files, errno = 0, calls = []\<rparr>"
  have ok: "good_file [nul] ''abc''" "good_file [nul] ''abcde''" "good_file [nul] ''x''"
    "all_tracked ''abc'' ?w1" "all_tracked ''abcde'' ?w2" "all_tracked ''x'' ?wb"
    using short_writes by (simp_all add: good_file_def write_at_def)
  have cur: "tree_current disk_view two_files ?fa ''abc''" "tree_current disk_view two_files ?fb ''x''"
    "fds two_files 3 = Some ?fa" "fds two_files 4 = Some ?fb"
    by (simp_all add: tree_current_def two_files_def)
  obtain h1 x1 q1 where 1: "?a ?w1 ?p = Inr (x1, q1)" "plays disk_sys two_files h1 (world q1)"
    "tree_current disk_view (world q1) ?fa ''abcde''" "uses (?sa ?w1) 0 h1 x1 (errno q1)"
    using part_runs [of ?p "''/a''" "''abc''" ?w1 "\<lparr>flags = 1, fh = 3\<rparr>"] ok cur
    by (auto simp: write_at_def simp del: write_all.simps all_tracked.simps)
  have b1: "same_file disk_view ?fb two_files (world q1)" "fds (world q1) = fds two_files"
    using part_leaves [OF 1(1), of ?fb] cur by auto
  let ?r = "\<lparr>world = world q1, errno = 0, calls = []\<rparr>"
  have "tree_current disk_view (world q1) ?fb ''x''" using b1(1) cur(2) by (simp add: tree_current_def same_file_def)
  then obtain h2 x2 q2 where 2: "?b ?wb ?r = Inr (x2, q2)" "plays disk_sys (world q1) h2 (world q2)"
    "uses (?sb ?wb) 0 h2 x2 (errno q2)"
    using part_runs [of ?r "''/b''" "''x''" ?wb "\<lparr>flags = 1, fh = 4\<rparr>"] ok cur b1(2)
    by (auto simp del: write_all.simps all_tracked.simps)
  have a2: "same_file disk_view ?fa (world q1) (world q2)" "fds (world q2) = fds (world q1)"
    using part_leaves [OF 2(1), of ?fa] cur b1(2) by auto
  let ?t = "\<lparr>world = world q2, errno = errno q1, calls = []\<rparr>"
  have "tree_current disk_view (world q2) ?fa ''abcde''" using a2(1) 1(3) by (simp add: tree_current_def same_file_def)
  then obtain h3 x3 and q3 :: "disk process" where 3: "plays disk_sys (world q2) h3 (world q3)" "uses (?sa ?w2) (errno q1) h3 x3 (errno q3)"
    using part_runs [of ?t "''/a''" "''abcde''" ?w2 "\<lparr>flags = 1, fh = 3\<rparr>"] ok cur a2(2) b1(2)
    by (auto simp del: write_all.simps all_tracked.simps)
  let ?es = "map (Pair 0) h1 @ map (Pair 1) h2 @ map (Pair 0) h3"
  have own: "own i (map (Pair j) l) = (if i = j then l else [])" for i j :: nat and l
    by (cases "i = j"; induction l) simp_all
  have sh: "shared (sys disk_mount) two_files ?es (world q3)"
    using shared_append [OF plays_shared [OF 1(2)] shared_append [OF plays_shared [OF 2(2)] plays_shared [OF 3(1)]]] by simp
  have fo: "follows (?sa (?w1 @ ?w2)) (h1 @ h3) (x1 @ x3)" "follows (?sb ?wb) h2 x2"
    using uses_append [OF 1(4) 3(2)] 2(3) by (blast intro: uses_follows)+
  have lk: "lock_run False (map fst h1) = Some False" "lock_run False (map fst h2) = Some False"
    "lock_run False (map fst h3) = Some False"
    using uses_locks [OF 1(4) write_all_calls [of "script_mount disk_mount", unfolded script_mount_simps] leads_write_all]
      uses_locks [OF 2(3) write_all_calls [of "script_mount disk_mount", unfolded script_mount_simps] leads_write_all]
      uses_locks [OF 3(2) write_all_calls [of "script_mount disk_mount", unfolded script_mount_simps] leads_write_all]
    by blast+
  have ex: "exclusive None ?es"
    using exclusive_part [of None 0 h1 False] exclusive_part [of None 1 h2 False] exclusive_part [of None 0 h3 False "[]"] lk
    by simp
  have "\<forall>i<length [writer_a, writer_b].
    [x1 @ x3, x2] ! i = map (\<lambda>(hp, off, d). int (length d)) (writes ([writer_a, writer_b] ! i)) \<and>
    tree_current disk_view (world q3) (wfile disk_mount ([writer_a, writer_b] ! i))
      (written (wcontent ([writer_a, writer_b] ! i)) (writes ([writer_a, writer_b] ! i)))"
  proof (rule interleaved_writes [OF _ _ _ _ _ _ sh ex])
    show "\<forall>i<length [writer_a, writer_b]. writer_ok disk_mount disk_view two_files ([writer_a, writer_b] ! i)"
      using two_writers_ok by (simp add: nth_Cons')
    show "\<forall>i<length [writer_a, writer_b]. follows (wprogram (script_mount disk_mount) ([writer_a, writer_b] ! i)) (own i ?es) ([x1 @ x3, x2] ! i)"
      using fo by (auto simp: own nth_Cons' writer_a_def writer_b_def simp del: write_all.simps)
  qed (use disk_steady disk_steady_cursor disk_local_log in \<open>auto simp: writer_a_def writer_b_def\<close>)
  then show ?thesis using sh ex by blast
qed

end
