(* ===== verification/Operations.thy ===== *)
theory Operations
  imports Write
begin

text \<open>
  The table of operations of \<^verbatim>\<open>bbfs.c\<close> that FUSE calls, and what holds for all of them: which
  paths they touch, and that they pass one system call through.
\<close>


section \<open>The table\<close>

text \<open>
  The requests of FUSE: on a path, on two paths, on a path with a file info. The one for a write
  carries the memory it finds, the one for a directory the fuel of the loop.
\<close>

datatype path_request =
    Do_getattr
  | Do_readlink "64 word"
  | Do_mknod int int
  | Do_mkdir int
  | Do_unlink
  | Do_rmdir
  | Do_chmod int
  | Do_chown int int
  | Do_truncate int
  | Do_utime
  | Do_statfs
  | Do_setxattr string string nat
  | Do_getxattr string nat
  | Do_listxattr bool nat
  | Do_removexattr string
  | Do_access int

datatype paths_request = Do_symlink | Do_rename | Do_link

datatype file_request =
    Do_open
  | Do_read nat int
  | Do_write heap string int
  | Do_flush
  | Do_release
  | Do_fsync int
  | Do_opendir
  | Do_readdir nat
  | Do_releasedir
  | Do_fsyncdir int
  | Do_ftruncate int
  | Do_fgetattr

datatype request =
    At_path path_request string
  | At_paths paths_request string string
  | At_file file_request string
  | Do_init
  | Do_destroy

definition with_info :: "file_info \<Rightarrow> ('w, int) io \<Rightarrow> ('w, int \<times> file_info) io" where
  "with_info fi f = seq_io f (\<lambda>r. return_io (r, fi))"

text \<open>
  \<open>struct fuse_operations bb_oper\<close>: the status of the operation, and the file info after it.
\<close>

fun path_oper :: "'w mount \<Rightarrow> path_request \<Rightarrow> string \<Rightarrow> ('w, int) io" where
  "path_oper env Do_getattr path = bb_getattr env path"
| "path_oper env (Do_readlink n) path = seq_io (bb_readlink env path n) (\<lambda>(r, link). return_io r)"
| "path_oper env (Do_mknod mode dev) path = bb_mknod env path mode dev"
| "path_oper env (Do_mkdir mode) path = bb_mkdir env path mode"
| "path_oper env Do_unlink path = bb_unlink env path"
| "path_oper env Do_rmdir path = bb_rmdir env path"
| "path_oper env (Do_chmod mode) path = bb_chmod env path mode"
| "path_oper env (Do_chown uid gid) path = bb_chown env path uid gid"
| "path_oper env (Do_truncate n) path = bb_truncate env path n"
| "path_oper env Do_utime path = bb_utime env path"
| "path_oper env Do_statfs path = bb_statfs env path"
| "path_oper env (Do_setxattr name val n) path = bb_setxattr env path name val n"
| "path_oper env (Do_getxattr name n) path = bb_getxattr env path name n"
| "path_oper env (Do_listxattr given n) path = bb_listxattr env path given n"
| "path_oper env (Do_removexattr name) path = bb_removexattr env path name"
| "path_oper env (Do_access amode) path = bb_access env path amode"

fun paths_oper :: "'w mount \<Rightarrow> paths_request \<Rightarrow> string \<Rightarrow> string \<Rightarrow> ('w, int) io" where
  "paths_oper env Do_symlink path link = bb_symlink env path link"
| "paths_oper env Do_rename path newpath = bb_rename env path newpath"
| "paths_oper env Do_link path newpath = bb_link env path newpath"

fun file_oper :: "'w mount \<Rightarrow> file_request \<Rightarrow> string \<Rightarrow> file_info \<Rightarrow> ('w, int \<times> file_info) io" where
  "file_oper env Do_open path fi = bb_open env path fi"
| "file_oper env (Do_read n offset) path fi = with_info fi (bb_read env path n offset fi)"
| "file_oper env (Do_write hp d offset) path fi = with_info fi (bb_write env hp path d offset fi)"
| "file_oper env Do_flush path fi = with_info fi (bb_flush env path fi)"
| "file_oper env Do_release path fi = with_info fi (bb_release env path fi)"
| "file_oper env (Do_fsync datasync) path fi = with_info fi (bb_fsync env path datasync fi)"
| "file_oper env Do_opendir path fi = bb_opendir env path fi"
| "file_oper env (Do_readdir fuel) path fi = with_info fi (bb_readdir env fuel path fi)"
| "file_oper env Do_releasedir path fi = with_info fi (bb_releasedir env path fi)"
| "file_oper env (Do_fsyncdir datasync) path fi = with_info fi (bb_fsyncdir env path datasync fi)"
| "file_oper env (Do_ftruncate n) path fi = with_info fi (bb_ftruncate env path n fi)"
| "file_oper env Do_fgetattr path fi = with_info fi (bb_fgetattr env path fi)"

fun bb_oper :: "'w mount \<Rightarrow> file_info \<Rightarrow> request \<Rightarrow> ('w, int \<times> file_info) io" where
  "bb_oper env fi (At_path req path) = with_info fi (path_oper env req path)"
| "bb_oper env fi (At_paths req path newpath) = with_info fi (paths_oper env req path newpath)"
| "bb_oper env fi (At_file req path) = file_oper env req path fi"
| "bb_oper env fi Do_init = with_info fi (seq_io (bb_init env) (\<lambda>_. return_io 0))"
| "bb_oper env fi Do_destroy = with_info fi (seq_io (bb_destroy env) (\<lambda>_. return_io 0))"


section \<open>Paths\<close>

text \<open>The paths of a request that are relative to the mount point.\<close>

fun request_paths :: "request \<Rightarrow> string set" where
  "request_paths (At_path req path) = {path}"
| "request_paths (At_paths req path newpath) = (if req = Do_symlink then {newpath} else {path, newpath})"
| "request_paths (At_file req path) = {path}"
| "request_paths req = {}"

text \<open>A call whose paths are in \<open>F\<close>; the target of a symbolic link is no path of the call.\<close>

fun paths_in :: "string set \<Rightarrow> sys_call \<Rightarrow> bool" where
  "paths_in F (On_path q f) \<longleftrightarrow> f \<in> F"
| "paths_in F (On_paths Symlink f g) \<longleftrightarrow> g \<in> F"
| "paths_in F (On_paths q f g) \<longleftrightarrow> f \<in> F \<and> g \<in> F"
| "paths_in F c \<longleftrightarrow> True"

abbreviation calls_in :: "string set \<Rightarrow> sys_call set" where
  "calls_in F \<equiv> {c. paths_in F c}"

lemma only_calls_with_info [io_rules]:
  "only_calls (sys env) C f \<Longrightarrow> only_calls (sys env) C (with_info fi f)"
  unfolding with_info_def by (intro io_rules)

lemmas handler_defs =
  bb_getattr_def bb_readlink_def bb_mknod_def bb_mkdir_def bb_unlink_def bb_rmdir_def bb_symlink_def
  bb_rename_def bb_link_def bb_chmod_def bb_chown_def bb_truncate_def bb_utime_def bb_statfs_def
  bb_access_def bb_open_def bb_read_def bb_flush_def bb_release_def bb_fsync_def bb_ftruncate_def
  bb_fgetattr_def bb_setxattr_def bb_getxattr_def bb_listxattr_def bb_removexattr_def bb_opendir_def
  bb_releasedir_def bb_fsyncdir_def bb_init_def bb_destroy_def

lemma only_calls_fill: "only_calls (sys env) (calls_in F) (fill_dir env fuel dp de)"
  by (induction fuel arbitrary: de) (auto intro!: io_rules)

lemma only_calls_write:
  assumes "rootdir env @ path \<in> F"
  shows "only_calls (sys env) (calls_in F) (bb_write env hp path d offset fi)"
  unfolding bb_write_def update_merkle_def first_merkle_def set_merkle_def close_stream_def
  by (intro io_rules only_calls_fullpath) (simp_all add: assms)

lemma path_oper_calls:
  "rootdir env @ path \<in> F \<Longrightarrow> only_calls (sys env) (calls_in F) (path_oper env req path)"
  by (cases req) (auto simp: handler_defs intro!: io_rules only_calls_lines)

lemma paths_oper_calls:
  "rootdir env @ newpath \<in> F \<Longrightarrow> req \<noteq> Do_symlink \<longrightarrow> rootdir env @ path \<in> F \<Longrightarrow>
   only_calls (sys env) (calls_in F) (paths_oper env req path newpath)"
  by (cases req) (auto simp: handler_defs intro!: io_rules only_calls_fullpath)

lemma file_oper_calls:
  "rootdir env @ path \<in> F \<Longrightarrow> only_calls (sys env) (calls_in F) (file_oper env req path fi)"
  by (cases req) (auto simp: handler_defs bb_readdir_def intro!: io_rules only_calls_fill only_calls_write)

lemma bb_oper_calls: "only_calls (sys env) (calls_in ((@) (rootdir env) ` request_paths req)) (bb_oper env fi req)"
proof (cases req)
  case (At_paths r path newpath)
  then show ?thesis unfolding At_paths bb_oper.simps by (intro io_rules paths_oper_calls) auto
qed (auto simp: handler_defs intro!: io_rules path_oper_calls file_oper_calls)



section \<open>Attributes\<close>

text \<open>
  The attribute a call sets or removes, and those a request may change: \<open>setxattr\<close> and \<open>removexattr\<close>
  the one they are asked to, a write the attribute \<open>merkle\<close>.
\<close>

fun attribute_of :: "sys_call \<Rightarrow> string option" where
  "attribute_of (On_path (Setxattr name s) f) = Some name"
| "attribute_of (On_path (Removexattr name) f) = Some name"
| "attribute_of c = None"

fun changes_of :: "path_request \<Rightarrow> string set" where
  "changes_of (Do_setxattr name val n) = {name}"
| "changes_of (Do_removexattr name) = {name}"
| "changes_of req = {}"

fun attributes_of :: "request \<Rightarrow> string set" where
  "attributes_of (At_path req path) = changes_of req"
| "attributes_of (At_file (Do_write hp d offset) path) = {''merkle''}"
| "attributes_of req = {}"

abbreviation attribute_ok :: "request \<Rightarrow> sys_call \<Rightarrow> bool" where
  "attribute_ok req c \<equiv> set_option (attribute_of c) \<subseteq> attributes_of req"

lemma bb_oper_attributes: "only_calls (sys env) {c. attribute_ok req c} (bb_oper env fi req)"
proof (cases req)
  case (At_path r path)
  then show ?thesis
    by (cases r) (auto simp: handler_defs intro!: io_rules only_calls_lines)
next
  case (At_paths r path newpath)
  then show ?thesis
    by (cases r) (auto simp: handler_defs intro!: io_rules only_calls_fullpath)
next
  case (At_file r path)
  have fill: "only_calls (sys env) {c. attribute_of c = None} (fill_dir env fuel dp de)" for fuel dp de
    by (induction fuel arbitrary: de) (auto intro!: io_rules)
  have wr: "only_calls (sys env) {c. set_option (attribute_of c) \<subseteq> {''merkle''}} (bb_write env hp path d offset fi)" for hp d offset
    unfolding bb_write_def update_merkle_def first_merkle_def set_merkle_def close_stream_def
    by (intro io_rules only_calls_fullpath) simp_all
  show ?thesis
    unfolding At_file
    by (cases r) (auto simp: handler_defs bb_readdir_def intro!: io_rules fill wr)
qed (auto simp: handler_defs intro!: io_rules)


section \<open>Operations that pass one call on\<close>

text \<open>The one system call of a request, when it makes exactly one.\<close>

fun path_call :: "path_request \<Rightarrow> path_op option" where
  "path_call Do_getattr = Some Lstat"
| "path_call (Do_readlink n) = Some (Readlink (unat (n - 1)))"
| "path_call (Do_mknod mode dev) =
     (if S_ISREG mode then None else if S_ISFIFO mode then Some (Mkfifo mode) else Some (Mknod mode dev))"
| "path_call (Do_mkdir mode) = Some (Mkdir mode)"
| "path_call Do_unlink = Some Unlink"
| "path_call Do_rmdir = Some Rmdir"
| "path_call (Do_chmod mode) = Some (Chmod mode)"
| "path_call (Do_chown uid gid) = Some (Chown uid gid)"
| "path_call (Do_truncate n) = Some (Truncate n)"
| "path_call Do_utime = Some Utime"
| "path_call Do_statfs = Some Statvfs"
| "path_call (Do_setxattr name val n) = Some (Setxattr name (take n val))"
| "path_call (Do_getxattr name n) = Some (Getxattr name n)"
| "path_call (Do_listxattr given n) = (if given then None else Some (Listxattr n))"
| "path_call (Do_removexattr name) = Some (Removexattr name)"
| "path_call (Do_access amode) = Some (Access amode)"

fun paths_call :: "paths_request \<Rightarrow> string \<Rightarrow> string \<Rightarrow> string \<Rightarrow> sys_call" where
  "paths_call Do_symlink root path newpath = On_paths Symlink path (root @ newpath)"
| "paths_call Do_rename root path newpath = On_paths Rename (root @ path) (root @ newpath)"
| "paths_call Do_link root path newpath = On_paths Link (root @ path) (root @ newpath)"

fun file_call :: "file_request \<Rightarrow> fd_op option" where
  "file_call (Do_read n offset) = Some (Pread n offset)"
| "file_call Do_release = Some Close"
| "file_call (Do_fsync datasync) = Some (if datasync \<noteq> 0 then Fdatasync else Fsync)"
| "file_call (Do_ftruncate n) = Some (Ftruncate n)"
| "file_call Do_fgetattr = Some Fstat"
| "file_call req = None"

fun single_call :: "string \<Rightarrow> file_info \<Rightarrow> request \<Rightarrow> sys_call option" where
  "single_call root fi (At_path req path) = map_option (\<lambda>q. On_path q (root @ path)) (path_call req)"
| "single_call root fi (At_paths req path newpath) = Some (paths_call req root path newpath)"
| "single_call root fi (At_file req path) =
     (if req = Do_fgetattr \<and> path = ''/'' then Some (On_path Lstat (root @ path))
      else map_option (\<lambda>q. On_fd q (fh fi)) (file_call req))"
| "single_call root fi req = None"

text \<open>\<open>readlink\<close> returns the length of the link, the operation returns 0.\<close>

fun value_of :: "request \<Rightarrow> int \<Rightarrow> int" where
  "value_of (At_path (Do_readlink n) path) r = min r 0"
| "value_of req r = r"

lemma runs_with_path [run_rules]:
  assumes "posix (sys env)" and "length (rootdir env) + length path < path_max env"
    and "runs (f (rootdir env @ path)) w P"
  shows "runs (with_path env name path f) w P"
  unfolding with_path_def using assms by (auto intro!: run_rules)

lemma runs_with_file [run_rules]:
  assumes "posix (sys env)" and "runs f w P"
  shows "runs (with_file env name f) w P"
  unfolding with_file_def using assms by (auto intro!: run_rules)

lemma runs_with_info [run_rules]: "runs f w (\<lambda>r w'. P (r, fi) w') \<Longrightarrow> runs (with_info fi f) w P"
  unfolding with_info_def by (intro run_rules) (auto elim!: runs_mono intro: run_rules)

lemma status_of_sign: "status_of r s \<Longrightarrow> 0 \<le> s \<longleftrightarrow> 0 \<le> r"
  by (auto simp: status_of_def split: if_splits)

lemma path_oper_passes:
  assumes "posix (sys env)" and "length (rootdir env) + length path < path_max env"
    and "path_call req = Some q"
  shows "runs (path_oper env req path) w (\<lambda>s w'.
    w' = effect (sys env) w (On_path q (rootdir env @ path)) \<and>
    status_of (value_of (At_path req path) (ret (answer (sys env) w (On_path q (rootdir env @ path))))) s)"
proof (cases req)
  case (Do_readlink n)
  then show ?thesis
    using assms by (auto simp: bb_readlink_def status_of_def min_def intro!: run_rules split: if_splits)
qed (use assms in \<open>auto simp: handler_defs intro!: run_rules split: if_splits\<close>)

lemma paths_oper_passes:
  assumes "posix (sys env)" and "length (rootdir env) + length newpath < path_max env"
    and "req \<noteq> Do_symlink \<longrightarrow> length (rootdir env) + length path < path_max env"
  shows "runs (paths_oper env req path newpath) w (\<lambda>s w'.
    w' = effect (sys env) w (paths_call req (rootdir env) path newpath) \<and>
    status_of (ret (answer (sys env) w (paths_call req (rootdir env) path newpath))) s)"
  using assms by (cases req) (auto simp: handler_defs intro!: run_rules)

lemma file_oper_passes:
  assumes "posix (sys env)" and "length (rootdir env) + length path < path_max env"
    and "single_call (rootdir env) fi (At_file req path) = Some c"
  shows "runs (file_oper env req path fi) w (\<lambda>(s, fi') w'. fi' = fi \<and> w' = effect (sys env) w c \<and>
    status_of (ret (answer (sys env) w c)) s)"
  using assms by (cases req) (auto simp: handler_defs intro!: run_rules split: if_splits)

lemma bb_oper_passes:
  assumes "posix (sys env)" and "\<forall>path\<in>request_paths req. length (rootdir env) + length path < path_max env"
    and "single_call (rootdir env) fi req = Some c"
  shows "runs (bb_oper env fi req) w (\<lambda>(s, fi') w'. fi' = fi \<and> w' = effect (sys env) w c \<and>
    status_of (value_of req (ret (answer (sys env) w c))) s)"
proof (cases req)
  case (At_path r path)
  then obtain q where q: "path_call r = Some q" "c = On_path q (rootdir env @ path)" using assms(3) by auto
  show ?thesis
    using path_oper_passes [OF assms(1) _ q(1), of path w] assms(2) At_path q(2)
    by (auto intro!: run_rules elim!: runs_mono)
next
  case (At_paths r path newpath)
  then show ?thesis
    using paths_oper_passes [OF assms(1), of newpath r path w] assms(2,3)
    by (auto intro!: run_rules elim!: runs_mono split: if_splits)
next
  case (At_file r path)
  then show ?thesis using file_oper_passes [OF assms(1), of path fi r c w] assms(2,3) by simp
qed (use assms(3) in simp_all)

end
