(* ===== verification/Operation_Properties.thy ===== *)
theory Operation_Properties
  imports Operations Interference
begin

text \<open>
  What the operations of the file system promise: the paths they touch, the calls they pass on and
  their status, reading a directory, and what \<open>open\<close> leaves behind when it fails.
\<close>


section \<open>Reading a directory\<close>

text \<open>
  A directory stream delivers its pending names one after the other; the callback takes names while
  it has room.
\<close>

record 'w dir_view =
  pending :: "'w \<Rightarrow> string list"
  delivered :: "'w \<Rightarrow> string list"
  room :: "'w \<Rightarrow> nat"

definition dir_stream :: "'w system \<Rightarrow> int \<Rightarrow> 'w dir_view \<Rightarrow> bool" where
  "dir_stream os dp v \<longleftrightarrow>
     (\<forall>w. let w' = effect os w (On_fd Readdir dp) in
        payload (answer os w (On_fd Readdir dp)) = (case pending v w of [] \<Rightarrow> None | n # _ \<Rightarrow> Some n) \<and>
        pending v w' = tl (pending v w) \<and> delivered v w' = delivered v w \<and> room v w' = room v w) \<and>
     (\<forall>w n. let w' = effect os w (Filler n) in
        pending v w' = pending v w \<and>
        (if 0 < room v w
         then ret (answer os w (Filler n)) = 0 \<and> delivered v w' = delivered v w @ [n] \<and> room v w' = room v w - 1
         else ret (answer os w (Filler n)) \<noteq> 0 \<and> delivered v w' = delivered v w \<and> room v w' = 0))"

lemma dir_stream_read:
  assumes "dir_stream os dp v"
  shows "payload (answer os w (On_fd Readdir dp)) = (case pending v w of [] \<Rightarrow> None | n # _ \<Rightarrow> Some n)"
    "pending v (effect os w (On_fd Readdir dp)) = tl (pending v w)"
    "delivered v (effect os w (On_fd Readdir dp)) = delivered v w"
    "room v (effect os w (On_fd Readdir dp)) = room v w"
  using assms unfolding dir_stream_def Let_def by blast+

lemma dir_stream_fill:
  assumes "dir_stream os dp v"
  shows "pending v (effect os w (Filler n)) = pending v w"
    "0 < room v w \<Longrightarrow> ret (answer os w (Filler n)) = 0"
    "0 < room v w \<Longrightarrow> delivered v (effect os w (Filler n)) = delivered v w @ [n]"
    "0 < room v w \<Longrightarrow> room v (effect os w (Filler n)) = room v w - 1"
    "room v w = 0 \<Longrightarrow> ret (answer os w (Filler n)) \<noteq> 0"
    "room v w = 0 \<Longrightarrow> delivered v (effect os w (Filler n)) = delivered v w"
  using assms unfolding dir_stream_def Let_def by (metis less_irrefl)+

lemma runs_fill_dir:
  assumes "posix (sys env)" and "dir_stream (sys env) dp v"
    and "length (pending v w) < fuel"
  shows "runs (fill_dir env fuel dp n) w (\<lambda>at_end w'. at_end = (length (n # pending v w) \<le> room v w) \<and>
    delivered v w' = delivered v w @ take (room v w) (n # pending v w))"
  using assms(3)
proof (induction fuel arbitrary: n w)
  case (Suc fuel)
  note os = assms(1) and rd = dir_stream_read [OF assms(2)] and fl = dir_stream_fill [OF assms(2)]
  let ?w1 = "effect (sys env) w (Filler n)"
  let ?w2 = "effect (sys env) ?w1 (On_fd Readdir dp)"
  show ?case
  proof (cases "room v w")
    case 0
    then show ?thesis using fl(5,6) by (auto intro!: run_rules os)
  next
    case (Suc r)
    then have f: "ret (answer (sys env) w (Filler n)) = 0" "delivered v ?w1 = delivered v w @ [n]"
      "room v ?w1 = r" "pending v ?w1 = pending v w" using fl by simp_all
    show ?thesis
    proof (cases "pending v w")
      case Nil
      then show ?thesis using f Suc rd by (auto intro!: run_rules os)
    next
      case (Cons a as)
      have w2: "pending v ?w2 = as" "delivered v ?w2 = delivered v w @ [n]" "room v ?w2 = r"
        using Cons f rd by simp_all
      have "runs (fill_dir env fuel dp a) ?w2 (\<lambda>at_end w'. at_end = (length (a # pending v ?w2) \<le> room v ?w2) \<and>
        delivered v w' = delivered v ?w2 @ take (room v ?w2) (a # pending v ?w2))"
        using Suc.prems Cons w2(1) by (intro Suc.IH) simp
      then have "runs (fill_dir env fuel dp a) ?w2 (\<lambda>at_end w'. at_end = (length (n # pending v w) \<le> room v w) \<and>
        delivered v w' = delivered v w @ take (room v w) (n # pending v w))"
        by (rule runs_mono) (use Cons Suc w2 in simp)
      then show ?thesis using f(1,4) rd(1) Cons by (auto intro!: run_rules os)
    qed
  qed
qed simp


section \<open>Opening\<close>

text \<open>A system that does not touch \<open>errno\<close> when it prints.\<close>

definition quiet_log :: "'w system \<Rightarrow> bool" where
  "quiet_log os \<longleftrightarrow> (\<forall>w e s. \<exists>r. os w e (Log s) = (r, e, w))"

lemma quiet_msg:
  assumes "quiet_log os"
  shows "log_msg os s p = Inr ((), p\<lparr>calls := calls p @ [Log s]\<rparr>)"
proof -
  obtain r where "os (world p) (errno p) (Log s) = (r, errno p, world p)"
    using assms unfolding quiet_log_def by metis
  then show ?thesis by (simp add: log_msg_def perform_def io_defs)
qed

lemma quiet_lines:
  assumes "quiet_log os"
  shows "log_lines os ss p = Inr ((), p\<lparr>calls := calls p @ map Log ss\<rparr>)"
proof (induction ss arbitrary: p)
  case (Cons s ss)
  then show ?case by (simp add: quiet_msg [OF assms] io_defs)
qed (simp add: io_defs)

lemma quiet_error:
  assumes "quiet_log os"
  shows "log_error os s p = Inr (- errno p, p\<lparr>calls := calls p @ [Log s]\<rparr>)"
  by (simp add: log_error_def quiet_msg [OF assms] io_defs)

lemma quiet_syscall:
  assumes "quiet_log os"
  shows "log_syscall os s r k p =
    (if k \<le> r then Inr (r, p\<lparr>calls := calls p @ [Log s]\<rparr>)
     else Inr (- errno p, p\<lparr>calls := calls p @ [Log s, Log s]\<rparr>))"
  by (simp add: log_syscall_def log_retstat_def quiet_error [OF assms] quiet_msg [OF assms] io_defs)


section \<open>Two small systems\<close>

text \<open>A directory with a callback, and a system on which \<open>open\<close> is denied.\<close>

fun dir_call :: "string list \<times> string list \<times> nat \<Rightarrow> sys_call \<Rightarrow> reply \<times> string list \<times> string list \<times> nat" where
  "dir_call (ns, ds, k) (On_fd Readdir dp) =
     (case ns of [] \<Rightarrow> (\<lparr>ret = 0, payload = None\<rparr>, [], ds, k)
      | n # ns \<Rightarrow> (\<lparr>ret = 0, payload = Some n\<rparr>, ns, ds, k))"
| "dir_call (ns, ds, k) (Filler n) =
     (if 0 < k then (\<lparr>ret = 0, payload = None\<rparr>, ns, ds @ [n], k - 1)
      else (\<lparr>ret = 1, payload = None\<rparr>, ns, ds, 0))"
| "dir_call w c = (\<lparr>ret = 1, payload = None\<rparr>, w)"

definition dir_sys :: "(string list \<times> string list \<times> nat) system" where
  "dir_sys w e c = (case dir_call w c of (r, w') \<Rightarrow> (r, e, w'))"

definition dir_sys_view :: "(string list \<times> string list \<times> nat) dir_view" where
  "dir_sys_view = \<lparr>pending = fst, delivered = (\<lambda>w. fst (snd w)), room = (\<lambda>w. snd (snd w))\<rparr>"

lemma dir_answer: "answer dir_sys w c = fst (dir_call w c)" "effect dir_sys w c = snd (dir_call w c)"
  by (simp_all add: answer_def effect_def dir_sys_def split: prod.splits)

lemma failed_le: "failed c r \<Longrightarrow> ret r \<le> 0"
  by (induction c r rule: failed.induct) auto

lemma dir_int: "fits_int (ret (fst (dir_call w c)))"
  by (induction w c rule: dir_call.induct) (auto simp: fits_int_def split: list.splits)

lemma dir_posix [simp]: "posix dir_sys"
proof -
  have "\<not> failed c (fst (dir_call w c))" for w c
    by (induction w c rule: dir_call.induct) (auto split: list.splits dest: failed_le)
  then show ?thesis
    unfolding posix_def dir_answer using dir_int by (auto simp: dir_sys_def split: prod.splits)
qed

lemma dir_sys_stream [simp]: "dir_stream dir_sys dp dir_sys_view"
  unfolding dir_stream_def dir_answer Let_def dir_sys_view_def
  by (auto split: list.splits)

definition deny_sys :: "unit system" where
  "deny_sys w e c = (case c of On_path (Open k) f \<Rightarrow> (\<lparr>ret = -1, payload = None\<rparr>, 13, ())
     | _ \<Rightarrow> (\<lparr>ret = 1, payload = None\<rparr>, e, ()))"

lemma deny_quiet [simp]: "quiet_log deny_sys"
  by (auto simp: quiet_log_def deny_sys_def)


section \<open>Properties\<close>

text \<open>
  C16: every operation stays in the mounted directory: whatever the system answers, the calls an
  operation makes work on the root directory followed by a path of the request, and on nothing
  else; only the target of a symbolic link is passed on as it is.
\<close>

theorem bb_oper_stays_below_root:
  assumes "bb_oper env fi req p = Inr (r, q)"
  shows "\<exists>cs. calls q = calls p @ cs \<and>
    (\<forall>c\<in>set cs. paths_in ((\<lambda>path. rootdir env @ path) ` request_paths req) c)"
  using steps_calls [OF only_callsD [OF bb_oper_calls assms]] by (auto simp: image_def subset_iff)

theorem bb_oper_stays_below_root_witness:
  "\<exists>cs. calls (\<lparr>world = disk_with ''abc'' None, errno = 0,
      calls = [Log ''bb_mkdir'', Log ''bb_fullpath'', On_path (Mkdir 7) ''/r/b'', Log ''mkdir'']\<rparr> :: disk process) =
      calls (\<lparr>world = disk_with ''abc'' None, errno = 0, calls = []\<rparr> :: disk process) @ cs \<and>
    (\<forall>c\<in>set cs. paths_in ((\<lambda>path. rootdir disk_mount @ path) ` request_paths (At_path (Do_mkdir 7) ''/b'')) c)"
  by (rule bb_oper_stays_below_root
        [where env = disk_mount and req = "At_path (Do_mkdir 7) ''/b''" and r = "(1, \<lparr>flags = 0, fh = 0\<rparr>)"
          and fi = "\<lparr>flags = 0, fh = 0\<rparr>"])
     (simp add: with_info_def bb_mkdir_def with_path_def bb_fullpath_def checked_call_def log_syscall_def
        log_retstat_def log_msg_def perform_def disk_sys_def fits_int_def io_defs Let_def)

text \<open>
  C17: whatever the system answers, the only calls of an operation that change an attribute are
  those of \<open>setxattr\<close> and \<open>removexattr\<close> for the name in the request and those of a write for
  \<open>merkle\<close>; no other operation does, also not those that change or truncate a file.
\<close>

theorem bb_oper_changes_attributes:
  assumes "bb_oper env fi req p = Inr (r, q)"
  shows "\<exists>cs. calls q = calls p @ cs \<and>
    (\<forall>c\<in>set cs. \<forall>name. attribute_of c = Some name \<longrightarrow> name \<in> attributes_of req)"
  using steps_calls [OF only_callsD [OF bb_oper_attributes assms]] by (fastforce simp: subset_iff)

theorem bb_oper_changes_attributes_witness:
  "\<exists>cs. calls (\<lparr>world = disk_with ''abc'' None, errno = 0,
      calls = [Log ''bb_setxattr'', Log ''bb_fullpath'', On_path (Setxattr ''n'' ''x'') ''/r/a'', Log ''lsetxattr'']\<rparr> :: disk process) =
      calls (\<lparr>world = disk_with ''abc'' None, errno = 0, calls = []\<rparr> :: disk process) @ cs \<and>
    (\<forall>c\<in>set cs. \<forall>name. attribute_of c = Some name \<longrightarrow> name \<in> attributes_of (At_path (Do_setxattr ''n'' ''x'' 1) ''/a''))"
  by (rule bb_oper_changes_attributes
        [where env = disk_mount and r = "(0, \<lparr>flags = 0, fh = 0\<rparr>)" and fi = "\<lparr>flags = 0, fh = 0\<rparr>"])
     (simp add: with_info_def bb_setxattr_def with_path_def bb_fullpath_def checked_call_def log_syscall_def
        log_retstat_def log_msg_def perform_def disk_sys_def fits_int_def disk_with_def fun_eq_iff io_defs Let_def)

text \<open>
  C34: truncating a file leaves the attribute of the longer file: when the pages of the two have other
  hashes, the attribute is no longer the tree of the file.
\<close>

theorem bb_truncate_leaves_old_tree:
  assumes "posix (sys env)" and "length (rootdir env) + length path < path_max env"
    and "tree_current v w (rootdir env @ path) old" and "good_file s old"
    and "w1 = effect (sys env) w (On_path (Truncate (int n)) (rootdir env @ path))"
    and "ret (answer (sys env) w (On_path (Truncate (int n)) (rootdir env @ path))) = 0"
    and "content_of v w1 (rootdir env @ path) = Some (take n old)"
    and "merkle_of v w1 (rootdir env @ path) = merkle_of v w (rootdir env @ path)"
    and "0 < n" and "map digest_string (padded_pages (take n old)) \<noteq> map digest_string (padded_pages old)"
  shows "runs (bb_oper env fi (At_path (Do_truncate (int n)) path)) w (\<lambda>(r, fi') w'. r = 0 \<and>
    content_of v w' (rootdir env @ path) = Some (take n old) \<and>
    merkle_of v w' (rootdir env @ path) \<noteq> Some (text_of (map digest_string (padded_pages (take n old)))))"
proof -
  have g: "good_file s (take n old)"
    using assms(4,9) by (auto simp: good_file_def is_c_string_def dest: in_set_takeD)
  have "file_text old \<noteq> file_text (take n old)"
    using leaf_text.enc_eq_iff [OF good_leaf_list [OF assms(4)] good_leaf_list [OF g]] assms(10) by simp
  then show ?thesis
    using assms(1,2,3,5-8)
    by (auto simp: bb_truncate_def tree_current_def intro!: run_rules)
qed

theorem bb_truncate_leaves_old_tree_witness:
  "runs (bb_oper disk_mount \<lparr>flags = 0, fh = 0\<rparr> (At_path (Do_truncate (int PAGE_LENGTH)) ''/a''))
    (disk_with page_and_space (Some (file_text page_and_space))) (\<lambda>(r, fi') w'. r = 0 \<and>
    content_of disk_view w' (rootdir disk_mount @ ''/a'') = Some (take PAGE_LENGTH page_and_space) \<and>
    merkle_of disk_view w' (rootdir disk_mount @ ''/a'') \<noteq>
      Some (text_of (map digest_string (padded_pages (take PAGE_LENGTH page_and_space)))))"
proof (rule bb_truncate_leaves_old_tree [where s = "[nul]"])
  have "length (take PAGE_LENGTH page_and_space) = PAGE_LENGTH" by (simp add: page_and_space_props)
  then have "length (padded_pages (take PAGE_LENGTH page_and_space)) = 1"
    by (intro padded_short) (auto simp: PAGE_LENGTH_def)
  then have "length (map digest_string (padded_pages (take PAGE_LENGTH page_and_space))) \<noteq>
    length (map digest_string (padded_pages page_and_space))" by (simp add: page_and_space_props)
  then show "map digest_string (padded_pages (take PAGE_LENGTH page_and_space)) \<noteq> map digest_string (padded_pages page_and_space)"
    by metis
qed (simp_all add: disk_answer tree_current_def page_and_space_props, simp_all add: disk_view_def disk_with_def PAGE_LENGTH_def)

text \<open>
  C23: an operation that stands for one system call makes this call in the world it finds and
  changes nothing else; its status is the value of the call, 0 for \<open>readlink\<close>, when that is not
  negative, and a negative number when it is.
\<close>

theorem bb_oper_passes_on:
  assumes "posix (sys env)" and "\<forall>path\<in>request_paths req. length (rootdir env) + length path < path_max env"
    and "single_call (rootdir env) fi req = Some c"
  shows "runs (bb_oper env fi req) w (\<lambda>(s, fi') w'. fi' = fi \<and> w' = effect (sys env) w c \<and>
    (let r = value_of req (ret (answer (sys env) w c)) in if 0 \<le> r then s = r else s < 0))"
  using bb_oper_passes [OF assms] by (simp add: status_of_def Let_def)

theorem bb_oper_passes_on_witness:
  "runs (bb_oper disk_mount \<lparr>flags = 0, fh = 3\<rparr> (At_paths Do_rename ''/a'' ''/b'')) (disk_with ''abc'' None)
    (\<lambda>(s, fi') w'. fi' = \<lparr>flags = 0, fh = 3\<rparr> \<and>
      w' = effect (sys disk_mount) (disk_with ''abc'' None) (On_paths Rename ''/r/a'' ''/r/b'') \<and>
      (let r = value_of (At_paths Do_rename ''/a'' ''/b'')
         (ret (answer (sys disk_mount) (disk_with ''abc'' None) (On_paths Rename ''/r/a'' ''/r/b'')))
       in if 0 \<le> r then s = r else s < 0))"
  by (rule bb_oper_passes_on) simp_all

text \<open>
  C25: \<open>bb_readdir\<close> ends. It passes the names of the directory to the callback in their order until
  the names are exhausted, and returns 0, or until the callback has no room, and returns
  \<open>-ENOMEM\<close>; the loop runs at most once per name.
\<close>

theorem bb_readdir_delivers:
  assumes "posix (sys env)" and "dir_stream (sys env) (fh fi) v" and "pending v w \<noteq> []"
    and "length (pending v w) \<le> fuel"
  shows "runs (bb_readdir env fuel path fi) w (\<lambda>s w'.
    s = (if length (pending v w) \<le> room v w then 0 else - ENOMEM) \<and>
    delivered v w' = delivered v w @ take (room v w) (pending v w))"
proof -
  note os = assms(1) and rd = dir_stream_read [OF assms(2)]
  obtain n ns where n: "pending v w = n # ns" using assms(3) by (cases "pending v w") auto
  let ?w1 = "effect (sys env) w (On_fd Readdir (fh fi))"
  have w1: "payload (answer (sys env) w (On_fd Readdir (fh fi))) = Some n" "pending v ?w1 = ns"
    "delivered v ?w1 = delivered v w" "room v ?w1 = room v w" using rd n by simp_all
  have "runs (fill_dir env fuel (fh fi) n) ?w1 (\<lambda>at_end w'. at_end = (length (n # pending v ?w1) \<le> room v ?w1) \<and>
    delivered v w' = delivered v ?w1 @ take (room v ?w1) (n # pending v ?w1))"
    using assms(4) n w1(2) by (intro runs_fill_dir [OF os assms(2)]) simp
  then have "runs (fill_dir env fuel (fh fi) n) ?w1 (\<lambda>at_end w'. at_end = (length (pending v w) \<le> room v w) \<and>
    delivered v w' = delivered v w @ take (room v w) (pending v w))"
    by (rule runs_mono) (use n w1 in simp)
  then show ?thesis
    unfolding bb_readdir_def using w1(1)
    by (auto intro!: run_rules os elim!: runs_mono)
qed

theorem bb_readdir_delivers_witness:
  "runs (bb_readdir \<lparr>rootdir = ''/r'', path_max = 1024, sys = dir_sys\<rparr> 3 ''/'' \<lparr>flags = 0, fh = 5\<rparr>)
    ([''.'', ''..'', ''a''], [], 2) (\<lambda>s w'.
    s = (if length (pending dir_sys_view ([''.'', ''..'', ''a''], [], 2)) \<le> room dir_sys_view ([''.'', ''..'', ''a''], [], 2)
         then 0 else - ENOMEM) \<and>
    delivered dir_sys_view w' = delivered dir_sys_view ([''.'', ''..'', ''a''], [], 2) @
      take (room dir_sys_view ([''.'', ''..'', ''a''], [], 2)) (pending dir_sys_view ([''.'', ''..'', ''a''], [], 2)))"
  by (rule bb_readdir_delivers) (simp_all add: dir_sys_view_def [THEN arg_cong, of pending])

text \<open>
  When \<open>open\<close> fails with the error \<open>e\<close>, on a system whose printing leaves \<open>errno\<close> alone, \<open>bb_open\<close>
  returns \<open>-e\<close> and leaves \<open>-e\<close> as the file handle, not -1.
\<close>

theorem bb_open_failure:
  assumes "quiet_log (sys env)" and "length (rootdir env) + length path < path_max env"
    and "\<And>e'. sys env w e' (On_path (Open (Flags (flags fi))) (rootdir env @ path)) = (r, e, w')"
    and "as_int (ret r) < 0" and "0 < e"
  shows "runs (bb_open env path fi) w (\<lambda>(s, fi') w''. s = - e \<and> fh fi' = - e \<and> w'' = w')"
  using assms(2,4,5)
  by (auto simp: runs_def bb_open_def with_path_def bb_fullpath_def checked_call_def perform_def log_fi_def Let_def
      quiet_msg [OF assms(1)] quiet_syscall [OF assms(1)] quiet_error [OF assms(1)] quiet_lines [OF assms(1)]
      assms(3) io_defs)

theorem bb_open_failure_witness:
  "runs (bb_open \<lparr>rootdir = ''/r'', path_max = 1024, sys = deny_sys\<rparr> ''/a'' \<lparr>flags = 2, fh = 0\<rparr>) ()
    (\<lambda>(s, fi') w''. s = - 13 \<and> fh fi' = - 13 \<and> w'' = ())"
  by (rule bb_open_failure [where r = "\<lparr>ret = -1, payload = None\<rparr>"]) (simp_all add: deny_sys_def fits_int_def)

text \<open>
  The path of an operation fits its buffer exactly when root directory and path together are
  shorter than the buffer; then it is the two of them, otherwise the buffer overflows.
\<close>

theorem bb_fullpath_fits:
  assumes "posix (sys env)"
  shows "if length (rootdir env) + length path < path_max env
    then runs (bb_fullpath env path) w (\<lambda>fpath w'. fpath = rootdir env @ path \<and> w' = w \<and> length fpath < path_max env)
    else faults (bb_fullpath env path) w Overrun"
proof (cases "length (rootdir env) + length path < path_max env")
  case True
  then show ?thesis using assms by (auto intro!: run_rules)
next
  case False
  then show ?thesis by (auto simp: bb_fullpath_def Let_def faults_def fail_io_def min_def)
qed

theorem bb_fullpath_fits_witness:
  "if length (rootdir disk_mount) + length ''/a'' < path_max disk_mount
    then runs (bb_fullpath disk_mount ''/a'') (disk_with [] None)
      (\<lambda>fpath w'. fpath = rootdir disk_mount @ ''/a'' \<and> w' = disk_with [] None \<and> length fpath < path_max disk_mount)
    else faults (bb_fullpath disk_mount ''/a'') (disk_with [] None) Overrun"
  by (rule bb_fullpath_fits) simp

end
