(* ===== verification/Sessions.thy ===== *)
theory Sessions
  imports Operation_Properties
begin

text \<open>
  The file system at work: a sequence of requests of all kinds, and what becomes of the tree of one
  file.
\<close>


section \<open>Requests in a row\<close>

fun serve :: "'w mount \<Rightarrow> (file_info \<times> request) list \<Rightarrow> ('w, (int \<times> file_info) list) io" where
  "serve env [] = return_io []"
| "serve env ((fi, req) # rs) =
     seq_io (bb_oper env fi req) (\<lambda>r. seq_io (serve env rs) (\<lambda>s. return_io (r # s)))"

text \<open>
  Calls that do nothing to the content, the attribute \<open>merkle\<close> and the open descriptors of the file at
  \<open>f\<close>: they read, touch other things of the file, or work on another one.
\<close>

fun reads :: "path_op \<Rightarrow> bool" where
  "reads Lstat \<longleftrightarrow> True"
| "reads (Readlink n) \<longleftrightarrow> True"
| "reads (Chmod mode) \<longleftrightarrow> True"
| "reads (Chown uid gid) \<longleftrightarrow> True"
| "reads Utime \<longleftrightarrow> True"
| "reads Statvfs \<longleftrightarrow> True"
| "reads (Setxattr name s) \<longleftrightarrow> name \<noteq> ''merkle''"
| "reads (Removexattr name) \<longleftrightarrow> name \<noteq> ''merkle''"
| "reads (Getxattr name n) \<longleftrightarrow> True"
| "reads (Listxattr n) \<longleftrightarrow> True"
| "reads (Access amode) \<longleftrightarrow> True"
| "reads q \<longleftrightarrow> False"

fun reads_fd :: "fd_op \<Rightarrow> bool" where
  "reads_fd (Pread n off) \<longleftrightarrow> True"
| "reads_fd Fdatasync \<longleftrightarrow> True"
| "reads_fd Fsync \<longleftrightarrow> True"
| "reads_fd Fstat \<longleftrightarrow> True"
| "reads_fd d \<longleftrightarrow> False"

fun gentle :: "string \<Rightarrow> bool \<Rightarrow> sys_call \<Rightarrow> bool" where
  "gentle f on_f (On_path q g) \<longleftrightarrow> reads q \<or> g \<noteq> f"
| "gentle f on_f (On_paths q g h) \<longleftrightarrow> q = Symlink \<and> h \<noteq> f"
| "gentle f on_f (On_fd d n) \<longleftrightarrow> reads_fd d \<or> \<not> on_f"
| "gentle f on_f c \<longleftrightarrow> False"

definition gentle_store :: "'w system \<Rightarrow> 'w store_view \<Rightarrow> string \<Rightarrow> bool" where
  "gentle_store os v f \<longleftrightarrow> (\<forall>w c n. (\<forall>d k. c = On_fd d k \<longrightarrow> k = n) \<and> gentle f (path_of v w n = Some f) c \<longrightarrow>
     same_file v f w (effect os w c))"

text \<open>
  A request for the file at \<open>path\<close> with the content \<open>c\<close>: a write that the tree can follow on a
  descriptor of the file, or one gentle call.
\<close>

fun after_request :: "string \<Rightarrow> request \<Rightarrow> string" where
  "after_request c (At_file (Do_write hp d offset) path) = write_at c (nat offset) d"
| "after_request c req = c"

fun write_ok :: "string \<Rightarrow> request \<Rightarrow> bool" where
  "write_ok c (At_file (Do_write hp d offset) path) \<longleftrightarrow> heap_ok hp \<and> 0 \<le> offset \<and> tracked_write c (nat offset) d"
| "write_ok c req \<longleftrightarrow> False"

definition request_ok :: "'w mount \<Rightarrow> 'w store_view \<Rightarrow> 'w \<Rightarrow> string \<Rightarrow> string \<Rightarrow> file_info \<Rightarrow> request \<Rightarrow> bool" where
  "request_ok env v w path c fi req \<longleftrightarrow>
     (\<forall>path\<in>request_paths req. length (rootdir env) + length path < path_max env) \<and>
     (let on_f = (path_of v w (fh fi) = Some (rootdir env @ path)) in
      case single_call (rootdir env) fi req of
        Some call \<Rightarrow> gentle (rootdir env @ path) on_f call
      | None \<Rightarrow> request_paths req = {path} \<and> on_f \<and> write_ok c req)"

fun session_ok :: "'w mount \<Rightarrow> 'w store_view \<Rightarrow> 'w \<Rightarrow> string \<Rightarrow> string \<Rightarrow> (file_info \<times> request) list \<Rightarrow> bool" where
  "session_ok env v w path c [] \<longleftrightarrow> True"
| "session_ok env v w path c ((fi, req) # rs) \<longleftrightarrow>
     request_ok env v w path c fi req \<and> session_ok env v w path (after_request c req) rs"

lemma single_call_fd:
  assumes "single_call root fi req = Some (On_fd d k)"
  shows "k = fh fi"
proof (cases req)
  case (At_paths r path newpath)
  then show ?thesis using assms by (cases r) simp_all
qed (use assms in \<open>auto split: if_splits\<close>)

text \<open>The condition on a request depends on the world by the descriptors of the file only.\<close>

lemma session_ok_world:
  assumes "\<forall>n. path_of v w' n = Some (rootdir env @ path) \<longleftrightarrow> path_of v w n = Some (rootdir env @ path)"
  shows "session_ok env v w' path c rs \<longleftrightarrow> session_ok env v w path c rs"
proof (induction rs arbitrary: c)
  case (Cons a rs)
  then show ?case using assms by (cases a) (simp add: request_ok_def)
qed simp

lemma runs_request:
  assumes "posix (sys env)" and "file_store (sys env) v (rootdir env @ path)"
    and "gentle_store (sys env) v (rootdir env @ path)"
    and "tree_current v w (rootdir env @ path) c" and "good_file s c" and "request_ok env v w path c fi req"
  shows "runs (bb_oper env fi req) w (\<lambda>r w'. tree_current v w' (rootdir env @ path) (after_request c req) \<and>
    (\<forall>n. path_of v w' n = Some (rootdir env @ path) \<longleftrightarrow> path_of v w n = Some (rootdir env @ path)))"
    and "good_file s (after_request c req)"
proof -
  let ?f = "rootdir env @ path"
  have len: "\<forall>path\<in>request_paths req. length (rootdir env) + length path < path_max env"
    using assms(6) by (simp add: request_ok_def)
  have "runs (bb_oper env fi req) w (\<lambda>r w'. tree_current v w' ?f (after_request c req) \<and>
    (\<forall>n. path_of v w' n = Some ?f \<longleftrightarrow> path_of v w n = Some ?f)) \<and> good_file s (after_request c req)"
  proof (cases "single_call (rootdir env) fi req")
    case None
    then have ok: "request_paths req = {path}" "path_of v w (fh fi) = Some ?f" "write_ok c req"
      using assms(6) by (simp_all add: request_ok_def)
    then obtain hp d offset where r: "req = At_file (Do_write hp d offset) path"
      by (induction c req rule: write_ok.induct) simp_all
    define off where "off = nat offset"
    have w: "heap_ok hp" "int off = offset" "tracked_write c off d" using ok(3) r by (simp_all add: off_def)
    have "followed v w ?f hp c off d"
      using w(1,3) assms(4) good_file_slack [OF assms(5)] by (auto simp: followed_def heap_ok_def)
    from runs_bb_write [OF assms(1,2) _ ok(2) this] have
      "runs (bb_write env hp path d (int off) fi) w (\<lambda>k w'. k = int (length d) \<and>
        tree_current v w' ?f (write_at c off d) \<and> (\<forall>n. path_of v w' n = Some ?f \<longleftrightarrow> path_of v w n = Some ?f))"
      using len r by simp
    then show ?thesis
      using good_tracked [OF assms(5) w(3)] w(2)
      by (auto simp: r off_def [symmetric] intro!: run_rules elim!: runs_mono)
  next
    case (Some call)
    have "(\<forall>d k. call = On_fd d k \<longrightarrow> k = fh fi) \<and> gentle ?f (path_of v w (fh fi) = Some ?f) call"
      using Some assms(6) single_call_fd by (auto simp: request_ok_def)
    then have same: "same_file v ?f w (effect (sys env) w call)"
      using assms(3) unfolding gentle_store_def by blast
    have "after_request c req = c" using Some by (induction c req rule: after_request.induct) simp_all
    then show ?thesis
      using bb_oper_passes [OF assms(1) len Some, of w] same assms(4,5)
      by (auto simp: same_file_def tree_current_def elim!: runs_mono)
  qed
  then show "runs (bb_oper env fi req) w (\<lambda>r w'. tree_current v w' ?f (after_request c req) \<and>
    (\<forall>n. path_of v w' n = Some ?f \<longleftrightarrow> path_of v w n = Some ?f))" "good_file s (after_request c req)"
    by blast+
qed

lemma runs_serve:
  assumes "posix (sys env)" and "file_store (sys env) v (rootdir env @ path)"
    and "gentle_store (sys env) v (rootdir env @ path)"
    and "tree_current v w (rootdir env @ path) c" and "good_file s c" and "session_ok env v w path c rs"
  shows "runs (serve env rs) w (\<lambda>out w'. length out = length rs \<and>
    tree_current v w' (rootdir env @ path) (foldl after_request c (map snd rs)))"
  using assms(4-6)
proof (induction rs arbitrary: w c)
  case Nil
  then show ?case by (auto intro: run_rules)
next
  case (Cons a rs)
  obtain fi req where a: "a = (fi, req)" by (cases a)
  have ok: "request_ok env v w path c fi req" "session_ok env v w path (after_request c req) rs"
    using Cons.prems(3) a by simp_all
  note r = runs_request [OF assms(1-3) Cons.prems(1,2) ok(1)]
  have "runs (bb_oper env fi req) w (\<lambda>r w'. runs (serve env rs) w' (\<lambda>out w''. Suc (length out) = length (a # rs) \<and>
    tree_current v w'' (rootdir env @ path) (foldl after_request c (map snd (a # rs)))))"
    using r(1)
  proof (rule runs_mono)
    fix x w' assume w': "tree_current v w' (rootdir env @ path) (after_request c req) \<and>
      (\<forall>n. path_of v w' n = Some (rootdir env @ path) \<longleftrightarrow> path_of v w n = Some (rootdir env @ path))"
    then have "session_ok env v w' path (after_request c req) rs"
      by (intro iffD2 [OF session_ok_world ok(2)]) (rule conjunct2)
    from Cons.IH [OF conjunct1 [OF w'] r(2) this]
    show "runs (serve env rs) w' (\<lambda>out w''. Suc (length out) = length (a # rs) \<and>
      tree_current v w'' (rootdir env @ path) (foldl after_request c (map snd (a # rs))))"
      by (rule runs_mono) (simp add: a)
  qed
  then have "runs (bb_oper env fi req) w (\<lambda>r w'. runs (seq_io (serve env rs) (\<lambda>s. return_io (r # s))) w'
    (\<lambda>out w''. length out = length (a # rs) \<and> tree_current v w'' (rootdir env @ path) (foldl after_request c (map snd (a # rs)))))"
  proof (rule runs_mono)
    fix r w'
    assume "runs (serve env rs) w' (\<lambda>out w''. Suc (length out) = length (a # rs) \<and>
      tree_current v w'' (rootdir env @ path) (foldl after_request c (map snd (a # rs))))"
    then show "runs (seq_io (serve env rs) (\<lambda>s. return_io (r # s))) w' (\<lambda>out w''. length out = length (a # rs) \<and>
      tree_current v w'' (rootdir env @ path) (foldl after_request c (map snd (a # rs))))"
      by (intro runs_seq, elim runs_mono) (simp add: runs_return)
  qed
  then show ?case unfolding a serve.simps by (rule runs_seq)
qed


section \<open>Properties\<close>

lemma disk_gentle: "gentle_store disk_sys disk_view f"
proof -
  have path: "same_file disk_view f w (snd (disk_call w (On_path q g)))" if "reads q \<or> g \<noteq> f" for w q g
    using that by (cases q) (auto simp: same_file_def disk_view_def split: option.splits)
  have fd: "same_file disk_view f w (snd (disk_call w (On_fd d n)))" if "reads_fd d \<or> fds w n \<noteq> Some f" for w d n
    using that by (cases d) (auto simp: same_file_def disk_view_def split: option.splits)
  have paths: "same_file disk_view f w (snd (disk_call w (On_paths q g h)))" for w q g h
    by (simp add: same_file_def)
  show ?thesis
    unfolding gentle_store_def disk_answer
  proof (intro allI impI)
    fix w c n
    assume "(\<forall>d k. c = On_fd d k \<longrightarrow> k = n) \<and> gentle f (path_of disk_view w n = Some f) c"
    then show "same_file disk_view f w (snd (disk_call w c))"
      using path fd paths by (cases c) (auto simp: disk_view_def)
  qed
qed

text \<open>
  The file system at work. Whatever requests come in whatever order, if each of them is a write to
  this file that the tree can follow, or an operation that stands for one system call which leaves
  content, tree and descriptors of this file alone, all of them come back and in the end
  the attribute is the text of the tree of the file, whose content is that after the writes.
\<close>

theorem bb_oper_session:
  assumes "posix (sys env)" and "file_store (sys env) v (rootdir env @ path)"
    and "gentle_store (sys env) v (rootdir env @ path)"
    and "tree_current v w (rootdir env @ path) c" and "good_file s c" and "session_ok env v w path c rs"
  shows "runs (serve env rs) w (\<lambda>out w'. length out = length rs \<and>
    content_of v w' (rootdir env @ path) = Some (foldl after_request c (map snd rs)) \<and>
    merkle_of v w' (rootdir env @ path) =
      Some (text_of (map digest_string (padded_pages (foldl after_request c (map snd rs))))))"
  using runs_serve [OF assms] by (rule runs_mono) (simp add: tree_current_def)

theorem bb_oper_session_witness:
  "runs (serve disk_mount
      [(\<lparr>flags = 1, fh = 3\<rparr>, At_path Do_getattr ''/a''),
       (\<lparr>flags = 1, fh = 3\<rparr>, At_file (Do_write zeroed_heap ''de'' 3) ''/a''),
       (\<lparr>flags = 1, fh = 4\<rparr>, At_path (Do_truncate 0) ''/b''),
       (\<lparr>flags = 1, fh = 3\<rparr>, At_file (Do_read 5 0) ''/a'')])
    (disk_with ''abc'' (Some (file_text ''abc''))) (\<lambda>out w'. length out = 4 \<and>
    content_of disk_view w' (rootdir disk_mount @ ''/a'') = Some ''abcde'' \<and>
    merkle_of disk_view w' (rootdir disk_mount @ ''/a'') = Some (text_of (map digest_string (padded_pages ''abcde''))))"
proof -
  let ?rs = "[(\<lparr>flags = 1, fh = 3\<rparr>, At_path Do_getattr ''/a''),
       (\<lparr>flags = 1, fh = 3\<rparr>, At_file (Do_write zeroed_heap ''de'' 3) ''/a''),
       (\<lparr>flags = 1, fh = 4\<rparr>, At_path (Do_truncate 0) ''/b''),
       (\<lparr>flags = 1, fh = 3\<rparr>, At_file (Do_read 5 0) ''/a'')]"
  have "runs (serve disk_mount ?rs) (disk_with ''abc'' (Some (file_text ''abc''))) (\<lambda>out w'. length out = length ?rs \<and>
    content_of disk_view w' (rootdir disk_mount @ ''/a'') = Some (foldl after_request ''abc'' (map snd ?rs)) \<and>
    merkle_of disk_view w' (rootdir disk_mount @ ''/a'') =
      Some (text_of (map digest_string (padded_pages (foldl after_request ''abc'' (map snd ?rs))))))"
    by (rule bb_oper_session [where s = "[nul]"])
       (simp_all add: disk_gentle tree_current_def good_file_def tracked_write_def write_at_def padded_short
          request_ok_def PAGE_LENGTH_def)
  then show ?thesis by (simp add: write_at_def eval_nat_numeral del: serve.simps)
qed

end
