(* ===== verification/Storing.thy ===== *)
theory Storing
  imports Write_Properties
begin

text \<open>
  A new file written from its beginning to its end, piece by piece, between \<open>bb_open\<close> and
  \<open>bb_release\<close>: what the attribute is in the end depends on the cuts.
\<close>


section \<open>Appending\<close>

text \<open>A page as it comes into the tree, whole or without its last byte when it is full.\<close>

definition clip :: "bool \<Rightarrow> string \<Rightarrow> string" where
  "clip b s = (if b then take (PAGE_LENGTH - 1) s else s)"

abbreviation clip_text :: "bool \<Rightarrow> string \<Rightarrow> string" where
  "clip_text b c \<equiv> text_of (map digest_string (map (clip b) (padded_pages c)))"

lemma clip_short: "(b \<Longrightarrow> length s < PAGE_LENGTH) \<Longrightarrow> clip b s = s"
  by (auto simp: clip_def)

lemma clip_space [simp]: "clip b '' '' = '' ''"
  by (simp add: clip_short size_defs)

text \<open>
  A piece behind \<open>n\<close> bytes lies in one page. With \<open>b\<close> it is shorter than a page; without, it does not fill a page that
  others have begun.
\<close>

definition piece_ok :: "bool \<Rightarrow> nat \<Rightarrow> string \<Rightarrow> bool" where
  "piece_ok b n d \<longleftrightarrow> d \<noteq> [] \<and> is_c_string d \<and> n mod PAGE_LENGTH + length d \<le> PAGE_LENGTH \<and>
     (if b then length d < PAGE_LENGTH else n mod PAGE_LENGTH = 0 \<or> n mod PAGE_LENGTH + length d < PAGE_LENGTH)"

lemma write_at_end [simp]: "write_at c (length c) d = c @ d"
  by (simp add: write_at_def)

lemma append_at_boundary:
  assumes "c \<noteq> []" and "piece_ok b (length c) d" and "length c = p * PAGE_LENGTH"
  shows "(map (clip b) (padded_pages c) @ (if p < length (padded_pages c) then [] else replicate (length (padded_pages c)) '' ''))
      [p := d] = map (clip b) (padded_pages (c @ d))" and "p < 2 * length (padded_pages c)"
proof -
  have d: "d \<noteq> []" "length d \<le> PAGE_LENGTH" "clip b d = d"
    using assms(2) by (simp_all add: piece_ok_def clip_short)
  note w = write_one_page [OF assms(1) d(1,2), of p "c @ d"]
  have e: "write_at c (p * PAGE_LENGTH) d = c @ d" using assms(3) write_at_end by metis
  have le: "p * PAGE_LENGTH \<le> length c" "length d = PAGE_LENGTH \<or> length c \<le> p * PAGE_LENGTH + length d"
    using assms(3) by simp_all
  note w = write_one_page [OF assms(1) d(1,2) le e [symmetric]]
  show "p < 2 * length (padded_pages c)" by (rule w(2))
  show "(map (clip b) (padded_pages c) @ (if p < length (padded_pages c) then [] else replicate (length (padded_pages c)) '' ''))
      [p := d] = map (clip b) (padded_pages (c @ d))"
    unfolding w(1) [symmetric] using d(3) by (simp add: map_update)
qed

lemma append_inside:
  assumes "c \<noteq> []" and "piece_ok b (length c) d" and "length c mod PAGE_LENGTH \<noteq> 0" and "f = length c div PAGE_LENGTH"
  shows "take f (map (clip b) (padded_pages c)) @ changed_pages (c @ d) f 1 @ drop (f + 1) (map (clip b) (padded_pages c)) =
      map (clip b) (padded_pages (c @ d))"
    and "length (c @ d) \<le> length (padded_pages c) * PAGE_LENGTH" and "(length c + length d - 1) div PAGE_LENGTH = f"
    and "f < length (padded_pages c)"
proof -
  let ?n = "length (padded_pages c)"
  have d: "d \<noteq> []" "length c mod PAGE_LENGTH + length d \<le> PAGE_LENGTH" using assms(2) by (simp_all add: piece_ok_def)
  have l: "length c = f * PAGE_LENGTH + length c mod PAGE_LENGTH" unfolding assms(4) by simp
  show k: "(length c + length d - 1) div PAGE_LENGTH = f"
  proof (rule div_nat_eqI)
    have "0 < length d" using d(1) by simp
    then show "PAGE_LENGTH * f \<le> length c + length d - 1" "length c + length d - 1 < PAGE_LENGTH * Suc f"
      using l d(2) unfolding mult_Suc_right mult.commute [of f] by linarith+
  qed
  have "length (file_pages c) \<le> ?n"
    unfolding length_padded_pow2 [OF assms(1)] by (rule pow2_ceil_bounds(1) [OF file_pages_pos [OF assms(1)]])
  then have "length c \<le> ?n * PAGE_LENGTH" using file_pages_le [OF assms(1)] by blast
  moreover have "f * PAGE_LENGTH < length c" using l assms(3) by linarith
  ultimately have "f * PAGE_LENGTH < ?n * PAGE_LENGTH" by linarith
  then show fn: "f < ?n" by simp
  then have "(f + 1) * PAGE_LENGTH \<le> ?n * PAGE_LENGTH" by (intro mult_right_mono) simp_all
  then show new: "length (c @ d) \<le> ?n * PAGE_LENGTH" using l d(2) by simp
  have N: "length (padded_pages (c @ d)) = ?n" using new by (intro padded_same [OF assms(1)]) simp_all
  have e: "take f (padded_pages c) @ changed_pages (c @ d) f 1 @ drop (f + 1) (padded_pages c) =
      clipped f (padded_pages (c @ d))"
    using write_changes_pages [OF assms(1) d(1) le_refl _ N assms(4), of 1] k new N by simp
  have ch: "map (clip b) (changed_pages (c @ d) f 1) = changed_pages (c @ d) f 1"
    by (simp add: changed_pages_def clip_def del: take_append drop_append)
  have "take f (map (clip b) (padded_pages c)) @ changed_pages (c @ d) f 1 @ drop (f + 1) (map (clip b) (padded_pages c)) =
      map (clip b) (clipped f (padded_pages (c @ d)))"
    unfolding e [symmetric] by (simp add: ch take_map drop_map del: One_nat_def)
  also have "\<dots> = map (clip b) (padded_pages (c @ d))"
  proof (cases b)
    case True
    have "map (clip b) (clipped f (padded_pages (c @ d))) =
        (map (clip b) (padded_pages (c @ d)))[f := map (clip b) (padded_pages (c @ d)) ! f]"
      using True fn N by (simp add: clipped_def clip_def map_update)
    then show ?thesis by simp
  next
    case False
    then have "length (c @ d) < (f + 1) * PAGE_LENGTH" using assms(2,3) l by (simp add: piece_ok_def)
    then show ?thesis using clipped_last [of "c @ d" f] fn N assms(1) by simp
  qed
  finally show "take f (map (clip b) (padded_pages c)) @ changed_pages (c @ d) f 1 @ drop (f + 1) (map (clip b) (padded_pages c)) =
      map (clip b) (padded_pages (c @ d))" .
qed


lemma append_update:
  assumes "heap_ok hp" and "good_file (behind_file hp) c" and "piece_ok b (length c) d" and "length c + length d + 1 < 2 ^ 31"
  shows "tree_update hp (clip_text b c) (length c) d (c @ d) (clip_text b (c @ d))"
proof -
  let ?n = "length (padded_pages c)" and ?L = "map (clip b) (padded_pages c)"
  have m: "clean (memory_of hp)" "pages_written (memory_of hp)" "starts_nul (behind_file hp)"
    "starts_nul (behind_buf hp)" using assms(1) by (simp_all add: heap_ok_def)
  have l: "length ?L = length (padded_pages c)" by simp
  obtain R where R: "string_to_tree (memory_of hp) (uninit_tree hp) (clip_text b c) = Inr R" "merkle_inv R"
    "tree_height R < 23" "freeable R" "leaf_hashes R = map digest_string ?L"
    using read_pages_text [OF assms(2) m(2) l] by blast
  have fl: "first_leaf R = ?n" using leaf_hashes_first_leaf [OF R(2,5)] by simp
  have h: "tree_height R < 24" using R(3) by simp
  have d: "d \<noteq> []" "is_c_string d" "length d \<le> PAGE_LENGTH" using assms(3) by (simp_all add: piece_ok_def)
  have ne: "c \<noteq> []" using assms(2) by (simp add: good_file_def)
  have buf: "buf_ptr hp d = Str d" using c_string_starts_nul [OF d(2) m(4)] by (simp add: buf_ptr_def)
  have fit: "fits_leaf d" using d(3) by (simp add: fits_leaf_def size_defs)
  show ?thesis
  proof (cases "length c mod PAGE_LENGTH = 0")
    case True
    then obtain p where p: "length c = p * PAGE_LENGTH" by auto
    note a = append_at_boundary [OF ne assms(3) p]
    have t: "clip_text b (c @ d) = text_of ((map digest_string ?L @ (if p < ?n then [] else replicate ?n space_hash))
        [p := digest_string d])"
      unfolding a(1) [symmetric] by (simp add: map_update space_hash_eq)
    have "\<exists>T. quick_change (memory_of hp) (length d) (p * PAGE_LENGTH) (Str d) R Wild = Inr (0, T, Str (clip_text b (c @ d)))"
    proof (cases "p < ?n")
      case True
      then show ?thesis using quick_change_place [OF m(1) R(2) h R(4) _ fit, of p] t R(5) fl by simp
    next
      case False
      then show ?thesis using quick_change_grow [OF m(1,2) R(2-4) _ _ fit, of p] a(2) t R(5) fl by simp
    qed
    then show ?thesis using R(1) buf p by (auto simp: tree_update_def)
  next
    case False
    let ?f = "length c div PAGE_LENGTH"
    note a = append_inside [OF ne assms(3) False refl]
    have q: "quick_change (memory_of hp) (length d) (length c) (buf_ptr hp d) R Wild = Inr (-2, R, Wild)"
      using False by (simp add: quick_change_def is_full_def)
    have g: "good_file (behind_file hp) (c @ d)"
      using good_write [OF assms(2) m(3) d(2,1) le_refl assms(4)] by simp
    have hs: "map digest_string (map (clip b) (padded_pages (c @ d))) = take ?f (leaf_hashes R) @
        map digest_string (changed_pages (c @ d) ?f 1) @ drop (?f + 1) (leaf_hashes R)"
      unfolding R(5) a(1) [symmetric] by (simp add: take_map drop_map)
    have "\<exists>T. pages_in_need (memory_of hp) (behind_file hp) (length d) (length c) R (Some (c @ d)) Wild =
        Inr (0, T, Str (clip_text b (c @ d)))"
    proof (rule pages_in_need_run [OF m(1) R(2-4) g _ _ _ refl _ _ hs])
      show "1 * PAGE_LENGTH < 2 ^ 31" by (simp add: PAGE_LENGTH_def)
      show "0 < length d" "length c + length d \<le> length (c @ d)" using d(1) by simp_all
      show "length (c @ d) \<le> first_leaf R * PAGE_LENGTH" using a(2) fl by simp
      show "1 = (length c + length d - 1) div PAGE_LENGTH - ?f + 1" using a(3) by simp
      have "(?n + ?f) div 2 < ?n" using a(4) by linarith
      then show "first_leaf_ready R (first_leaf R + ?f) 1" using fl by (simp add: first_leaf_ready_def)
    qed
    then show ?thesis using R(1) q unfolding tree_update_def by blast
  qed
qed



section \<open>Opening, writing, closing\<close>

text \<open>\<open>open\<close> empties a file when the flags have the bit \<open>O_TRUNC\<close>.\<close>

definition truncates :: "int \<Rightarrow> bool" where
  "truncates k \<longleftrightarrow> bit k 9"

lemma truncates_simps [simp]: "\<not> truncates 0" "\<not> truncates 1" "\<not> truncates 2"
  by (simp_all add: truncates_def bit_iff_odd)

text \<open>The pieces, each with the memory it finds, and the writes they come in.\<close>

fun appended :: "nat \<Rightarrow> (heap \<times> string) list \<Rightarrow> one_write list" where
  "appended n [] = []"
| "appended n ((hp, d) # ds) = (hp, n, d) # appended (n + length d) ds"

abbreviation whole :: "(heap \<times> string) list \<Rightarrow> string" where
  "whole ds \<equiv> concat (map snd ds)"

fun pieces_ok :: "bool \<Rightarrow> nat \<Rightarrow> (heap \<times> string) list \<Rightarrow> bool" where
  "pieces_ok b n [] \<longleftrightarrow> True"
| "pieces_ok b n ((hp, d) # ds) \<longleftrightarrow> heap_ok hp \<and> piece_ok b n d \<and> pieces_ok b (n + length d) ds"

definition store_file :: "'w mount \<Rightarrow> string \<Rightarrow> file_info \<Rightarrow> (heap \<times> string) list \<Rightarrow> ('w, int \<times> int list \<times> int) io" where
  "store_file env path fi ds =
     seq_io (bb_open env path fi) (\<lambda>(r, fi').
     seq_io (write_all env path fi' (appended 0 ds)) (\<lambda>ks.
     seq_io (bb_release env path fi') (\<lambda>s. return_io (r, ks, s))))"

text \<open>
  The file at \<open>f\<close> can be opened with the flags \<open>k\<close>, by which it keeps its content and attribute (so they do not have
  \<open>O_TRUNC\<close>), and it can be closed.
\<close>

definition opens :: "'w system \<Rightarrow> 'w store_view \<Rightarrow> string \<Rightarrow> int \<Rightarrow> bool" where
  "opens os v f k \<longleftrightarrow>
     (\<forall>w. content_of v w f \<noteq> None \<longrightarrow>
        (let c = On_path (Open (Flags k)) f; n = ret (answer os w c); w' = effect os w c in
         0 \<le> n \<and> path_of v w' n = Some f \<and> content_of v w' f = content_of v w f \<and> merkle_of v w' f = merkle_of v w f)) \<and>
     (\<forall>w n. path_of v w n = Some f \<longrightarrow>
        (let c = On_fd Close n; w' = effect os w c in
         ret (answer os w c) = 0 \<and> content_of v w' f = content_of v w f \<and> merkle_of v w' f = merkle_of v w f))"

lemma opens_open:
  assumes "opens os v f k" and "content_of v w f = Some c"
  shows "0 \<le> ret (answer os w (On_path (Open (Flags k)) f))"
    "path_of v (effect os w (On_path (Open (Flags k)) f)) (ret (answer os w (On_path (Open (Flags k)) f))) = Some f"
    "content_of v (effect os w (On_path (Open (Flags k)) f)) f = Some c"
    "merkle_of v (effect os w (On_path (Open (Flags k)) f)) f = merkle_of v w f"
  using assms unfolding opens_def Let_def by (metis option.distinct(1))+

lemma opens_close:
  assumes "opens os v f k" and "path_of v w n = Some f"
  shows "ret (answer os w (On_fd Close n)) = 0"
    "content_of v (effect os w (On_fd Close n)) f = content_of v w f"
    "merkle_of v (effect os w (On_fd Close n)) f = merkle_of v w f"
  using assms unfolding opens_def Let_def by blast+

lemma runs_appended:
  assumes "posix (sys env)" and "file_store (sys env) v (rootdir env @ path)"
    and "length (rootdir env) + length path < path_max env" and "path_of v w (fh fi) = Some (rootdir env @ path)"
    and "content_of v w (rootdir env @ path) = Some c" and "merkle_of v w (rootdir env @ path) = Some (clip_text b c)"
    and "good_file s c" and "pieces_ok b (length c) ds" and "length c + length (whole ds) + 1 < 2 ^ 31"
  shows "runs (write_all env path fi (appended (length c) ds)) w (\<lambda>ks w'. ks = map (int \<circ> length \<circ> snd) ds \<and>
    content_of v w' (rootdir env @ path) = Some (c @ whole ds) \<and>
    merkle_of v w' (rootdir env @ path) = Some (clip_text b (c @ whole ds)) \<and>
    path_of v w' (fh fi) = Some (rootdir env @ path))"
  using assms(4-9)
proof (induction ds arbitrary: w c)
  case Nil
  then show ?case by (auto intro: run_rules)
next
  case (Cons a ds)
  obtain hp d where a: "a = (hp, d)" by (cases a)
  let ?f = "rootdir env @ path"
  have ok: "heap_ok hp" "piece_ok b (length c) d" "pieces_ok b (length (c @ d)) ds" using Cons.prems(5) a by simp_all
  have g: "good_file (behind_file hp) c" using good_file_slack Cons.prems(4) ok(1) by (auto simp: heap_ok_def)
  have d: "d \<noteq> []" "is_c_string d" using ok(2) by (simp_all add: piece_ok_def)
  have n: "length c + length d + 1 < 2 ^ 31" using Cons.prems(6) a by simp
  then have i: "length d < 2 ^ 31" "length c < 2 ^ 31" by simp_all
  have t: "tree_update hp (clip_text b c) (length c) d (write_at c (length c) d) (clip_text b (c @ d))"
    using append_update [OF ok(1) g ok(2) n] by simp
  have "starts_nul s" using Cons.prems(4) by (simp add: good_file_def starts_nul_def)
  from good_write [OF Cons.prems(4) this d(2,1) le_refl n] have gd: "good_file s (c @ d)" by simp
  note p = pages_text_props [OF g length_map, of "clip b"]
  from runs_bb_write_update [OF assms(1-3) Cons.prems(1) ok(1) i Cons.prems(2) le_refl Cons.prems(3) p t]
  have "runs (bb_write env hp path d (int (length c)) fi) w (\<lambda>k w'.
    runs (write_all env path fi (appended (length (c @ d)) ds)) w' (\<lambda>ks w''. k # ks = map (int \<circ> length \<circ> snd) (a # ds) \<and>
      content_of v w'' ?f = Some (c @ whole (a # ds)) \<and> merkle_of v w'' ?f = Some (clip_text b (c @ whole (a # ds))) \<and>
      path_of v w'' (fh fi) = Some ?f))"
  proof (rule runs_mono)
    fix k w' assume k: "k = int (length d) \<and> content_of v w' ?f = Some (write_at c (length c) d) \<and>
      merkle_of v w' ?f = Some (clip_text b (c @ d)) \<and> (\<forall>n. path_of v w' n = Some ?f \<longleftrightarrow> path_of v w n = Some ?f)"
    show "runs (write_all env path fi (appended (length (c @ d)) ds)) w' (\<lambda>ks w''. k # ks = map (int \<circ> length \<circ> snd) (a # ds) \<and>
      content_of v w'' ?f = Some (c @ whole (a # ds)) \<and> merkle_of v w'' ?f = Some (clip_text b (c @ whole (a # ds))) \<and>
      path_of v w'' (fh fi) = Some ?f)"
      by (rule runs_mono [OF Cons.IH [of w' "c @ d"]]) (use k Cons.prems gd ok(3) a in simp_all)
  qed
  then show ?case unfolding a by (auto intro!: run_rules elim!: runs_mono)
qed


text \<open>The first piece makes the attribute; it is not longer than a page.\<close>

lemma runs_pieces:
  assumes "posix (sys env)" and "file_store (sys env) v (rootdir env @ path)"
    and "length (rootdir env) + length path < path_max env" and "path_of v w (fh fi) = Some (rootdir env @ path)"
    and "content_of v w (rootdir env @ path) = Some []" and "merkle_of v w (rootdir env @ path) = None"
    and "ds \<noteq> []" and "pieces_ok b 0 ds" and "length (whole ds) + 1 < 2 ^ 31"
  shows "runs (write_all env path fi (appended 0 ds)) w (\<lambda>ks w'. ks = map (int \<circ> length \<circ> snd) ds \<and>
    content_of v w' (rootdir env @ path) = Some (whole ds) \<and>
    merkle_of v w' (rootdir env @ path) = Some (clip_text b (whole ds)) \<and>
    path_of v w' (fh fi) = Some (rootdir env @ path))"
proof -
  let ?f = "rootdir env @ path"
  obtain hp d ds' where ds: "ds = (hp, d) # ds'" using assms(7) by (metis neq_Nil_conv surj_pair)
  have d: "heap_ok hp" "piece_ok b 0 d" "pieces_ok b (length d) ds'" using assms(8) ds by simp_all
  then have p: "d \<noteq> []" "is_c_string d" "length d \<le> PAGE_LENGTH" "b \<Longrightarrow> length d < PAGE_LENGTH"
    by (simp_all add: piece_ok_def)
  have fol: "followed v w ?f hp [] 0 d"
    using d(1) p(1-3) assms(5,6) by (simp add: followed_def first_write_def write_at_def is_c_string_def size_defs)
  have one: "map (clip b) (padded_pages d) = padded_pages d"
  proof (rule map_idI)
    fix s assume "s \<in> set (padded_pages d)"
    then obtain i where i: "i < length (padded_pages d)" "s = padded_pages d ! i" by (metis in_set_conv_nth)
    have "length (page_at d i) \<le> length d" by simp
    then have "b \<Longrightarrow> length s < PAGE_LENGTH" using p(4) i padded_nth [OF p(1) i(1)] by (auto simp: size_defs)
    then show "clip b s = s" by (rule clip_short)
  qed
  have g: "good_file [nul] d"
    using p(1-3) by (simp add: good_file_def size_defs)
  from runs_bb_write [OF assms(1-4) fol]
  have "runs (bb_write env hp path d (int 0) fi) w (\<lambda>k w'.
    runs (write_all env path fi (appended (length d) ds')) w' (\<lambda>ks w''. k # ks = map (int \<circ> length \<circ> snd) ds \<and>
      content_of v w'' ?f = Some (whole ds) \<and> merkle_of v w'' ?f = Some (clip_text b (whole ds)) \<and>
      path_of v w'' (fh fi) = Some ?f))"
  proof (rule runs_mono)
    fix k w' assume k: "k = int (length d) \<and> tree_current v w' ?f (write_at [] 0 d) \<and>
      (\<forall>n. path_of v w' n = Some ?f \<longleftrightarrow> path_of v w n = Some ?f)"
    then have c: "content_of v w' ?f = Some d" "merkle_of v w' ?f = Some (clip_text b d)" "path_of v w' (fh fi) = Some ?f"
      using one assms(4) by (simp_all add: tree_current_def write_at_def)
    show "runs (write_all env path fi (appended (length d) ds')) w' (\<lambda>ks w''. k # ks = map (int \<circ> length \<circ> snd) ds \<and>
      content_of v w'' ?f = Some (whole ds) \<and> merkle_of v w'' ?f = Some (clip_text b (whole ds)) \<and>
      path_of v w'' (fh fi) = Some ?f)"
      by (rule runs_mono [OF runs_appended [OF assms(1-3) c(3,1,2) g d(3)]]) (use k assms(9) ds in simp_all)
  qed
  then show ?thesis unfolding ds by (auto intro!: run_rules elim!: runs_mono)
qed

lemma runs_store_file:
  assumes "posix (sys env)" and "file_store (sys env) v (rootdir env @ path)" and "opens (sys env) v (rootdir env @ path) (flags fi)"
    and "length (rootdir env) + length path < path_max env"
    and "content_of v w (rootdir env @ path) = Some []" and "merkle_of v w (rootdir env @ path) = None"
    and "ds \<noteq> []" and "pieces_ok b 0 ds" and "length (whole ds) + 1 < 2 ^ 31"
  shows "runs (store_file env path fi ds) w (\<lambda>out w'. out = (0, map (int \<circ> length \<circ> snd) ds, 0) \<and>
    content_of v w' (rootdir env @ path) = Some (whole ds) \<and>
    merkle_of v w' (rootdir env @ path) = Some (clip_text b (whole ds)))"
proof -
  let ?f = "rootdir env @ path"
  let ?o = "On_path (Open (Flags (flags fi))) ?f"
  let ?n = "ret (answer (sys env) w ?o)" and ?w = "effect (sys env) w ?o"
  note o = opens_open [OF assms(3,5)] and cl = opens_close [OF assms(3)]
  have "runs (write_all env path (fi\<lparr>fh := ?n\<rparr>) (appended 0 ds)) ?w (\<lambda>ks w'. ks = map (int \<circ> length \<circ> snd) ds \<and>
    content_of v w' ?f = Some (whole ds) \<and> merkle_of v w' ?f = Some (clip_text b (whole ds)) \<and>
    path_of v w' (fh (fi\<lparr>fh := ?n\<rparr>)) = Some ?f)"
    using o assms(6) by (intro runs_pieces [OF assms(1,2,4) _ _ _ assms(7-9)]) simp_all
  then show ?thesis
    unfolding store_file_def bb_open_def bb_release_def with_path_def with_file_def
    using o(1) cl by (auto intro!: run_rules assms(1,4) elim!: runs_mono simp: returns_status_def)
qed



section \<open>Blocks\<close>

text \<open>A file is copied in blocks of \<open>n\<close> bytes; the last one may be shorter.\<close>

function blocks :: "nat \<Rightarrow> string \<Rightarrow> string list" where
  "blocks n c = (if c = [] \<or> n = 0 then [] else take n c # blocks n (drop n c))"
  by pat_completeness auto

termination by (relation "measure (length \<circ> snd)") auto

declare blocks.simps [simp del]

lemma concat_blocks: "0 < n \<Longrightarrow> concat (blocks n c) = c"
proof (induction n c rule: blocks.induct)
  case (1 n c)
  then show ?case by (cases "c = []") (simp_all add: blocks.simps [of n c] blocks.simps [of n "[]"])
qed

lemma blocks_Nil_iff: "0 < n \<Longrightarrow> blocks n c = [] \<longleftrightarrow> c = []"
  by (simp add: blocks.simps [of n c])

lemma multiple_below:
  assumes "(n :: nat) dvd l" and "n dvd m" and "m < l"
  shows "m + n \<le> l"
proof -
  obtain j k where jk: "l = n * k" "m = n * j" using assms(1,2) by blast
  then have "n * Suc j \<le> n * k" using assms(3) by (intro mult_le_mono2) (auto simp: Suc_le_eq)
  then show ?thesis using jk by simp
qed

lemma blocks_ok:
  assumes "heap_ok hp" and "n dvd PAGE_LENGTH" and "n dvd m" and "is_c_string c"
  shows "pieces_ok (n < PAGE_LENGTH) m (map (Pair hp) (blocks n c))"
  using assms(2-4)
proof (induction n c arbitrary: m rule: blocks.induct)
  case (1 n c)
  show ?case
  proof (cases "c = [] \<or> n = 0")
    case False
    note d = "1.prems"(1)
    have le: "n \<le> PAGE_LENGTH" using dvd_imp_le [OF d] PAGE_LENGTH_pos(1) by simp
    have "m mod PAGE_LENGTH + n \<le> PAGE_LENGTH"
      using "1.prems"(2) d PAGE_LENGTH_pos(1) by (intro multiple_below) (simp_all add: dvd_mod)
    moreover have "n = PAGE_LENGTH \<Longrightarrow> m mod PAGE_LENGTH = 0" using "1.prems"(2) by auto
    moreover have "is_c_string (take n c)" "is_c_string (drop n c)"
      using "1.prems"(3) unfolding is_c_string_def by (blast dest: in_set_takeD in_set_dropD)+
    moreover have "length (take n c) \<le> n" "take n c \<noteq> []" using False by simp_all
    ultimately have p: "piece_ok (n < PAGE_LENGTH) m (take n c)"
      unfolding piece_ok_def using le by (cases "n < PAGE_LENGTH") (simp_all del: length_take take_eq_Nil)
    have "pieces_ok (n < PAGE_LENGTH) (m + length (take n c)) (map (Pair hp) (blocks n (drop n c)))"
    proof (cases "drop n c = []")
      case True
      then show ?thesis by (simp add: blocks.simps [of n "[]"])
    next
      case 2: False
      then have "length (take n c) = n" by simp
      then show ?thesis using "1.IH" [OF False d _ \<open>is_c_string (drop n c)\<close>] "1.prems"(2) by simp
    qed
    then show ?thesis using False p assms(1) by (simp add: blocks.simps [of n c])
  qed (simp add: blocks.simps [of n c])
qed



section \<open>A disk that opens files\<close>

text \<open>With \<open>O_TRUNC\<close> the file is emptied; its attribute stays.\<close>

fun open_call :: "disk \<Rightarrow> sys_call \<Rightarrow> reply \<times> disk" where
  "open_call w (On_path (Open how) f) =
     (case files w f of
        None \<Rightarrow> (\<lparr>ret = -1, payload = None\<rparr>, w)
      | Some c \<Rightarrow> (case how of
            Creat_excl_wronly mode \<Rightarrow> (\<lparr>ret = -1, payload = None\<rparr>, w)
          | Flags k \<Rightarrow> (\<lparr>ret = 7, payload = None\<rparr>,
              w\<lparr>fds := (fds w)(7 \<mapsto> f), files := if truncates k then (files w)(f \<mapsto> []) else files w\<rparr>)))"
| "open_call w (On_fd Close n) = (\<lparr>ret = 0, payload = None\<rparr>, w\<lparr>fds := (fds w)(n := None)\<rparr>)"
| "open_call w c = disk_call w c"

definition open_sys :: "disk system" where
  "open_sys w e c = (case open_call w c of (r, w') \<Rightarrow> (r, if ret r < 0 then 5 else e, w'))"

definition open_mount :: "disk mount" where
  "open_mount = \<lparr>rootdir = ''/r'', path_max = 1024, sys = open_sys\<rparr>"

lemma open_mount_simps [simp]:
  "sys open_mount = open_sys" "rootdir open_mount = ''/r''" "path_max open_mount = 1024"
  by (simp_all add: open_mount_def)

lemma open_answer: "answer open_sys w c = fst (open_call w c)" "effect open_sys w c = snd (open_call w c)"
  by (simp_all add: answer_def effect_def open_sys_def split: prod.splits)

lemma open_failed: "failed c (fst (open_call w c)) \<Longrightarrow> ret (fst (open_call w c)) < 0"
  by (induction w c rule: open_call.induct) (auto split: option.splits open_mode.splits dest: disk_failed)

lemma open_int: "fits_int (ret (fst (open_call w c)))"
  by (induction w c rule: open_call.induct) (auto simp: fits_int_def [of "- 1"] fits_int_def [of 0] fits_int_def [of 7]
      disk_int simp del: disk_call.simps split: option.splits open_mode.splits)

lemma open_posix [simp]: "posix open_sys"
  unfolding posix_def open_answer
proof (intro conjI allI impI)
  fix w e c assume "failed c (fst (open_call w c))"
  then have "ret (fst (open_call w c)) < 0" by (rule open_failed)
  then show "0 < fst (snd (open_sys w e c))" by (cases "open_call w c") (simp add: open_sys_def)
qed (simp_all add: open_sys_def open_int split: prod.splits)

interpretation open_tokens: tokenizer open_sys cursor "\<lambda>w. True"
  by unfold_locales (simp_all add: open_answer)

lemma open_store [simp]: "file_store open_sys disk_view f"
  using open_tokens.tokenizer_axioms unfolding file_store_def open_answer same_file_def Let_def
  by (auto simp: disk_view_def split: option.splits)

lemma open_opens [simp]: "\<not> truncates k \<Longrightarrow> opens open_sys disk_view f k"
  by (auto simp: opens_def open_answer disk_view_def Let_def)


section \<open>Properties\<close>

text \<open>
  C3: a new file, opened, written from its beginning to its end in pieces and closed. All
  operations succeed and the attribute is the text of the tree of the file, if every piece is text that
  lies in one page and none of them fills a page that another has begun.
\<close>

theorem store_file_keeps_tree:
  assumes "posix (sys env)" and "file_store (sys env) v (rootdir env @ path)" and "opens (sys env) v (rootdir env @ path) (flags fi)"
    and "length (rootdir env) + length path < path_max env"
    and "content_of v w (rootdir env @ path) = Some []" and "merkle_of v w (rootdir env @ path) = None"
    and "ds \<noteq> []" and "pieces_ok False 0 ds" and "length (whole ds) + 1 < 2 ^ 31"
  shows "runs (store_file env path fi ds) w (\<lambda>out w'. out = (0, map (int \<circ> length \<circ> snd) ds, 0) \<and>
    content_of v w' (rootdir env @ path) = Some (whole ds) \<and>
    merkle_of v w' (rootdir env @ path) = Some (text_of (map digest_string (padded_pages (whole ds)))))"
proof -
  have "clip False = (\<lambda>s. s)" by (simp add: clip_def fun_eq_iff)
  then show ?thesis using runs_store_file [OF assms] by simp
qed

theorem store_file_keeps_tree_witness:
  "runs (store_file open_mount ''/a'' \<lparr>flags = 1, fh = 0\<rparr> [(zeroed_heap, ''ab''), (zeroed_heap, ''cde'')]) (disk_with [] None)
    (\<lambda>out w'. out = (0, map (int \<circ> length \<circ> snd) [(zeroed_heap, ''ab''), (zeroed_heap, ''cde'')], 0) \<and>
      content_of disk_view w' (rootdir open_mount @ ''/a'') = Some (whole [(zeroed_heap, ''ab''), (zeroed_heap, ''cde'')]) \<and>
      merkle_of disk_view w' (rootdir open_mount @ ''/a'') =
        Some (text_of (map digest_string (padded_pages (whole [(zeroed_heap, ''ab''), (zeroed_heap, ''cde'')])))))"
  by (rule store_file_keeps_tree) (simp_all add: piece_ok_def size_defs)

text \<open>
  C11: the same in blocks of \<open>n\<close> bytes, smaller than a page and dividing it, as \<open>cp\<close> through FUSE writes a file. In the tree of the
  attribute every full page is without its last byte, so that the attribute is the tree of the
  file only if these pages have the same digest without it.
\<close>

theorem store_blocks_clips_pages:
  assumes "posix (sys env)" and "file_store (sys env) v (rootdir env @ path)" and "opens (sys env) v (rootdir env @ path) (flags fi)"
    and "length (rootdir env) + length path < path_max env"
    and "content_of v w (rootdir env @ path) = Some []" and "merkle_of v w (rootdir env @ path) = None"
    and "heap_ok hp" and "n dvd PAGE_LENGTH" and "n < PAGE_LENGTH"
    and "c \<noteq> []" and "is_c_string c" and "length c + 1 < 2 ^ 31"
  shows "runs (store_file env path fi (map (Pair hp) (blocks n c))) w (\<lambda>out w'.
    content_of v w' (rootdir env @ path) = Some c \<and>
    merkle_of v w' (rootdir env @ path) = Some (text_of (map digest_string (map (take (PAGE_LENGTH - 1)) (padded_pages c)))) \<and>
    (merkle_of v w' (rootdir env @ path) = Some (text_of (map digest_string (padded_pages c))) \<longleftrightarrow>
      (\<forall>p\<in>set (padded_pages c). digest_string (take (PAGE_LENGTH - 1) p) = digest_string p)))"
proof -
  let ?ds = "map (Pair hp) (blocks n c)" and ?t = "take (PAGE_LENGTH - 1) :: string \<Rightarrow> string"
  have n: "0 < n" using assms(8) by (auto intro: Nat.gr0I simp: size_defs)
  have w: "whole ?ds = c" using concat_blocks [OF n] by (simp add: o_def)
  have ne: "?ds \<noteq> []" using assms(10) blocks_Nil_iff [OF n] by simp
  have ok: "pieces_ok True 0 ?ds" using blocks_ok [OF assms(7,8) _ assms(11), of 0] assms(9) by simp
  have g: "good_file [nul] c" using assms(10-12) by (simp add: good_file_def)
  have clip: "clip True = ?t" by (simp add: clip_def fun_eq_iff)
  have l: "leaf_list (map digest_string ps)" if "length ps = length (padded_pages c)" for ps
    using that file_page_count [OF g] by (auto simp: leaf_list_def page_count_def intro!: exI [of _ "file_height c - 1"])
  have "text_of (map digest_string (map ?t (padded_pages c))) = text_of (map digest_string (padded_pages c)) \<longleftrightarrow>
      (\<forall>p\<in>set (padded_pages c). digest_string (?t p) = digest_string p)"
    by (subst leaf_text.enc_eq_iff [OF l l]) auto
  moreover have "length (whole ?ds) + 1 < 2 ^ 31" using w assms(12) by simp
  note runs_store_file [OF assms(1-6) ne ok this, unfolded w clip]
  ultimately show ?thesis by (elim runs_mono) simp
qed

theorem store_blocks_clips_pages_witness:
  "\<exists>c. length c = 65536 \<and>
    runs (store_file open_mount ''/a'' \<lparr>flags = 1, fh = 0\<rparr> (map (Pair zeroed_heap) (blocks 4096 c))) (disk_with [] None) (\<lambda>out w'.
    content_of disk_view w' (rootdir open_mount @ ''/a'') = Some c \<and>
    merkle_of disk_view w' (rootdir open_mount @ ''/a'') = Some (text_of (map digest_string (map (take (PAGE_LENGTH - 1)) (padded_pages c)))) \<and>
    (merkle_of disk_view w' (rootdir open_mount @ ''/a'') = Some (text_of (map digest_string (padded_pages c))) \<longleftrightarrow>
      (\<forall>p\<in>set (padded_pages c). digest_string (take (PAGE_LENGTH - 1) p) = digest_string p)))"
proof (intro exI conjI)
  let ?c = "replicate 65536 CHR ''a''"
  show l: "length ?c = 65536" by (rule length_replicate)
  have c: "?c \<noteq> []" "length ?c + 1 < 2 ^ 31" "is_c_string ?c" using l by (auto simp: is_c_string_def)
  have d: "(4096 :: nat) dvd PAGE_LENGTH" by (simp add: size_defs)
  show "runs (store_file open_mount ''/a'' \<lparr>flags = 1, fh = 0\<rparr> (map (Pair zeroed_heap) (blocks 4096 ?c))) (disk_with [] None) (\<lambda>out w'.
    content_of disk_view w' (rootdir open_mount @ ''/a'') = Some ?c \<and>
    merkle_of disk_view w' (rootdir open_mount @ ''/a'') = Some (text_of (map digest_string (map (take (PAGE_LENGTH - 1)) (padded_pages ?c)))) \<and>
    (merkle_of disk_view w' (rootdir open_mount @ ''/a'') = Some (text_of (map digest_string (padded_pages ?c))) \<longleftrightarrow>
      (\<forall>p\<in>set (padded_pages ?c). digest_string (take (PAGE_LENGTH - 1) p) = digest_string p)))"
    by (rule store_blocks_clips_pages [OF _ _ _ _ _ _ _ d _ c(1,3,2)]) (simp_all add: size_defs)
qed

end
