(* ===== verification/Service.thy ===== *)
theory Service
  imports Sessions Storing "HOL-Library.Sublist"
begin

text \<open>
  The states a mounted file system can reach, seen from one file: requests of all kinds come in any
  order, files are opened and closed, other files are written, and this file gets writes its tree can follow.
\<close>


section \<open>Requests that spare a file\<close>

text \<open>
  Calls that touch neither the content nor the attribute \<open>merkle\<close> of the file at \<open>f\<close>, whatever the descriptors are, when no
  link makes another path the same file. Opening the file is one of them unless the flags have \<open>O_TRUNC\<close>. Making links is not, nor is
  renaming the file or a directory above it.
\<close>

fun opens_it :: "path_op \<Rightarrow> bool" where
  "opens_it (Open (Flags k)) \<longleftrightarrow> \<not> truncates k"
| "opens_it Opendir \<longleftrightarrow> True"
| "opens_it Fopen \<longleftrightarrow> True"
| "opens_it q \<longleftrightarrow> False"

fun spares :: "string \<Rightarrow> sys_call \<Rightarrow> bool" where
  "spares f (On_path q g) \<longleftrightarrow> g \<noteq> f \<or> reads q \<or> opens_it q"
| "spares f (On_paths q g h) \<longleftrightarrow> q = Rename \<and> \<not> prefix g f \<and> \<not> prefix h f"
| "spares f (On_fd (Pwrite d off) n) \<longleftrightarrow> False"
| "spares f (On_fd (Ftruncate k) n) \<longleftrightarrow> False"
| "spares f c \<longleftrightarrow> True"

definition same_tree :: "'w store_view \<Rightarrow> string \<Rightarrow> 'w \<Rightarrow> 'w \<Rightarrow> bool" where
  "same_tree v f w w' \<longleftrightarrow> content_of v w' f = content_of v w f \<and> merkle_of v w' f = merkle_of v w f"

definition sparing_store :: "'w system \<Rightarrow> 'w store_view \<Rightarrow> string \<Rightarrow> bool" where
  "sparing_store os v f \<longleftrightarrow>
     (\<forall>w c. spares f c \<longrightarrow> same_tree v f w (effect os w c)) \<and>
     (\<forall>w n k. path_of v w n \<noteq> Some f \<longrightarrow> same_tree v f w (effect os w (On_fd (Ftruncate k) n)))"

text \<open>The requests that lead to such calls only; a request to open the file comes with the flags.\<close>

fun reads_path :: "path_request \<Rightarrow> bool" where
  "reads_path Do_getattr \<longleftrightarrow> True"
| "reads_path (Do_readlink n) \<longleftrightarrow> True"
| "reads_path (Do_chmod mode) \<longleftrightarrow> True"
| "reads_path (Do_chown uid gid) \<longleftrightarrow> True"
| "reads_path Do_utime \<longleftrightarrow> True"
| "reads_path Do_statfs \<longleftrightarrow> True"
| "reads_path (Do_setxattr name val n) \<longleftrightarrow> name \<noteq> ''merkle''"
| "reads_path (Do_getxattr name n) \<longleftrightarrow> True"
| "reads_path (Do_listxattr given n) \<longleftrightarrow> True"
| "reads_path (Do_removexattr name) \<longleftrightarrow> name \<noteq> ''merkle''"
| "reads_path (Do_access amode) \<longleftrightarrow> True"
| "reads_path req \<longleftrightarrow> False"

fun leaves_alone :: "string \<Rightarrow> file_info \<Rightarrow> request \<Rightarrow> bool" where
  "leaves_alone f fi (At_path req path) \<longleftrightarrow> path \<noteq> f \<or> reads_path req"
| "leaves_alone f fi (At_paths req path newpath) \<longleftrightarrow> req = Do_rename \<and> \<not> prefix path f \<and> \<not> prefix newpath f"
| "leaves_alone f fi (At_file Do_open path) \<longleftrightarrow> path \<noteq> f \<or> \<not> truncates (flags fi)"
| "leaves_alone f fi (At_file (Do_write hp d offset) path) \<longleftrightarrow> False"
| "leaves_alone f fi (At_file (Do_ftruncate n) path) \<longleftrightarrow> False"
| "leaves_alone f fi req \<longleftrightarrow> True"

lemma leaves_alone_calls:
  assumes "leaves_alone path fi req"
  shows "only_calls (sys env) {c. spares (rootdir env @ path) c} (bb_oper env fi req)"
proof (cases req)
  case (At_path r g)
  then show ?thesis
    using assms by (cases r) (auto simp: handler_defs intro!: io_rules only_calls_lines)
next
  case (At_paths r g h)
  then show ?thesis
    using assms by (cases r) (auto simp: handler_defs intro!: io_rules only_calls_fullpath)
next
  case (At_file r g)
  have fill: "only_calls (sys env) {c. spares (rootdir env @ path) c} (fill_dir env fuel dp de)" for fuel dp de
    by (induction fuel arbitrary: de) (auto intro!: io_rules)
  show ?thesis
    using assms unfolding At_file
    by (cases r) (auto simp: handler_defs bb_readdir_def intro!: io_rules fill)
qed (auto simp: handler_defs intro!: io_rules)

lemma same_tree_trans: "same_tree v f w1 w2 \<Longrightarrow> same_tree v f w2 w3 \<Longrightarrow> same_tree v f w1 w3"
  by (simp add: same_tree_def)

lemma leaves_alone_same:
  assumes "posix (sys env)" and "sparing_store (sys env) v (rootdir env @ path)" and "leaves_alone path fi req"
    and "bb_oper env fi req p = Inr (x, q)"
  shows "same_tree v (rootdir env @ path) (world p) (world q)"
proof (rule steps_invariant [OF only_callsD [OF leaves_alone_calls [OF assms(3)] assms(4)]])
  fix w e c
  assume c: "c \<in> {c. spares (rootdir env @ path) c}" and w: "same_tree v (rootdir env @ path) (world p) w"
  have "snd (snd (sys env w e c)) = effect (sys env) w c" using assms(1) unfolding posix_def by simp
  then show "same_tree v (rootdir env @ path) (world p) (snd (snd (sys env w e c)))"
    using c w assms(2) same_tree_trans unfolding sparing_store_def by fastforce
qed (simp add: same_tree_def)



section \<open>Reachable states\<close>

text \<open>
  The states that the world can be in after some requests, with the content of the file at \<open>path\<close>: a write that its tree can follow, a write
  or a truncation of another file, and any request that leaves it alone. Each request is made in a process of its own.
\<close>

inductive reached :: "'w mount \<Rightarrow> 'w store_view \<Rightarrow> string \<Rightarrow> 'w \<Rightarrow> string \<Rightarrow> 'w \<Rightarrow> string \<Rightarrow> bool"
  for env v path w0 c0
where
  reached_start: "reached env v path w0 c0 w0 c0"
| reached_write: "reached env v path w0 c0 (world p) c \<Longrightarrow> heap_ok hp \<Longrightarrow>
    path_of v (world p) (fh fi) = Some (rootdir env @ path) \<Longrightarrow> tracked_write c off d \<Longrightarrow>
    bb_oper env fi (At_file (Do_write hp d (int off)) path) p = Inr (x, q) \<Longrightarrow>
    reached env v path w0 c0 (world q) (write_at c off d)"
| reached_other: "reached env v path w0 c0 (world p) c \<Longrightarrow> path' \<noteq> path \<Longrightarrow>
    path_of v (world p) (fh fi) \<noteq> Some (rootdir env @ path) \<Longrightarrow>
    bb_oper env fi (At_file (Do_write hp d offset) path') p = Inr (x, q) \<Longrightarrow>
    reached env v path w0 c0 (world q) c"
| reached_truncate: "reached env v path w0 c0 (world p) c \<Longrightarrow>
    path_of v (world p) (fh fi) \<noteq> Some (rootdir env @ path) \<Longrightarrow>
    bb_oper env fi (At_file (Do_ftruncate n) path') p = Inr (x, q) \<Longrightarrow>
    reached env v path w0 c0 (world q) c"
| reached_rest: "reached env v path w0 c0 (world p) c \<Longrightarrow> leaves_alone path fi req \<Longrightarrow>
    bb_oper env fi req p = Inr (x, q) \<Longrightarrow> reached env v path w0 c0 (world q) c"

lemma tree_current_same: "tree_current v w f c \<Longrightarrow> same_tree v f w w' \<Longrightarrow> tree_current v w' f c"
  by (simp add: tree_current_def same_tree_def)

lemma runs_tracked:
  assumes "posix (sys env)" and "file_store (sys env) v (rootdir env @ path)"
    and "length (rootdir env) + length path < path_max env"
    and "tree_current v w (rootdir env @ path) c" and "good_file s c"
    and "heap_ok hp" and "path_of v w (fh fi) = Some (rootdir env @ path)" and "tracked_write c off d"
  shows "runs (bb_oper env fi (At_file (Do_write hp d (int off)) path)) w (\<lambda>(k, fi') w'. k = int (length d) \<and> fi' = fi \<and>
    tree_current v w' (rootdir env @ path) (write_at c off d))"
proof -
  have "followed v w (rootdir env @ path) hp c off d"
    using assms(4,6,8) good_file_slack [OF assms(5)] by (auto simp: followed_def heap_ok_def)
  from runs_bb_write [OF assms(1-3,7) this] show ?thesis by (auto intro!: run_rules elim!: runs_mono)
qed

lemma runs_result: "runs f w P \<Longrightarrow> f p = Inr (x, q) \<Longrightarrow> world p = w \<Longrightarrow> P x (world q)"
  unfolding runs_def by fastforce

lemma reached_current:
  assumes "posix (sys env)" and "file_store (sys env) v (rootdir env @ path)"
    and "keeps_apart (sys env) v (rootdir env @ path)" and "sparing_store (sys env) v (rootdir env @ path)"
    and "length (rootdir env) + length path < path_max env"
    and "tree_current v w (rootdir env @ path) c" and "good_file s c"
    and "reached env v path w c w' c'"
  shows "tree_current v w' (rootdir env @ path) c' \<and> good_file s c'"
  using assms(8)
proof (induction rule: reached.induct)
  case reached_start
  then show ?case using assms(6,7) by blast
next
  case (reached_write p c hp fi off d x q)
  then have c: "tree_current v (world p) (rootdir env @ path) c" "good_file s c" by simp_all
  have "tree_current v (world q) (rootdir env @ path) (write_at c off d)"
    using runs_result [OF runs_tracked [OF assms(1,2,5) c reached_write.hyps(2-4)] reached_write.hyps(5) refl]
    by (simp add: split_def)
  then show ?case using good_tracked [OF c(2) reached_write.hyps(4)] by blast
next
  case (reached_other p c path' fi hp d offset x q)
  have "only_calls (sys env) {c. write_call (rootdir env @ path') (fh fi) c} (bb_oper env fi (At_file (Do_write hp d offset) path'))"
    using bb_write_calls by (auto intro!: io_rules)
  from only_callsD [OF this reached_other.hyps(4)]
  have "steps (sys env) {c. write_call (rootdir env @ path') (fh fi) c} p q" .
  then have "same_file v (rootdir env @ path) (world p) (world q)"
  proof (rule steps_invariant)
    fix w e c
    assume c: "c \<in> {c. write_call (rootdir env @ path') (fh fi) c}" and w: "same_file v (rootdir env @ path) (world p) w"
    have "path_of v w (fh fi) \<noteq> Some (rootdir env @ path)" using w reached_other.hyps(3) by (simp add: same_file_def)
    then have "same_file v (rootdir env @ path) w (effect (sys env) w c)"
      using write_call_harmless [OF assms(3)] c reached_other.hyps(2) by (simp add: harmless_def)
    moreover have "snd (snd (sys env w e c)) = effect (sys env) w c" using assms(1) unfolding posix_def by simp
    ultimately show "same_file v (rootdir env @ path) (world p) (snd (snd (sys env w e c)))"
      using w same_file_trans by metis
  qed (simp add: same_file_def)
  then have "same_tree v (rootdir env @ path) (world p) (world q)" by (simp add: same_file_def same_tree_def)
  from tree_current_same [OF conjunct1 [OF reached_other.IH] this] show ?case using reached_other.IH by blast
next
  case (reached_truncate p c fi n path' x q)
  have "runs (bb_oper env fi (At_file (Do_ftruncate n) path')) (world p)
      (\<lambda>x w'. w' = effect (sys env) (world p) (On_fd (Ftruncate n) (fh fi)))"
    by (auto simp: bb_ftruncate_def intro!: run_rules assms(1))
  from runs_result [OF this reached_truncate.hyps(3) refl]
  have "world q = effect (sys env) (world p) (On_fd (Ftruncate n) (fh fi))" .
  then have "same_tree v (rootdir env @ path) (world p) (world q)"
    using assms(4) reached_truncate.hyps(2) unfolding sparing_store_def by simp
  from tree_current_same [OF conjunct1 [OF reached_truncate.IH] this] show ?case using reached_truncate.IH by blast
next
  case (reached_rest p c req fi x q)
  from tree_current_same [OF conjunct1 [OF reached_rest.IH] leaves_alone_same [OF assms(1,4) reached_rest.hyps(2,3)]]
  show ?case using reached_rest.IH by blast
qed


lemma reached_goes_on:
  fixes env :: "'w mount"
  assumes "posix (sys env)" and "file_store (sys env) v (rootdir env @ path)"
    and "length (rootdir env) + length path < path_max env"
    and "tree_current v w' (rootdir env @ path) c'" and "good_file s c'" and "reached env v path w c w' c'"
    and "heap_ok hp" and "path_of v w' (fh fi) = Some (rootdir env @ path)" and "tracked_write c' off d"
  shows "runs (bb_oper env fi (At_file (Do_write hp d (int off)) path)) w' (\<lambda>(k, fi') w''.
    k = int (length d) \<and> reached env v path w c w'' (write_at c' off d))"
  unfolding runs_def
proof (intro allI impI)
  fix p :: "'w process" assume p: "world p = w'"
  note r = runs_tracked [OF assms(1-5,7-9), unfolded runs_def, rule_format, OF p]
  obtain k fi' q where q: "bb_oper env fi (At_file (Do_write hp d (int off)) path) p = Inr ((k, fi'), q)" "k = int (length d)"
    using r by (auto simp del: bb_oper.simps)
  then show "\<exists>x q. bb_oper env fi (At_file (Do_write hp d (int off)) path) p = Inr (x, q) \<and>
      (case x of (k, fi') \<Rightarrow> \<lambda>w''. k = int (length d) \<and> reached env v path w c w'' (write_at c' off d)) (world q)"
    using reached_write [OF assms(6) [folded p] assms(7) assms(8) [folded p] assms(9) q(1)] by (auto simp del: bb_oper.simps)
qed


section \<open>Properties\<close>

lemma open_keeps_apart: "keeps_apart open_sys disk_view f"
proof -
  have "same_file disk_view f w (snd (open_call w c))"
    if "c \<in> {Mutex_lock, Mutex_unlock, Fclose} \<or> prints c \<or> (\<exists>s d. c = Strtok s d)" for w c
    using that by (cases c) (auto simp: same_file_def disk_view_def)
  then show ?thesis
    unfolding keeps_apart_def open_answer same_file_def
    by (auto simp: disk_view_def split: option.splits)
qed

lemma open_spares: "sparing_store open_sys disk_view f"
proof -
  have "files (snd (open_call w c)) f = files w f \<and> attrs (snd (open_call w c)) f = attrs w f" if "spares f c" for w c
    using that
  proof (cases c)
    case (On_path q g)
    then show ?thesis using that by (cases q) (auto split: option.splits open_mode.splits)
  next
    case (On_fd q n)
    then show ?thesis using that by (cases q) auto
  qed auto
  then show ?thesis
    unfolding sparing_store_def same_tree_def open_answer by (simp add: disk_view_def)
qed

text \<open>
  C1: the state machine of the mounted file system. In every state that it reaches through requests of any kinds
  in any order, with files opened and closed in between, as long as this file is written in
  ways its tree can follow and is neither truncated (nor opened with \<open>O_TRUNC\<close>), replaced nor given another attribute, the
  attribute is the text of the tree of the file; and the next such write comes back with the number of bytes
  and leads to such a state again.
\<close>

theorem reached_keeps_tree:
  assumes "posix (sys env)" and "file_store (sys env) v (rootdir env @ path)"
    and "keeps_apart (sys env) v (rootdir env @ path)" and "sparing_store (sys env) v (rootdir env @ path)"
    and "length (rootdir env) + length path < path_max env"
    and "tree_current v w (rootdir env @ path) c" and "good_file s c"
    and "reached env v path w c w' c'"
  shows "content_of v w' (rootdir env @ path) = Some c' \<and>
    merkle_of v w' (rootdir env @ path) = Some (text_of (map digest_string (padded_pages c'))) \<and>
    (\<forall>hp off d fi. heap_ok hp \<and> path_of v w' (fh fi) = Some (rootdir env @ path) \<and> tracked_write c' off d \<longrightarrow>
      runs (bb_oper env fi (At_file (Do_write hp d (int off)) path)) w' (\<lambda>(k, fi') w''.
        k = int (length d) \<and> reached env v path w c w'' (write_at c' off d)))"
proof -
  from reached_current [OF assms]
  have t: "tree_current v w' (rootdir env @ path) c'" and g: "good_file s c'" by blast+
  show ?thesis
    using t reached_goes_on [OF assms(1,2,5) t g assms(8)] by (simp add: tree_current_def)
qed

theorem reached_keeps_tree_witness:
  "\<exists>w'. reached open_mount disk_view ''/a'' (disk_with ''abc'' (Some (file_text ''abc''))) ''abc'' w' ''abcde'' \<and>
    content_of disk_view w' (rootdir open_mount @ ''/a'') = Some ''abcde'' \<and>
    merkle_of disk_view w' (rootdir open_mount @ ''/a'') = Some (text_of (map digest_string (padded_pages ''abcde'')))"
proof -
  let ?w = "disk_with ''abc'' (Some (file_text ''abc''))" and ?f = "''/r/a''"
  let ?R = "reached open_mount disk_view ''/a'' ?w ''abc''"
  let ?op = "bb_oper open_mount \<lparr>flags = 1, fh = 0\<rparr> (At_file Do_open ''/a'')"
    and ?wr = "bb_oper open_mount \<lparr>flags = 1, fh = 7\<rparr> (At_file (Do_write zeroed_heap ''de'' (int 3)) ''/a'')"
    and ?cl = "bb_oper open_mount \<lparr>flags = 1, fh = 7\<rparr> (At_file Do_release ''/a'')"
  have cur: "tree_current disk_view ?w (rootdir open_mount @ ''/a'') ''abc''" by (simp add: tree_current_def)
  have good: "good_file [nul] ''abc''" by (simp add: good_file_def)
  have laws: "posix (sys open_mount)" "file_store (sys open_mount) disk_view (rootdir open_mount @ ''/a'')"
    "keeps_apart (sys open_mount) disk_view (rootdir open_mount @ ''/a'')"
    "sparing_store (sys open_mount) disk_view (rootdir open_mount @ ''/a'')"
    "length (rootdir open_mount) + length ''/a'' < path_max open_mount"
    by (simp_all add: open_keeps_apart open_spares)
  note inv = reached_current [OF laws cur good]
  have "runs ?op ?w (\<lambda>x w1. fds w1 7 = Some ?f)"
    by (auto simp: bb_open_def with_path_def open_answer intro!: run_rules)
  then obtain x1 q1 where q1: "?op \<lparr>world = ?w, errno = 0, calls = []\<rparr> = Inr (x1, q1)" "fds (world q1) 7 = Some ?f"
    unfolding runs_def by (metis process.select_convs(1))
  have r1: "?R (world q1) ''abc''"
    by (rule reached_rest [OF _ _ q1(1)]) (simp_all add: reached_start)
  have t: "tracked_write ''abc'' 3 ''de''" by (simp add: tracked_write_def padded_short write_at_def PAGE_LENGTH_def)
  have fd: "path_of disk_view (world q1) (fh \<lparr>flags = 1, fh = 7\<rparr>) = Some (rootdir open_mount @ ''/a'')"
    using q1(2) by (simp add: disk_view_def)
  have i1: "tree_current disk_view (world q1) (rootdir open_mount @ ''/a'') ''abc''" using inv [OF r1] by blast
  from reached_goes_on [OF laws(1,2,5) i1 good r1 zeroed_heap_simps(1) fd t]
  obtain x2 q2 where q2: "?wr q1 = Inr (x2, q2)" "?R (world q2) (write_at ''abc'' 3 ''de'')"
    unfolding runs_def by fastforce
  have r2: "?R (world q2) ''abcde''" using q2(2) by (simp add: write_at_def)
  have "runs ?cl (world q2) (\<lambda>x w3. True)"
    by (auto simp: bb_release_def returns_status_def intro!: run_rules)
  then obtain x3 q3 where q3: "?cl q2 = Inr (x3, q3)" unfolding runs_def by blast
  have r3: "?R (world q3) ''abcde''" by (rule reached_rest [OF r2 _ q3]) simp
  show ?thesis using r3 reached_keeps_tree [OF laws cur good r3] by blast
qed

end
