(* ===== verification/Integrity.thy ===== *)
theory Integrity
  imports Service
begin

text \<open>
  What the tree of a file says about the file: a file that has been changed behind the back of the file
  system no longer has the tree of its attribute, and which changes go unnoticed.
\<close>


section \<open>What the pages say about the file\<close>

lemma concat_file_pages: "concat (file_pages c) = c"
proof -
  have "concat (map (page_at c) [0..<n]) = take (n * PAGE_LENGTH) c" for n
    by (induction n) (simp_all add: add.commute [of PAGE_LENGTH] take_add)
  then show ?thesis
    using file_pages_le [of c "length (file_pages c)"] by (cases "c = []") (simp_all add: file_pages_def)
qed

text \<open>Every page but the last one is full.\<close>

lemma file_pages_full:
  assumes "i + 1 < length (file_pages c)"
  shows "length (file_pages c ! i) = PAGE_LENGTH"
proof -
  have ne: "c \<noteq> []" using assms by (auto simp: file_pages_def)
  have "(i + 1) * PAGE_LENGTH < length c" using page_number_iff [OF ne] assms by blast
  then show ?thesis using assms by (simp add: file_pages_def min_def)
qed

lemma file_pages_exact:
  assumes "c \<noteq> []" and "length c = m * PAGE_LENGTH"
  shows "length (file_pages c) = m"
proof (rule antisym)
  show "length (file_pages c) \<le> m" using file_pages_le [OF assms(1)] assms(2) by simp
  have "0 < m" using assms by (cases m) simp_all
  then have "(m - 1) * PAGE_LENGTH < length c" unfolding assms(2) by (intro mult_strict_right_mono) simp_all
  then have "m - 1 < length (file_pages c)" using page_number_iff [OF assms(1)] by blast
  then show "m \<le> length (file_pages c)" by simp
qed

text \<open>
  The second file is the first with a space at its end, where the first one ends with a full page and its tree goes on with
  a filler.
\<close>

definition filler_appended :: "string \<Rightarrow> string \<Rightarrow> bool" where
  "filler_appended c c' \<longleftrightarrow> c' = c @ '' '' \<and> length c mod PAGE_LENGTH = 0 \<and>
     length (file_pages c) < length (padded_pages c)"

lemma filler_appended_same:
  assumes "c \<noteq> []" and "filler_appended c c'"
  shows "padded_pages c' = padded_pages c"
proof (rule nth_equalityI)
  have c': "c' = c @ '' ''" "length c mod PAGE_LENGTH = 0" "length (file_pages c) < length (padded_pages c)"
    using assms(2) by (simp_all add: filler_appended_def)
  obtain m where m: "length c = m * PAGE_LENGTH" using c'(2) by auto
  have "length (file_pages c) = m" by (rule file_pages_exact [OF assms(1) m])
  then have mn: "m + 1 \<le> length (padded_pages c)" using c'(3) by simp
  then have "(m + 1) * PAGE_LENGTH \<le> length (padded_pages c) * PAGE_LENGTH" by (rule mult_le_mono1)
  moreover have "length c' = m * PAGE_LENGTH + 1" "1 \<le> PAGE_LENGTH" using c'(1) m by (simp_all add: PAGE_LENGTH_def)
  ultimately have "length c' \<le> length (padded_pages c) * PAGE_LENGTH" unfolding distrib_right by linarith
  then show N: "length (padded_pages c') = length (padded_pages c)"
    using c'(1) by (intro padded_same [OF assms(1)]) simp_all
  fix i assume i: "i < length (padded_pages c')"
  have ne: "c' \<noteq> []" using c'(1) by simp
  note at = padded_nth [OF ne i] padded_nth [OF assms(1), of i, folded N, OF i]
  consider "i < m" | "i = m" | "m < i" by linarith
  then show "padded_pages c' ! i = padded_pages c ! i"
  proof cases
    case 1
    then have "(i + 1) * PAGE_LENGTH \<le> m * PAGE_LENGTH" by (intro mult_le_mono1) simp
    then have b: "i * PAGE_LENGTH + PAGE_LENGTH \<le> length c" using m by simp
    then have "i * PAGE_LENGTH < length c" using PAGE_LENGTH_pos(1) by linarith
    moreover from this have "i * PAGE_LENGTH < length c'" using c'(1) by simp
    moreover have "page_at c' i = page_at c i" unfolding c'(1) using b by simp
    ultimately show ?thesis using at by simp
  next
    case 2
    then show ?thesis using at c'(1) m PAGE_LENGTH_pos(1) by (simp add: Suc_le_eq)
  next
    case 3
    then have "(m + 1) * PAGE_LENGTH \<le> i * PAGE_LENGTH" by (intro mult_le_mono1) simp
    moreover have "1 < PAGE_LENGTH" by (simp add: PAGE_LENGTH_def)
    ultimately have "length c + 1 < i * PAGE_LENGTH" using m unfolding distrib_right by linarith
    then show ?thesis using at c'(1) by simp
  qed
qed

lemma padded_pages_determine:
  assumes "c \<noteq> []" and "c' \<noteq> []" and "padded_pages c = padded_pages c'"
    and "length (file_pages c) \<le> length (file_pages c')"
  shows "c' = c \<or> filler_appended c c'"
proof -
  let ?m = "length (file_pages c)" and ?n = "length (file_pages c')"
  define k where "k = pow2_ceil ?m - ?m"
  define k' where "k' = pow2_ceil ?n - ?n"
  have pp: "padded_pages c = file_pages c @ replicate k '' ''" "padded_pages c' = file_pages c' @ replicate k' '' ''"
    unfolding k_def k'_def padded_pages_def Let_def by (rule refl)+
  obtain j where p: "file_pages c' = file_pages c @ replicate j '' ''"
  proof -
    have "length (padded_pages c) = length (padded_pages c')" using assms(3) by simp
    then have "?m + k = ?n + k'" unfolding pp by simp
    then have "min (?n - ?m) k = ?n - ?m" using assms(4) by linarith
    moreover have "take ?n (padded_pages c) = take ?n (padded_pages c')" using assms(3) by simp
    ultimately have "file_pages c @ replicate (?n - ?m) '' '' = file_pages c'"
      unfolding pp using assms(4) by simp
    then show ?thesis using that by metis
  qed
  have nm: "?n = ?m + j" unfolding p by simp
  show ?thesis
  proof (cases "j = 0")
    case True
    then show ?thesis using p concat_file_pages by (metis append_Nil2 replicate_0)
  next
    case False
    have "j = 1"
    proof (rule ccontr)
      assume "j \<noteq> 1"
      then have "?m + 1 < ?n" using nm False by linarith
      then have "length (file_pages c' ! ?m) = PAGE_LENGTH" by (rule file_pages_full)
      moreover have "file_pages c' ! ?m = '' ''" using False unfolding p by (simp add: nth_append)
      ultimately show False by (simp add: PAGE_LENGTH_def)
    qed
    then have "concat (file_pages c') = concat (file_pages c) @ '' ''" unfolding p by simp
    then have c': "c' = c @ '' ''" unfolding concat_file_pages .
    have mn: "?m < ?n" using nm False by simp
    then have "?m * PAGE_LENGTH < length c'" using page_number_iff [OF assms(2)] by blast
    moreover have "length c' = length c + 1" using c' by simp
    moreover have "length c \<le> ?m * PAGE_LENGTH" using file_pages_le [OF assms(1)] by blast
    ultimately have "length c = ?m * PAGE_LENGTH" by linarith
    then have "length c mod PAGE_LENGTH = 0" by simp
    moreover have "?n \<le> length (padded_pages c')" unfolding pp by simp
    then have "?m < length (padded_pages c)" using mn assms(3) by simp
    ultimately show ?thesis using c' by (simp add: filler_appended_def)
  qed
qed



section \<open>What the tree says about the pages\<close>

text \<open>Two different pages at the same place have digests with the same text.\<close>

definition page_collision :: "string \<Rightarrow> string \<Rightarrow> bool" where
  "page_collision c c' \<longleftrightarrow> (\<exists>i<length (padded_pages c). padded_pages c ! i \<noteq> padded_pages c' ! i \<and>
     digest_string (padded_pages c ! i) = digest_string (padded_pages c' ! i))"

lemma file_text_eq_iff:
  assumes "good_file s c" and "good_file s' c'"
  shows "file_text c = file_text c' \<longleftrightarrow> map digest_string (padded_pages c) = map digest_string (padded_pages c')"
  using assms by (intro leaf_text.enc_eq_iff good_leaf_list)

lemma file_text_detects:
  assumes "good_file s c" and "good_file s' c'" and "file_text c = file_text c'"
  shows "c' = c \<or> filler_appended c c' \<or> filler_appended c' c \<or> page_collision c c'"
proof (cases "padded_pages c = padded_pages c'")
  case True
  have "c \<noteq> []" "c' \<noteq> []" using assms(1,2) by (simp_all add: good_file_def)
  then show ?thesis
    using padded_pages_determine [OF _ _ True] padded_pages_determine [OF _ _ True [symmetric]] by (metis nat_le_linear)
next
  case False
  have m: "map digest_string (padded_pages c) = map digest_string (padded_pages c')"
    using assms(3) file_text_eq_iff [OF assms(1,2)] by blast
  then have l: "length (padded_pages c) = length (padded_pages c')" by (metis length_map)
  then obtain i where "i < length (padded_pages c)" "padded_pages c ! i \<noteq> padded_pages c' ! i"
    using False nth_equalityI by metis
  moreover from this have "digest_string (padded_pages c ! i) = digest_string (padded_pages c' ! i)"
    using m l by (metis nth_map)
  ultimately show ?thesis unfolding page_collision_def by blast
qed

text \<open>The tree read back from the string of a file.\<close>

lemma read_file_tree:
  assumes "clean m" and "good_file slack c" and "length c \<le> 2 ^ 30"
  obtains s A where "compute_merkle m slack (Some c) mt result = Inr (0, file_tree m mt c, Str s)"
    and "string_to_tree m mt s = Inr A" and "all_hashed A" and "tree_height A = file_height c"
    and "nb_nodes A = 2 * length (padded_pages c)"
    and "\<And>i. 0 < i \<Longrightarrow> i < nb_nodes A \<Longrightarrow> hash_at A i = hash_at (file_tree m mt c) i"
proof -
  let ?F = "file_tree m mt c"
  have nb: "nb_nodes ?F = 2 * length (padded_pages c)" by (simp add: file_tree_def built_def paint_def)
  have "all_hashed ?F" using file_tree_full [OF assms(2)] inv_lessons by blast
  then show ?thesis
    using that [OF compute_merkle_good [OF assms] string_to_tree_text [OF file_tree_printable [OF assms(2)]]]
    by (simp add: reread_all_hashed reread_hash) (simp add: reread_def nb)
qed

lemma file_tree_leaves:
  assumes "good_file slack c"
  shows "first_leaf (file_tree m mt c) = length (padded_pages c)"
    and "nb_nodes (file_tree m mt c) = 2 * length (padded_pages c)"
    and "j < length (padded_pages c) \<Longrightarrow> data_at (file_tree m mt c) (length (padded_pages c) + j) = padded_pages c ! j"
    and "j < length (padded_pages c) \<Longrightarrow> hash_at (file_tree m mt c) (length (padded_pages c) + j) = digest_string (padded_pages c ! j)"
proof -
  let ?F = "file_tree m mt c" and ?n = "length (padded_pages c)"
  show f: "first_leaf ?F = ?n"
    unfolding file_tree_def using file_page_count(1) [OF assms] by (simp add: built_first_leaf)
  show nb: "nb_nodes ?F = 2 * ?n" by (simp add: file_tree_def built_def paint_def)
  assume j: "j < ?n"
  then show d: "data_at ?F (?n + j) = padded_pages c ! j" by (simp add: file_tree_def built_data_at)
  have "0 < ?n + j" "?n + j < nb_nodes ?F" using j nb by linarith+
  from full_inv_input [OF file_tree_full [OF assms] this]
  show "hash_at ?F (?n + j) = digest_string (padded_pages c ! j)" using d f by (simp add: node_input_def)
qed


text \<open>Two files with the same number of pages in the tree.\<close>

lemma compare_file_trees:
  assumes "good_file slack c" and "good_file slack x" and "length (padded_pages x) = length (padded_pages c)"
    and "all_hashed A" and "tree_height A = file_height c" and "nb_nodes A = 2 * length (padded_pages c)"
    and "\<And>i. 0 < i \<Longrightarrow> i < nb_nodes A \<Longrightarrow> hash_at A i = hash_at (file_tree m mt c) i"
    and "all_hashed B" and "tree_height B = file_height c" and "nb_nodes B = 2 * length (padded_pages c)"
    and "\<And>i. 0 < i \<Longrightarrow> i < nb_nodes B \<Longrightarrow> hash_at B i = hash_at (file_tree m mt x) i"
    and "file_height c \<le> fuel"
  shows "\<exists>l. compare_trees fuel A B 1 = Inr l \<and> (\<forall>j<length (padded_pages c).
    (length (padded_pages c) + j \<in> set l \<longrightarrow> padded_pages c ! j \<noteq> padded_pages x ! j) \<and>
    (padded_pages c ! j \<noteq> padded_pages x ! j \<and>
      (\<forall>k. \<not> collides_at (file_tree m mt c) (file_tree m mt x) ((length (padded_pages c) + j) div 2 ^ k)) \<longrightarrow>
      length (padded_pages c) + j \<in> set l))"
proof -
  let ?n = "length (padded_pages c)" and ?F = "file_tree m mt c" and ?G = "file_tree m mt x"
  have hx: "file_height x = file_height c"
    using assms(3) length_padded [OF assms(1)] length_padded [OF assms(2)] by (simp add: file_height_def)
  have "tree_height A = tree_height B" "tree_height A \<le> fuel" using assms(5,9,12) by simp_all
  from compare_trees_root [OF assms(4,8) this]
  obtain l where l: "compare_trees fuel A B 1 = Inr l"
    "\<And>j. j \<in> set l \<longleftrightarrow> 0 < j \<and> j < nb_nodes A \<and> (\<forall>k. 0 < j div 2 ^ k \<longrightarrow> hash_at A (j div 2 ^ k) \<noteq> hash_at B (j div 2 ^ k))"
    by blast
  note F = file_tree_leaves [OF assms(1), where m = m and mt = mt]
    and G = file_tree_leaves [OF assms(2), where m = m and mt = mt, unfolded assms(3)]
  have h: "hash_at A i = hash_at ?F i" "hash_at B i = hash_at ?G i" if "0 < i" "i < 2 * ?n" for i
    using assms(6,7,10,11) that by simp_all
  have "(?n + j \<in> set l \<longrightarrow> padded_pages c ! j \<noteq> padded_pages x ! j) \<and>
    (padded_pages c ! j \<noteq> padded_pages x ! j \<and> (\<forall>k. \<not> collides_at ?F ?G ((?n + j) div 2 ^ k)) \<longrightarrow> ?n + j \<in> set l)"
    if j: "j < ?n" for j
  proof (intro conjI impI)
    assume "?n + j \<in> set l"
    from iffD1 [OF l(2) this] have "0 < (?n + j) div 2 ^ 0 \<longrightarrow> hash_at A ((?n + j) div 2 ^ 0) \<noteq> hash_at B ((?n + j) div 2 ^ 0)"
      by blast
    moreover have i: "0 < ?n + j" "?n + j < 2 * ?n" using j by linarith+
    ultimately have "hash_at A (?n + j) \<noteq> hash_at B (?n + j)" by simp
    then have "digest_string (padded_pages c ! j) \<noteq> digest_string (padded_pages x ! j)"
      unfolding h(1) [OF i] h(2) [OF i] F(4) [OF j] G(4) [OF j] .
    then show "padded_pages c ! j \<noteq> padded_pages x ! j" by metis
  next
    assume d: "padded_pages c ! j \<noteq> padded_pages x ! j \<and> (\<forall>k. \<not> collides_at ?F ?G ((?n + j) div 2 ^ k))"
    have i: "0 < ?n + j" "?n + j < 2 * ?n" using j by linarith+
    have "hash_at A ((?n + j) div 2 ^ k) \<noteq> hash_at B ((?n + j) div 2 ^ k)" if k: "0 < (?n + j) div 2 ^ k" for k
    proof
      assume e: "hash_at A ((?n + j) div 2 ^ k) = hash_at B ((?n + j) div 2 ^ k)"
      have "(?n + j) div 2 ^ k \<le> ?n + j" by simp
      then have "(?n + j) div 2 ^ k < 2 * ?n" using i by linarith
      then have "take 32 (hash_at ?F ((?n + j) div 2 ^ k)) = take 32 (hash_at ?G ((?n + j) div 2 ^ k))"
        using e h k by simp
      from descend [OF file_tree_full [OF assms(1)] file_tree_full [OF assms(2)] _ _ _ _ k this]
      show False using d hx j F(1-3) G(3) by auto
    qed
    then show "?n + j \<in> set l" using l(2) i assms(6) by simp
  qed
  then show ?thesis using l(1) by blast
qed



section \<open>Properties\<close>

text \<open>
  C2: tampering shows. The file system has come to the world \<open>w'\<close> through requests of any kinds, with the content
  \<open>c'\<close> in the file; then the file is changed to \<open>x\<close> from outside and keeps its attribute, and has at most \<open>2 ^ 30\<close> bytes. Computing the tree of the file
  gives the text in the attribute if nothing has changed; and if it gives this text then the content is \<open>c'\<close>,
  or a space has been put behind or taken from a last full page where the tree goes on with a filler, or two
  different pages have digests with the same text.
\<close>

theorem tampering_shows:
  assumes "posix (sys env)" and "file_store (sys env) v (rootdir env @ path)"
    and "keeps_apart (sys env) v (rootdir env @ path)" and "sparing_store (sys env) v (rootdir env @ path)"
    and "length (rootdir env) + length path < path_max env"
    and "tree_current v w (rootdir env @ path) c" and "good_file s c"
    and "reached env v path w c w' c'"
    and "content_of v w'' (rootdir env @ path) = Some x" and "merkle_of v w'' (rootdir env @ path) = merkle_of v w' (rootdir env @ path)"
    and "clean m" and "good_file slack x" and "length x \<le> 2 ^ 30"
  shows "\<exists>T t. compute_merkle m slack (content_of v w'' (rootdir env @ path)) mt result = Inr (0, T, Str t) \<and>
    (x = c' \<longrightarrow> merkle_of v w'' (rootdir env @ path) = Some t) \<and>
    (merkle_of v w'' (rootdir env @ path) = Some t \<longrightarrow>
      x = c' \<or> filler_appended c' x \<or> filler_appended x c' \<or> page_collision c' x)"
proof -
  from reached_current [OF assms(1-8)]
  have t: "tree_current v w' (rootdir env @ path) c'" and g: "good_file s c'" by blast+
  have "merkle_of v w'' (rootdir env @ path) = Some (file_text c')" using t assms(10) by (simp add: tree_current_def)
  then show ?thesis
    using compute_merkle_text [OF assms(11-13), of mt result] file_text_detects [OF g assms(12)] assms(9) by auto
qed

theorem tampering_shows_witness:
  "\<exists>T t. compute_merkle zeroed_memory [nul] (content_of disk_view (disk_with ''abd'' (Some (file_text ''abc''))) (rootdir open_mount @ ''/a''))
      (empty_tree 0) Null = Inr (0, T, Str t) \<and>
    (''abd'' = ''abc'' \<longrightarrow> merkle_of disk_view (disk_with ''abd'' (Some (file_text ''abc''))) (rootdir open_mount @ ''/a'') = Some t) \<and>
    (merkle_of disk_view (disk_with ''abd'' (Some (file_text ''abc''))) (rootdir open_mount @ ''/a'') = Some t \<longrightarrow>
      ''abd'' = ''abc'' \<or> filler_appended ''abc'' ''abd'' \<or> filler_appended ''abd'' ''abc'' \<or> page_collision ''abc'' ''abd'')"
proof (rule tampering_shows)
  show "tree_current disk_view (disk_with ''abc'' (Some (file_text ''abc''))) (rootdir open_mount @ ''/a'') ''abc''"
    by (simp add: tree_current_def)
  show "reached open_mount disk_view ''/a'' (disk_with ''abc'' (Some (file_text ''abc''))) ''abc''
      (disk_with ''abc'' (Some (file_text ''abc''))) ''abc''" by (rule reached_start)
  show "good_file [nul] ''abc''" by (simp add: good_file_def)
qed (simp_all add: open_keeps_apart open_spares good_file_def)

text \<open>
  C12: a change that does not show. A file of full pages of less than \<open>2 ^ 30\<close> bytes, their number no power of two, has the same tree
  as the file with a space at its end, so that adding or removing the space leaves the attribute the tree of the file.
\<close>

theorem appended_space_hidden:
  assumes "clean m" and "good_file slack c" and "length c = n * PAGE_LENGTH" and "\<forall>k. n \<noteq> 2 ^ k" and "length c < 2 ^ 30"
  shows "\<exists>T T' t. compute_merkle m slack (Some c) mt result = Inr (0, T, Str t) \<and>
    compute_merkle m slack (Some (c @ '' '')) mt result = Inr (0, T', Str t) \<and> c @ '' '' \<noteq> c"
proof -
  have ne: "c \<noteq> []" using assms(2) by (simp add: good_file_def)
  have "length (file_pages c) \<le> length (padded_pages c)"
    unfolding length_padded_pow2 [OF ne] by (rule pow2_ceil_bounds(1) [OF file_pages_pos [OF ne]])
  moreover have "length (file_pages c) \<noteq> length (padded_pages c)"
  proof
    assume e: "length (file_pages c) = length (padded_pages c)"
    obtain k where k: "length (padded_pages c) = 2 ^ k" using length_padded_pow2 [OF ne] pow2_ceil_pow2 by metis
    have "length (file_pages c) = n" by (rule file_pages_exact [OF ne assms(3)])
    then have "n = 2 ^ k" using e k by simp
    then show False using assms(4) by blast
  qed
  ultimately have f: "filler_appended c (c @ '' '')" using assms(3) by (simp add: filler_appended_def)
  have g: "good_file slack (c @ '' '')" "length c \<le> 2 ^ 30" "length (c @ '' '') \<le> 2 ^ 30"
    using assms(2,5) by (auto simp: good_file_def)
  show ?thesis
    using compute_merkle_text [OF assms(1,2) g(2), of mt result] compute_merkle_text [OF assms(1) g(1,3), of mt result]
      filler_appended_same [OF ne f] by simp
qed

theorem appended_space_hidden_witness:
  "\<exists>c. length c = 3 * PAGE_LENGTH \<and> (\<exists>T T' t. compute_merkle zeroed_memory [nul] (Some c) (empty_tree 0) Null = Inr (0, T, Str t) \<and>
    compute_merkle zeroed_memory [nul] (Some (c @ '' '')) (empty_tree 0) Null = Inr (0, T', Str t) \<and> c @ '' '' \<noteq> c)"
proof (rule exI [of _ "replicate (3 * PAGE_LENGTH) CHR ''a''"], rule conjI)
  let ?c = "replicate (3 * PAGE_LENGTH) CHR ''a''"
  show l: "length ?c = 3 * PAGE_LENGTH" by (rule length_replicate)
  have s: "length ?c < 2 ^ 30" unfolding l by (simp add: PAGE_LENGTH_def)
  have g: "good_file [nul] ?c" using s unfolding good_file_def by (simp add: is_c_string_def)
  have "(3 :: nat) \<noteq> 2 ^ k" for k
  proof (cases k)
    case (Suc j)
    have "odd (3 :: nat)" "even (2 ^ Suc j :: nat)" by simp_all
    then show ?thesis unfolding Suc by metis
  qed simp
  then show "\<exists>T T' t. compute_merkle zeroed_memory [nul] (Some ?c) (empty_tree 0) Null = Inr (0, T, Str t) \<and>
    compute_merkle zeroed_memory [nul] (Some (?c @ '' '')) (empty_tree 0) Null = Inr (0, T', Str t) \<and> ?c @ '' '' \<noteq> ?c"
    by (intro appended_space_hidden [OF _ g l _ s]) simp_all
qed

text \<open>
  C28: finding the pages that have changed. For two files of at most \<open>2 ^ 30\<close> bytes with the same number of pages in the
  tree, computing both strings, reading them and comparing the trees from the root comes to an end within a
  depth of the height and reports leaves of pages that differ only; and it reports every such leaf if the shortened digest does not
  collide on what was hashed at a node of its path.
\<close>

theorem changed_pages_found:
  assumes "clean m" and "good_file slack c" and "good_file slack x" and "length (padded_pages x) = length (padded_pages c)"
    and "file_height c \<le> fuel" and "n = length (padded_pages c)"
    and "length c \<le> 2 ^ 30" and "length x \<le> 2 ^ 30"
  shows "\<exists>F G s t A B l. compute_merkle m slack (Some c) mt result = Inr (0, F, Str s) \<and>
    compute_merkle m slack (Some x) mt result = Inr (0, G, Str t) \<and>
    string_to_tree m mt s = Inr A \<and> string_to_tree m mt t = Inr B \<and> compare_trees fuel A B 1 = Inr l \<and>
    (\<forall>j<n. (n + j \<in> set l \<longrightarrow> padded_pages c ! j \<noteq> padded_pages x ! j) \<and>
      (padded_pages c ! j \<noteq> padded_pages x ! j \<and> (\<forall>k. \<not> collides_at F G ((n + j) div 2 ^ k)) \<longrightarrow> n + j \<in> set l))"
proof -
  have hx: "file_height x = file_height c"
    using assms(4) length_padded [OF assms(2)] length_padded [OF assms(3)] by (simp add: file_height_def)
  obtain s A where A: "compute_merkle m slack (Some c) mt result = Inr (0, file_tree m mt c, Str s)"
    "string_to_tree m mt s = Inr A" "all_hashed A" "tree_height A = file_height c" "nb_nodes A = 2 * length (padded_pages c)"
    "\<And>i. 0 < i \<Longrightarrow> i < nb_nodes A \<Longrightarrow> hash_at A i = hash_at (file_tree m mt c) i"
    by (rule read_file_tree [OF assms(1,2,7), of mt result]) blast
  obtain t B where B: "compute_merkle m slack (Some x) mt result = Inr (0, file_tree m mt x, Str t)"
    "string_to_tree m mt t = Inr B" "all_hashed B" "tree_height B = file_height c" "nb_nodes B = 2 * length (padded_pages c)"
    "\<And>i. 0 < i \<Longrightarrow> i < nb_nodes B \<Longrightarrow> hash_at B i = hash_at (file_tree m mt x) i"
    by (rule read_file_tree [OF assms(1,3,8), of mt result, unfolded assms(4) hx]) blast
  show ?thesis
    using compare_file_trees [OF assms(2-4) A(3-6) B(3-6) assms(5)] A(1,2) B(1,2) unfolding assms(6) by blast
qed

theorem changed_pages_found_witness:
  "\<exists>F G s t A B l. compute_merkle zeroed_memory [nul] (Some ''abc'') (empty_tree 0) Null = Inr (0, F, Str s) \<and>
    compute_merkle zeroed_memory [nul] (Some ''abd'') (empty_tree 0) Null = Inr (0, G, Str t) \<and>
    string_to_tree zeroed_memory (empty_tree 0) s = Inr A \<and> string_to_tree zeroed_memory (empty_tree 0) t = Inr B \<and>
    compare_trees 17 A B 1 = Inr l \<and>
    (\<forall>j<1. (1 + j \<in> set l \<longrightarrow> padded_pages ''abc'' ! j \<noteq> padded_pages ''abd'' ! j) \<and>
      (padded_pages ''abc'' ! j \<noteq> padded_pages ''abd'' ! j \<and> (\<forall>k. \<not> collides_at F G ((1 + j) div 2 ^ k)) \<longrightarrow> 1 + j \<in> set l))"
proof (rule changed_pages_found)
  have "good_file [nul] ''abc''" by (simp add: good_file_def)
  then show "file_height ''abc'' \<le> 17" by (rule file_page_count(2))
qed (simp_all add: good_file_def padded_short)

end
