(* ===== verification/Start.thy ===== *)
theory Start
  imports Operations
begin

text \<open>
  \<open>main\<close> of \<^verbatim>\<open>bbfs.c\<close>: from the arguments of the program to the call of \<open>fuse_main\<close>, with what the
  system answers as parameters.
\<close>

datatype start =
    Exit int
  | Abort
  | Mount "string list" "string option"

text \<open>What the system answers before FUSE runs.\<close>

record start_env =
  uid :: nat
  euid :: nat
  realpath :: "string \<Rightarrow> string option"
  malloc_works :: bool
  log_opens :: bool
  mutex_works :: bool

abbreviation dash :: "string \<Rightarrow> bool" where
  "dash s \<equiv> s \<noteq> [] \<and> hd s = CHR ''-''"

text \<open>\<open>log_open\<close> leaves the program when the log cannot be opened.\<close>

definition log_open :: "start_env \<Rightarrow> start \<Rightarrow> start" where
  "log_open se go = (if log_opens se then go else Exit 1)"

text \<open>
  The last two arguments are the root directory and the mount point. The root directory is taken
  out of the list; it is a null pointer when it does not exist.
\<close>

definition bb_main :: "start_env \<Rightarrow> string list \<Rightarrow> start" where
  "bb_main se argv =
     (if uid se = 0 \<or> euid se = 0 then Exit 1
      else
      let argc = length argv
      in if argc < 3 \<or> dash (argv ! (argc - 2)) \<or> dash (argv ! (argc - 1)) then Abort
      else if \<not> malloc_works se then Abort
      else
      let rootdir = realpath se (argv ! (argc - 2));
          argv = butlast (argv[argc - 2 := argv ! (argc - 1)])
      in log_open se (if mutex_works se then Mount argv rootdir else Exit 1))"

text \<open>FUSE never runs for the superuser, and gets the arguments without the root directory.\<close>

lemma bb_main_mounts:
  assumes "bb_main se argv = Mount args root"
  shows "uid se \<noteq> 0" and "euid se \<noteq> 0"
    and "\<exists>opts rootdir mountpoint. argv = opts @ [rootdir, mountpoint] \<and> args = opts @ [mountpoint] \<and>
      root = realpath se rootdir \<and> opts \<noteq> [] \<and> \<not> dash rootdir \<and> \<not> dash mountpoint"
proof -
  let ?n = "length argv"
  have a: "uid se \<noteq> 0" "euid se \<noteq> 0" "\<not> ?n < 3" "\<not> dash (argv ! (?n - 2))" "\<not> dash (argv ! (?n - 1))"
    "args = butlast (argv[?n - 2 := argv ! (?n - 1)])" "root = realpath se (argv ! (?n - 2))"
    using assms by (auto simp: bb_main_def log_open_def Let_def split: if_splits)
  show "uid se \<noteq> 0" "euid se \<noteq> 0" using a(1,2) .
  define opts where "opts = take (?n - 2) argv"
  have s: "argv = opts @ [argv ! (?n - 2), argv ! (?n - 1)]"
  proof -
    have "drop (?n - 2) argv = [argv ! (?n - 2), argv ! (?n - 1)]"
      using a(3) by (intro nth_equalityI) (auto simp: nth_Cons less_Suc_eq split: nat.splits)
    then show ?thesis unfolding opts_def by (metis append_take_drop_id)
  qed
  have l: "length opts = ?n - 2" using a(3) by (simp add: opts_def)
  obtain r t where rt: "argv ! (?n - 2) = r" "argv ! (?n - 1) = t" by blast
  have u: "argv = opts @ [r, t]" using s unfolding rt .
  have "args = opts @ [t]"
    using a(6) [unfolded u] by (simp add: nth_append list_update_append butlast_append)
  moreover have "opts \<noteq> []" using l a(3) by auto
  ultimately show "\<exists>opts rootdir mountpoint. argv = opts @ [rootdir, mountpoint] \<and> args = opts @ [mountpoint] \<and>
      root = realpath se rootdir \<and> opts \<noteq> [] \<and> \<not> dash rootdir \<and> \<not> dash mountpoint"
    using s a(4,5,7) rt by metis
qed

end
