(* ===== verification/Spec2Isabelle.thy ===== *)
theory Spec2Isabelle
  imports Hash_Properties Interleaving Integrity Start
begin

text \<open>
  A verification library for merkle_fs: a FUSE file system in C that passes every request on to a
  directory and keeps the text of a Merkle tree of every file in the extended attribute \<open>merkle\<close> of the
  file.

  \<^bold>\<open>The program\<close>

  All sources are below \<^verbatim>\<open>src/fuse/src\<close>.

    \<^item> \<^verbatim>\<open>bbfs.c\<close> holds one handler per FUSE operation, the table \<open>bb_oper\<close> of them, and \<open>main\<close>. Every handler
      writes to the log, puts the root directory before the path (\<open>bb_fullpath\<close>) and makes one system call,
      except \<open>bb_readdir\<close>, \<open>bb_mknod\<close>, \<open>bb_opendir\<close> and above all \<open>bb_write\<close>: it writes, reads the attribute of
      the file, brings the tree up to date and sets the attribute again.
    \<^item> \<^verbatim>\<open>log.c\<close> writes the log and turns a system call that failed into \<open>-errno\<close>.
    \<^item> \<^verbatim>\<open>merkle_tree/parse.c\<close> goes from files to trees: \<open>compute_merkle\<close> and \<open>m_compute_merkle\<close> compute the
      tree of a whole file, \<open>quick_change\<close> replaces one page, \<open>pages_in_need\<close> several, \<open>get_bigger_tree\<close>
      doubles a tree.
    \<^item> \<^verbatim>\<open>merkle_tree/merkletree.c\<close> has the tree itself: an array of nodes with the root at 1 and the
      children of \<open>i\<close> at \<open>2 * i\<close> and \<open>2 * i + 1\<close>; building it by one or by several threads, changing
      leaves, comparing, freeing, writing it as the string \<open>1:hash,2:hash\<close> and reading that string.
    \<^item> \<^verbatim>\<open>merkle_tree/sha3.c\<close> is the hash function.

  \<^bold>\<open>The theories\<close>

    \<^item> Prelude: the faults a C statement can run into (\<open>fault\<close>), C strings and pointers (\<open>c_ptr\<close>: null, never
      written, or a terminated string), logarithms, and values of type \<open>int\<close>: \<open>as_int\<close> converts to it,
      \<open>int_result\<close> ends in \<open>Int_overflow\<close> where a sum or product of ints does not fit. A function that may
      fault returns \<open>fault + 'a\<close>; an error return such as -1 is an ordinary value.
    \<^item> Keccak, Keccak_Eval, Sha3, Sha3_Vectors, Hash_Properties: \<^verbatim>\<open>sha3.c\<close>. \<open>keccakf\<close> on 25 words of 64 bits
      refines the permutation of the standard, stated with coordinates, rotation offsets and round
      constants of its own; \<open>sha3_Init\<close>, \<open>sha3_Update\<close> and \<open>sha3_Finalize\<close> on the record \<open>sha3_context\<close>
      compute the sponge of the whole message however it is cut up (the locale \<open>incremental_hash\<close>).
      Keccak_Eval is an equivalent form for evaluation, from which the known answers are computed.
    \<^item> Merkle, Tree_Invariant: the records \<open>node\<close> and \<open>merkle_tree\<close>, \<open>hash_node\<close>, \<open>build_tree\<close>. The
      invariant \<open>merkle_inv\<close> (every node has the hash of its children), the specification \<open>root_hash\<close>, and
      what a changed page does to the root. The locale \<open>hasher\<close> has what the tree needs of a hash.
    \<^item> Threads: \<open>m_build_tree\<close>. One step of a thread is one \<open>hash_node\<close>; a schedule is a list of thread
      numbers; the threads work on disjoint nodes and every schedule gives the tree of \<open>build_tree\<close>.
    \<^item> Tree_String: \<open>tree_to_string\<close>, \<open>str_split\<close>, \<open>string_to_tree\<close> and the round trip, \<open>print_tree\<close>.
      Of \<open>strtok\<close> there is the static variable, which each call takes over from the one before.
    \<^item> Tokenizer: \<open>str_split\<close> and \<open>string_to_tree\<close> once more as computations of the process, in which every
      \<open>strtok\<close> is a call of its own (\<open>string_to_tree_io\<close>). The locale \<open>tokenizer\<close> says what a thread relies on while
      it holds the mutex: nobody else moves the static variable; then it reads what \<open>string_to_tree\<close> reads.
    \<^item> Rebuild: \<open>change_and_rebuild\<close> in both modes, \<open>compare_trees\<close>, \<open>free_merkle\<close>.
    \<^item> Parse: \<open>compute_merkle\<close> and \<open>m_compute_merkle\<close>. The tree of a file is the tree over its pages of
      65536 bytes, filled up with pages of one space to a power of two (\<open>padded_pages\<close>).
    \<^item> Update, Update_Properties: \<open>quick_change\<close>, \<open>pages_in_need\<close>, \<open>get_bigger_tree\<close>,
      \<open>root_calculation\<close>. The abstract state behind a string is the list of the leaf hashes, of which
      the string is a function (\<open>text_of\<close>); each function is an operation on that list, and updating
      gives the string that computing anew gives.
    \<^item> System, Handlers, Operations: the process. \<open>system\<close> is the operating system with FUSE and is a
      parameter: it answers each call (\<open>sys_call\<close>) and changes the world \<open>'w\<close> and \<open>errno\<close>. A computation
      is a function of the process, a record of the world, \<open>errno\<close> and the calls made so far; \<open>steps\<close> is
      the step relation it follows (\<open>only_calls\<close>), \<open>runs\<close> is total correctness and \<open>faults\<close> its
      opposite. System also has \<^verbatim>\<open>log.c\<close>, Handlers the handlers, Operations the table \<open>bb_oper\<close>.
    \<^item> Write, Write_Properties: \<open>bb_write\<close>. \<open>tree_current\<close> says that the attribute of a file is the text of
      its tree; the writes that keep it so (\<open>tracked_write\<close>, \<open>first_write\<close>), and ways to lose it.
    \<^item> Interference, Interleaving: several threads in \<open>bb_write\<close>. \<open>amid\<close> is the system that one thread sees
      when others act between its calls, told whether it holds the mutex, \<open>at_lock\<close> the one on which another write
      overtakes it at the mutex. \<open>shared\<close> is the trace of the calls of all threads in the order in which the system answers them; a
      thread makes the calls of the trace that are its own (\<open>own\<close>, \<open>follows\<close>), and sees a system of the form \<open>amid\<close>;
      the mutex is taken only while it is free (\<open>exclusive\<close>), and between its two calls no other thread calls \<open>strtok\<close>.
    \<^item> Storing: a new file from \<open>bb_open\<close> to \<open>bb_release\<close>, written in pieces (\<open>store_file\<close>, \<open>blocks\<close>).
    \<^item> Operation_Properties, Sessions, Start: what all operations promise, \<open>bb_readdir\<close>, \<open>bb_open\<close>,
      truncation; sequences of requests of all kinds (\<open>serve\<close>); and \<open>bb_main\<close>, which is \<open>main\<close> up to
      the call of FUSE.
    \<^item> Service: the state machine of the mounted file system. \<open>reached\<close> is the set of the states after requests of
      all kinds in any order, with the content of one file.
    \<^item> Integrity: what the attribute says about the file. \<open>filler_appended\<close> is the change of a file that its tree does
      not show, \<open>page_collision\<close> the two pages whose digests have the same text.

  \<^bold>\<open>What is shown\<close>

    \<^item> Refinement: the permutation and the sponge; building a tree, with and without threads, gives
      the specified root; on lists of leaf hashes the updates are list operations; a session of requests
      keeps the attribute the text of the tree of the file, one of writes also amid other threads, and
      a new file gets its tree piece by piece.
    \<^item> Invariants: contexts of the hash function, the Merkle invariant under every operation on trees,
      the attribute of a file in every state the file system reaches.
    \<^item> Round trip: reading the string of a tree gives the tree back; the locale \<open>codec\<close> has what follows
      for text forms, of lists of fields and of lists of leaf hashes.
    \<^item> Safety: threads own their nodes; operations make system calls below the root directory only,
      change no attributes but those asked for, and a write leaves other files alone, so that threads
      that write to different files do not disturb each other in any interleaving.
    \<^item> Integrity: after any requests, the tree computed from a file that was changed from outside differs from
      the attribute, but for one change that it cannot show and collisions; comparing the trees of two files finds the
      pages in which they differ.
    \<^item> Termination and bounds: the recursion of \<open>compare_trees\<close>, the loop of \<open>bb_readdir\<close>, the buffers
      of strings and paths, the size of a tree on 32 bit words.
    \<^item> Errors: inputs on which the functions return -1 or -2, on which they have no defined behaviour,
      writes and truncations after which the attribute is not the tree of the file, among them the copying of a
      file in blocks that are smaller than a page and divide it; and sizes that an \<open>int\<close> cannot hold.

  \<^bold>\<open>Bounds and fuel\<close>

  The code keeps sizes, offsets and their products in \<open>int\<close>s, and so do the definitions; each theorem has the bound
  that the code needs.

    \<^item> The size of a file and one byte more are an \<open>int\<close>: below \<open>2 ^ 31\<close> (\<open>good_file\<close>). \<open>compute_merkle\<close> computes the
      tree of a file of at most \<open>2 ^ 30\<close> bytes; for larger files \<open>tree_size * PAGE_LENGTH\<close> overflows before any tree is
      built (\<open>compute_merkle_large_files\<close>). Theorems about trees that a file gets from writes in pages do not need this
      bound, as \<open>quick_change\<close> and \<open>pages_in_need\<close> have their own: the product of the number of new pages with
      \<open>PAGE_LENGTH\<close>, and \<open>offset + size\<close>.
    \<^item> The offset of a page in an array is the sum of the lengths of the pages before it, a word of 32 bits in the
      model (\<open>slot\<close>): the pages of a tree have less than \<open>2 ^ 31\<close> bytes together.
    \<^item> The size of the buffer of \<open>tree_to_string\<close> is an \<open>int\<close>: trees written as text have a height below 24, for
      taller ones it overflows (\<open>tree_to_string_tall\<close>). The tree of a file has a height of at most 17; the
      attribute then fits \<open>MAX_TREE_SIZE\<close>.
    \<^item> What a system call returns becomes an \<open>int\<close> in \<open>log_syscall\<close>; documented results of the calls concerned fit (\<open>posix\<close>,
      \<open>file_store\<close>).

  The fuel of \<open>compare_trees\<close> is the depth of the stack; the height of the tree is enough. The fuel of \<open>bb_readdir\<close>
  is the number of rounds; the number of names is enough. The size \<open>PATH_MAX\<close> of a path buffer is a parameter.

  \<^bold>\<open>Assumptions\<close>

  Theorems about the process name what they need of the system: \<open>posix\<close> (a call that fails has set
  \<open>errno\<close>; printing changes nothing but perhaps \<open>errno\<close>; a status is an \<open>int\<close>), \<open>file_store\<close> (files and attributes are read as
  they were written, and \<open>strtok\<close> goes on where it was while the mutex is held), \<open>keeps_apart\<close>, \<open>gentle_store\<close> and
  \<open>sparing_store\<close> (calls on one file leave another alone, calls that read leave it as it is, and so does opening it, but
  with \<open>O_TRUNC\<close>), \<open>steady_fds\<close> and \<open>steady_cursor\<close> (the calls of a write open and close no descriptors, and only
  \<open>strtok\<close> moves its static variable), \<open>opens\<close> (a file can be opened and closed, and keeps its content by it),
  \<open>dir_stream\<close> (a directory delivers its names in order), \<open>quiet_log\<close> (printing leaves \<open>errno\<close> alone), \<open>local_log\<close> (what it does to \<open>errno\<close> does not depend
  on the files). Each is met by a small system of the
  library. Theorems about trees name what they need of memory that the program does not
  initialise: \<open>clean\<close> (a terminator stands behind the buffer of \<open>hash_node\<close>), \<open>pages_written\<close>, and
  \<open>good_file\<close> (a text file, which has no null characters, with a terminator behind it); \<open>heap_ok\<close> takes
  these together with terminators behind the attribute and the buffer of a write. The code relies
  on all of them and establishes none.

  \<^bold>\<open>Not modelled\<close>

    \<^item> The values in log messages (a message is its label), the messages of tree functions and of \<open>main\<close> on
      the terminal, and the structs that \<open>lstat\<close>, \<open>statvfs\<close> and FUSE fill for their caller: nothing
      in the program reads them except to print them.
    \<^item> Failing allocations, and the layout of memory beyond the end of each buffer: a write behind
      a buffer is the fault \<open>Overrun\<close>.
    \<^item> FUSE, the system libraries and the configuration in \<^verbatim>\<open>config.h\<close>, which is generated; the model follows
      the build with \<open>fdatasync\<close> and extended attributes.
    \<^item> The test programs \<^verbatim>\<open>merkle_tree/test.c\<close> and \<^verbatim>\<open>test_fs.c\<close>, which only call the library.
    \<^item> Threads that write to the same file, other than a whole write that overtakes another at the mutex:
      the program makes no promise about them. Threads with requests other than writes come in as what happens
      between the calls of a write.
\<close>

end
